(* ===== verification/Klist.thy ===== *)
theory Klist
  imports Prelude
begin

text \<open>
  \<^verbatim>\<open>libs/list.h\<close>: the circular doubly linked list every kernel queue is made of.

  The store maps the address of a \<^verbatim>\<open>struct list_entry\<close> to its two pointers; the routines are
  translated assignment by assignment, so that aliased arguments (a list with one element, the
  head itself) behave as in C. The predicate \<open>ring s h xs\<close> says that \<open>h\<close> is the head of a
  well-formed circular list whose other entries are \<open>xs\<close>, in order. Each routine is shown to be
  the corresponding operation on the sequence \<open>xs\<close>; these operations on sequences
  (\<open>xs @ [e]\<close>, \<open>e # xs\<close>, \<open>insert_before\<close>, \<open>insert_after\<close>, \<open>remove1\<close>) are the
  ones the other theories use for a queue. The interface \<open>intrusive_list\<close> states these laws and
  derives from them that a list filled by \<open>list_add_before\<close> at its head and emptied from the
  front is a first-in first-out queue.
\<close>

record 'p list_entry =
  prev :: 'p
  "next" :: 'p

type_synonym 'p list_store = "'p \<Rightarrow> 'p list_entry"

subsection \<open>The routines\<close>

definition set_next :: "'p list_store \<Rightarrow> 'p \<Rightarrow> 'p \<Rightarrow> 'p list_store" where
  "set_next s p q = s(p := (s p)\<lparr>next := q\<rparr>)"

definition set_prev :: "'p list_store \<Rightarrow> 'p \<Rightarrow> 'p \<Rightarrow> 'p list_store" where
  "set_prev s p q = s(p := (s p)\<lparr>prev := q\<rparr>)"

definition list_init :: "'p list_store \<Rightarrow> 'p \<Rightarrow> 'p list_store" where
  "list_init s elm = set_prev (set_next s elm elm) elm elm"

definition list_add_between :: "'p list_store \<Rightarrow> 'p \<Rightarrow> 'p \<Rightarrow> 'p \<Rightarrow> 'p list_store" where
  "list_add_between s elm p n =
     (let s = set_prev s n elm;
          s = set_next s p elm;
          s = set_next s elm n
      in set_prev s elm p)"

definition list_del_between :: "'p list_store \<Rightarrow> 'p \<Rightarrow> 'p \<Rightarrow> 'p list_store" where
  "list_del_between s p n = set_prev (set_next s p n) n p"

definition list_add_before :: "'p list_store \<Rightarrow> 'p \<Rightarrow> 'p \<Rightarrow> 'p list_store" where
  "list_add_before s listelm elm = list_add_between s elm (prev (s listelm)) listelm"

definition list_add_after :: "'p list_store \<Rightarrow> 'p \<Rightarrow> 'p \<Rightarrow> 'p list_store" where
  "list_add_after s listelm elm = list_add_between s elm listelm (next (s listelm))"

definition list_add :: "'p list_store \<Rightarrow> 'p \<Rightarrow> 'p \<Rightarrow> 'p list_store" where
  "list_add s listelm elm = list_add_after s listelm elm"

definition list_del :: "'p list_store \<Rightarrow> 'p \<Rightarrow> 'p list_store" where
  "list_del s listelm = list_del_between s (prev (s listelm)) (next (s listelm))"

definition list_del_init :: "'p list_store \<Rightarrow> 'p \<Rightarrow> 'p list_store" where
  "list_del_init s listelm = list_init (list_del s listelm) listelm"

definition list_empty :: "'p list_store \<Rightarrow> 'p \<Rightarrow> bool" where
  "list_empty s l \<longleftrightarrow> next (s l) = l"

definition list_next :: "'p list_store \<Rightarrow> 'p \<Rightarrow> 'p" where
  "list_next s listelm = next (s listelm)"

definition list_prev :: "'p list_store \<Rightarrow> 'p \<Rightarrow> 'p" where
  "list_prev s listelm = prev (s listelm)"

subsection \<open>The list a head represents\<close>

fun links :: "'p list_store \<Rightarrow> 'p \<Rightarrow> 'p list \<Rightarrow> 'p \<Rightarrow> bool" where
  "links s p [] q \<longleftrightarrow> next (s p) = q \<and> prev (s q) = p"
| "links s p (x # xs) q \<longleftrightarrow> next (s p) = x \<and> prev (s x) = p \<and> links s x xs q"

definition ring :: "'p list_store \<Rightarrow> 'p \<Rightarrow> 'p list \<Rightarrow> bool" where
  "ring s h xs \<longleftrightarrow> distinct (h # xs) \<and> links s h xs h"

fun insert_before :: "'a \<Rightarrow> 'a \<Rightarrow> 'a list \<Rightarrow> 'a list" where
  "insert_before a e [] = []"
| "insert_before a e (x # xs) = (if x = a then e # x # xs else x # insert_before a e xs)"

fun insert_after :: "'a \<Rightarrow> 'a \<Rightarrow> 'a list \<Rightarrow> 'a list" where
  "insert_after a e [] = []"
| "insert_after a e (x # xs) = (if x = a then x # e # xs else x # insert_after a e xs)"

lemma insert_before_split: "a \<notin> set xs \<Longrightarrow> insert_before a e (xs @ a # ys) = xs @ e # a # ys"
  by (induction xs) auto

lemma insert_after_split: "a \<notin> set xs \<Longrightarrow> insert_after a e (xs @ a # ys) = xs @ a # e # ys"
  by (induction xs) auto

lemma links_append: "links s p (xs @ y # ys) q \<longleftrightarrow> links s p xs y \<and> links s y ys q"
  by (induction xs arbitrary: p) auto

lemma links_cong:
  assumes "\<And>x. x \<in> set (p # xs) \<Longrightarrow> next (s' x) = next (s x)"
    and "\<And>x. x \<in> set (xs @ [q]) \<Longrightarrow> prev (s' x) = prev (s x)"
  shows "links s' p xs q = links s p xs q"
  using assms by (induction xs arbitrary: p) auto

text \<open>What a routine changes, seen through the two fields.\<close>

lemma next_set_next [simp]: "next (set_next s p q x) = (if x = p then q else next (s x))"
  by (simp add: set_next_def)

lemma prev_set_next [simp]: "prev (set_next s p q x) = prev (s x)"
  by (simp add: set_next_def)

lemma next_set_prev [simp]: "next (set_prev s p q x) = next (s x)"
  by (simp add: set_prev_def)

lemma prev_set_prev [simp]: "prev (set_prev s p q x) = (if x = p then q else prev (s x))"
  by (simp add: set_prev_def)

lemma next_add_between [simp]:
  "next (list_add_between s e a b x) = (if x = e then b else if x = a then e else next (s x))"
  by (simp add: list_add_between_def)

lemma prev_add_between [simp]:
  "prev (list_add_between s e a b x) = (if x = e then a else if x = b then e else prev (s x))"
  by (simp add: list_add_between_def)

lemma next_del_between [simp]:
  "next (list_del_between s a b x) = (if x = a then b else next (s x))"
  by (simp add: list_del_between_def)

lemma prev_del_between [simp]:
  "prev (list_del_between s a b x) = (if x = b then a else prev (s x))"
  by (simp add: list_del_between_def)

text \<open>The neighbours of a position, seen from the representation.\<close>

lemma links_last: "links s p xs q \<Longrightarrow> prev (s q) = last (p # xs)"
  by (induction xs arbitrary: p) auto

lemma links_first: "links s p xs q \<Longrightarrow> next (s p) = hd (xs @ [q])"
  by (cases xs) auto

text \<open>Insertion and deletion between two neighbours.\<close>

lemma links_add_front:
  assumes "links s a ys q" "e \<notin> set (a # q # ys)" "distinct ys" "a \<notin> set ys" "q \<notin> set ys"
  shows "links (list_add_between s e a (hd (ys @ [q]))) a (e # ys) q"
proof (cases ys)
  case Nil
  with assms show ?thesis by auto
next
  case (Cons y zs)
  have "links (list_add_between s e a y) y zs q = links s y zs q"
    by (rule links_cong) (use assms Cons in auto)
  with assms Cons show ?thesis by auto
qed

lemma links_add:
  assumes "links s p (xs @ ys) q"
    and "e \<notin> set (p # q # xs @ ys)" "distinct (p # xs @ ys)" "q \<notin> set (xs @ ys)"
  shows "links (list_add_between s e (last (p # xs)) (hd (ys @ [q]))) p (xs @ e # ys) q"
proof (cases "xs" rule: rev_cases)
  case Nil
  with assms links_add_front[of s p ys q e] show ?thesis by simp
next
  case (snoc zs z)
  let ?b = "hd (ys @ [q])"
  from snoc assms(1) have l: "links s p zs z" "links s z ys q" by (auto simp: links_append)
  have "links (list_add_between s e z ?b) z (e # ys) q"
    by (rule links_add_front) (use assms l snoc in auto)
  moreover have "?b = q \<or> ?b \<in> set ys" by (cases ys) auto
  then have "links (list_add_between s e z ?b) p zs z = links s p zs z"
    by (intro links_cong) (use assms snoc in auto)
  ultimately show ?thesis using l snoc by (simp add: links_append)
qed

lemma links_del:
  assumes "links s p (xs @ e # ys) q" "distinct (p # xs @ e # ys)" "q \<notin> set (xs @ e # ys)"
  shows "links (list_del s e) p (xs @ ys) q"
proof -
  from assms(1) have l: "links s p xs e" "links s e ys q" by (auto simp: links_append)
  let ?a = "last (p # xs)" and ?b = "hd (ys @ [q])"
  have d: "list_del s e = list_del_between s ?a ?b"
    using links_last[OF l(1)] links_first[OF l(2)] by (simp add: list_del_def)
  show ?thesis
  proof (cases xs rule: rev_cases)
    case Nil
    then show ?thesis
    proof (cases ys)
      case (Cons y zs)
      have "links (list_del_between s p y) y zs q = links s y zs q"
        by (rule links_cong) (use assms Cons Nil in auto)
      with l Cons Nil d show ?thesis by simp
    qed (use l d in simp)
  next
    case (snoc zs z)
    have left: "links (list_del_between s z ?b) p zs z = links s p zs z"
      by (rule links_cong) (use assms snoc in \<open>cases ys; auto\<close>)+
    have right: "links (list_del_between s z ?b) z ys q"
    proof (cases ys)
      case (Cons y us)
      have "links (list_del_between s z y) y us q = links s y us q"
        by (rule links_cong) (use assms Cons snoc in auto)
      with l Cons show ?thesis by simp
    qed simp
    from left right l snoc d show ?thesis by (simp add: links_append)
  qed
qed

subsection \<open>The routines as operations on the represented sequence\<close>

lemma ring_init: "ring (list_init s h) h []"
  by (simp add: ring_def list_init_def)

lemma ring_empty_iff: "ring s h xs \<Longrightarrow> list_empty s h \<longleftrightarrow> xs = []"
  by (cases xs) (auto simp: ring_def list_empty_def)

lemma ring_next_head: "ring s h xs \<Longrightarrow> list_next s h = hd (xs @ [h])"
  by (simp add: ring_def list_next_def links_first)

lemma ring_prev_head: "ring s h xs \<Longrightarrow> list_prev s h = last (h # xs)"
  by (auto simp: ring_def list_prev_def dest: links_last)

lemma ring_next: "ring s h (xs @ x # ys) \<Longrightarrow> list_next s x = hd (ys @ [h])"
  by (auto simp: ring_def list_next_def links_append dest: links_first)

lemma ring_prev: "ring s h (xs @ x # ys) \<Longrightarrow> list_prev s x = last (h # xs)"
  by (auto simp: ring_def list_prev_def links_append dest: links_last)

lemma ring_add:
  assumes "ring s h (xs @ ys)" "e \<notin> set (h # xs @ ys)"
  shows "ring (list_add_between s e (last (h # xs)) (hd (ys @ [h]))) h (xs @ e # ys)"
  using assms by (auto simp: ring_def intro!: links_add simp del: last.simps)

lemma ring_add_after:
  assumes "ring s h (xs @ x # ys)" "e \<notin> set (h # xs @ x # ys)"
  shows "ring (list_add_after s x e) h (xs @ x # e # ys)"
  using ring_add[of s h "xs @ [x]" ys e] ring_next[OF assms(1)] assms
  by (simp add: list_add_after_def list_next_def)

lemma ring_add_before:
  assumes "ring s h (xs @ x # ys)" "e \<notin> set (h # xs @ x # ys)"
  shows "ring (list_add_before s x e) h (xs @ e # x # ys)"
  using ring_add[of s h xs "x # ys" e] ring_prev[OF assms(1)] assms
  by (simp add: list_add_before_def list_prev_def)

lemma ring_add_after_head:
  "ring s h xs \<Longrightarrow> e \<notin> set (h # xs) \<Longrightarrow> ring (list_add_after s h e) h (e # xs)"
  using ring_add[of s h "[]" xs e] ring_next_head[of s h xs]
  by (simp add: list_add_after_def list_next_def)

lemma ring_add_before_head:
  "ring s h xs \<Longrightarrow> e \<notin> set (h # xs) \<Longrightarrow> ring (list_add_before s h e) h (xs @ [e])"
  using ring_add[of s h xs "[]" e] ring_prev_head[of s h xs]
  by (simp add: list_add_before_def list_prev_def)

lemma ring_del:
  assumes "ring s h (xs @ x # ys)"
  shows "ring (list_del s x) h (xs @ ys)"
  using assms links_del[of s h xs x ys h] by (auto simp: ring_def)

text \<open>A list is not disturbed by a change of entries that are not on it.\<close>

lemma ring_frame:
  assumes "ring s h xs" "\<And>x. x \<in> set (h # xs) \<Longrightarrow> s' x = s x"
  shows "ring s' h xs"
  using assms links_cong[of h xs s' s h] by (auto simp: ring_def)

lemma list_add_between_other [simp]:
  "x \<noteq> e \<Longrightarrow> x \<noteq> a \<Longrightarrow> x \<noteq> b \<Longrightarrow> list_add_between s e a b x = s x"
  by (simp add: list_add_between_def set_next_def set_prev_def Let_def)

lemma list_del_between_other [simp]: "x \<noteq> a \<Longrightarrow> x \<noteq> b \<Longrightarrow> list_del_between s a b x = s x"
  by (simp add: list_del_between_def set_next_def set_prev_def)

lemma list_init_other [simp]: "x \<noteq> e \<Longrightarrow> list_init s e x = s x"
  by (simp add: list_init_def set_next_def set_prev_def)

lemma ring_del_init:
  assumes "ring s h (xs @ x # ys)"
  shows "ring (list_del_init s x) h (xs @ ys)" and "ring (list_del_init s x) x []"
proof -
  have "ring (list_del s x) h (xs @ ys)" by (rule ring_del[OF assms])
  then show "ring (list_del_init s x) h (xs @ ys)"
    unfolding list_del_init_def by (rule ring_frame) (use assms in \<open>auto simp: ring_def intro!: list_init_other\<close>)
  show "ring (list_del_init s x) x []"
    unfolding list_del_init_def by (rule ring_init)
qed

text \<open>Two lists in the same store: an insertion into the one leaves the other.\<close>

lemma ring_neighbours:
  assumes "ring s h xs" "x \<in> set (h # xs)"
  shows "list_next s x \<in> set (h # xs)" and "list_prev s x \<in> set (h # xs)"
proof -
  consider "x = h" | ys zs where "xs = ys @ x # zs" using assms(2) by (auto dest: split_list)
  then show "list_next s x \<in> set (h # xs)" "list_prev s x \<in> set (h # xs)"
  proof (atomize (full), cases)
    case 1
    then show "list_next s x \<in> set (h # xs) \<and> list_prev s x \<in> set (h # xs)"
      using ring_next_head[OF assms(1)] ring_prev_head[OF assms(1)] by (cases xs) auto
  next
    case (2 ys zs)
    with assms(1) have "ring s h (ys @ x # zs)" by simp
    from ring_next[OF this] ring_prev[OF this] 2
    show "list_next s x \<in> set (h # xs) \<and> list_prev s x \<in> set (h # xs)"
      by (cases zs; cases ys rule: rev_cases) auto
  qed
qed

lemma ring_add_before_other:
  assumes "ring s h xs" "ring s k ys" "set (h # xs) \<inter> set (k # ys) = {}"
    and "x \<in> set (h # xs)" "e \<notin> set (k # ys)"
  shows "ring (list_add_before s x e) k ys"
  using assms(2)
proof (rule ring_frame)
  fix y assume y: "y \<in> set (k # ys)"
  then have "y \<noteq> e" "y \<noteq> x" "y \<noteq> list_prev s x"
    using ring_neighbours[OF assms(1,4)] assms(3-5) by blast+
  then show "list_add_before s x e y = s y"
    by (simp add: list_add_before_def list_prev_def)
qed

lemma ring_del_init_other:
  assumes "ring s h xs" "ring s k ys" "set (h # xs) \<inter> set (k # ys) = {}" "x \<in> set xs"
  shows "ring (list_del_init s x) k ys"
  using assms(2)
proof (rule ring_frame)
  fix y assume y: "y \<in> set (k # ys)"
  have x: "x \<in> set (h # xs)" using assms(4) by simp
  from y x have "y \<noteq> x" "y \<noteq> list_next s x" "y \<noteq> list_prev s x"
    using ring_neighbours[OF assms(1) x] assms(3) by blast+
  then show "list_del_init s x y = s y"
    by (simp add: list_del_init_def list_del_def list_next_def list_prev_def)
qed

subsection \<open>The interface, and first-in first-out queues over it\<close>

locale intrusive_list =
  fixes rep :: "'s \<Rightarrow> 'p \<Rightarrow> 'p list \<Rightarrow> bool"
    and init :: "'s \<Rightarrow> 'p \<Rightarrow> 's"
    and add_before :: "'s \<Rightarrow> 'p \<Rightarrow> 'p \<Rightarrow> 's"
    and del_init :: "'s \<Rightarrow> 'p \<Rightarrow> 's"
    and is_empty :: "'s \<Rightarrow> 'p \<Rightarrow> bool"
    and nxt :: "'s \<Rightarrow> 'p \<Rightarrow> 'p"
  assumes rep_init: "rep (init s h) h []"
    and rep_add: "rep s h xs \<Longrightarrow> e \<notin> set (h # xs) \<Longrightarrow> rep (add_before s h e) h (xs @ [e])"
    and rep_del: "rep s h (xs @ x # ys) \<Longrightarrow> rep (del_init s x) h (xs @ ys)"
    and rep_empty: "rep s h xs \<Longrightarrow> is_empty s h \<longleftrightarrow> xs = []"
    and rep_next: "rep s h xs \<Longrightarrow> nxt s h = hd (xs @ [h])"
    and rep_head: "rep s h xs \<Longrightarrow> h \<notin> set xs"
begin

text \<open>Fill the list at its tail, drain it from its front: the two loops of a queue's client.\<close>

primrec enqueue_all :: "'s \<Rightarrow> 'p \<Rightarrow> 'p list \<Rightarrow> 's" where
  "enqueue_all s h [] = s"
| "enqueue_all s h (e # es) = enqueue_all (add_before s h e) h es"

primrec drain :: "nat \<Rightarrow> 's \<Rightarrow> 'p \<Rightarrow> 'p list" where
  "drain 0 s h = []"
| "drain (Suc n) s h =
     (if is_empty s h then [] else nxt s h # drain n (del_init s (nxt s h)) h)"

lemma rep_enqueue_all:
  "rep s h xs \<Longrightarrow> distinct (h # xs @ es) \<Longrightarrow> rep (enqueue_all s h es) h (xs @ es)"
proof (induction es arbitrary: s xs)
  case (Cons e es)
  then have "rep (add_before s h e) h (xs @ [e])" by (intro rep_add) auto
  from Cons.IH[OF this] Cons.prems show ?case by simp
qed simp

lemma drain_rep: "rep s h xs \<Longrightarrow> length xs \<le> n \<Longrightarrow> drain n s h = xs"
proof (induction n arbitrary: s xs)
  case (Suc n)
  show ?case
  proof (cases xs)
    case Nil
    with Suc.prems rep_empty show ?thesis by simp
  next
    case (Cons y ys)
    with Suc.prems have e: "\<not> is_empty s h" "nxt s h = y"
      using rep_empty rep_next by auto
    from Suc.prems Cons have "rep s h ([] @ y # ys)" by simp
    from rep_del[OF this] have "rep (del_init s y) h ys" by simp
    with Suc Cons e show ?thesis by simp
  qed
qed simp

lemma fifo:
  assumes "distinct (h # es)"
  shows "drain (length es) (enqueue_all (init s h) h es) h = es"
  using drain_rep[OF rep_enqueue_all[OF rep_init]] assms by simp

end

interpretation lh: intrusive_list ring list_init list_add_before list_del_init list_empty list_next
proof unfold_locales
qed (simp_all add: ring_init ring_add_before_head ring_del_init(1) ring_empty_iff ring_next_head,
  simp add: ring_def)

end
