(* ===== verification/Skew_Pool.thy ===== *)
theory Skew_Pool
  imports Prelude "HOL-Library.Tree_Multiset"
begin

text \<open>
  \<^verbatim>\<open>libs/skew_heap.h\<close>: the skew heap the stride and the priority scheduler keep their processes in.

  The nodes are \<^verbatim>\<open>struct skew_heap_entry\<close> records in a store indexed by their addresses; the
  comparison function is a parameter, as \<^verbatim>\<open>compare_f\<close> is in C. \<open>skew_heap_merge\<close> is recursive
  in C and not bounded by anything but the shape of the heaps, so it is a partial function: \<open>None\<close>
  would be a recursion that never returns. The predicate \<open>hrep s p t\<close> says that \<open>p\<close> points to
  the tree \<open>t\<close>, with correct parent pointers inside. Under it the pointer routines return and
  compute the functional routines \<open>tmerge\<close>, \<open>tinsert\<close>, \<open>tremove\<close>, for which heap order and
  the set of elements are proved.
\<close>

record 'p skew_heap_entry =
  parent :: "'p option"
  left :: "'p option"
  right :: "'p option"

type_synonym 'p skew_store = "'p \<Rightarrow> 'p skew_heap_entry"

subsection \<open>The routines\<close>

definition set_parent :: "'p skew_store \<Rightarrow> 'p \<Rightarrow> 'p option \<Rightarrow> 'p skew_store" where
  "set_parent s x q = s(x := (s x)\<lparr>parent := q\<rparr>)"

definition set_left :: "'p skew_store \<Rightarrow> 'p \<Rightarrow> 'p option \<Rightarrow> 'p skew_store" where
  "set_left s x q = s(x := (s x)\<lparr>left := q\<rparr>)"

definition set_right :: "'p skew_store \<Rightarrow> 'p \<Rightarrow> 'p option \<Rightarrow> 'p skew_store" where
  "set_right s x q = s(x := (s x)\<lparr>right := q\<rparr>)"

definition skew_heap_init :: "'p skew_store \<Rightarrow> 'p \<Rightarrow> 'p skew_store" where
  "skew_heap_init s a = s(a := \<lparr>parent = None, left = None, right = None\<rparr>)"

definition adopt :: "'p skew_store \<Rightarrow> 'p option \<Rightarrow> 'p option \<Rightarrow> 'p skew_store" where
  "adopt s l q = (case l of None \<Rightarrow> s | Some x \<Rightarrow> set_parent s x q)"

partial_function (option) skew_heap_merge ::
  "('p \<Rightarrow> 'p \<Rightarrow> int) \<Rightarrow> 'p skew_store \<Rightarrow> 'p option \<Rightarrow> 'p option \<Rightarrow> ('p option \<times> 'p skew_store) option"
where
  "skew_heap_merge cmp s a b =
     (case a of None \<Rightarrow> Some (b, s)
      | Some x \<Rightarrow>
        (case b of None \<Rightarrow> Some (a, s)
         | Some y \<Rightarrow>
           if cmp x y = - 1 then do {
             let r = left (s x);
             (l, s) \<leftarrow> skew_heap_merge cmp s (right (s x)) b;
             let s = set_right (set_left s x l) x r;
             Some (Some x, adopt s l (Some x)) }
           else do {
             let r = left (s y);
             (l, s) \<leftarrow> skew_heap_merge cmp s a (right (s y));
             let s = set_right (set_left s y l) y r;
             Some (Some y, adopt s l (Some y)) }))"

definition skew_heap_insert ::
  "('p \<Rightarrow> 'p \<Rightarrow> int) \<Rightarrow> 'p skew_store \<Rightarrow> 'p option \<Rightarrow> 'p \<Rightarrow> ('p option \<times> 'p skew_store) option"
where
  "skew_heap_insert cmp s a b = skew_heap_merge cmp (skew_heap_init s b) a (Some b)"

definition skew_heap_remove ::
  "('p \<Rightarrow> 'p \<Rightarrow> int) \<Rightarrow> 'p skew_store \<Rightarrow> 'p option \<Rightarrow> 'p \<Rightarrow> ('p option \<times> 'p skew_store) option"
where
  "skew_heap_remove cmp s a b = do {
     let p = parent (s b);
     (rep, s) \<leftarrow> skew_heap_merge cmp s (left (s b)) (right (s b));
     let s = adopt s rep p;
     (case p of
        Some q \<Rightarrow>
          if left (s q) = Some b then Some (a, set_left s q rep)
          else Some (a, set_right s q rep)
      | None \<Rightarrow> Some (rep, s)) }"

subsection \<open>The functional heap\<close>

fun tmerge :: "('p \<Rightarrow> 'p \<Rightarrow> int) \<Rightarrow> 'p tree \<Rightarrow> 'p tree \<Rightarrow> 'p tree" where
  "tmerge cmp Leaf t = t"
| "tmerge cmp t Leaf = t"
| "tmerge cmp (Node l1 x r1) (Node l2 y r2) =
     (if cmp x y = - 1 then Node (tmerge cmp r1 (Node l2 y r2)) x l1
      else Node (tmerge cmp (Node l1 x r1) r2) y l2)"

definition tinsert :: "('p \<Rightarrow> 'p \<Rightarrow> int) \<Rightarrow> 'p tree \<Rightarrow> 'p \<Rightarrow> 'p tree" where
  "tinsert cmp t b = tmerge cmp t (Node Leaf b Leaf)"

fun tremove :: "('p \<Rightarrow> 'p \<Rightarrow> int) \<Rightarrow> 'p \<Rightarrow> 'p tree \<Rightarrow> 'p tree" where
  "tremove cmp b Leaf = Leaf"
| "tremove cmp b (Node l x r) =
     (if x = b then tmerge cmp l r else Node (tremove cmp b l) x (tremove cmp b r))"

fun troot :: "'p tree \<Rightarrow> 'p option" where
  "troot Leaf = None"
| "troot (Node l x r) = Some x"

text \<open>Heap order by an integer key: no element has a smaller key than one of its ancestors.\<close>

fun key_heap :: "('p \<Rightarrow> int) \<Rightarrow> 'p tree \<Rightarrow> bool" where
  "key_heap k Leaf \<longleftrightarrow> True"
| "key_heap k (Node l x r) \<longleftrightarrow>
     (\<forall>y \<in> set_tree l \<union> set_tree r. k x \<le> k y) \<and> key_heap k l \<and> key_heap k r"

text \<open>The comparison agrees with the key on the elements of a set.\<close>

definition comp_by :: "('p \<Rightarrow> int) \<Rightarrow> 'p set \<Rightarrow> ('p \<Rightarrow> 'p \<Rightarrow> int) \<Rightarrow> bool" where
  "comp_by k S cmp \<longleftrightarrow> (\<forall>x \<in> S. \<forall>y \<in> S. cmp x y = sgn (k x - k y))"

subsection \<open>The tree a pointer represents\<close>

fun hrep :: "'p skew_store \<Rightarrow> 'p option \<Rightarrow> 'p tree \<Rightarrow> bool" where
  "hrep s p Leaf \<longleftrightarrow> p = None"
| "hrep s p (Node l x r) \<longleftrightarrow> p = Some x \<and>
     hrep s (left (s x)) l \<and> hrep s (right (s x)) r \<and>
     (\<forall>y. left (s x) = Some y \<longrightarrow> parent (s y) = Some x) \<and>
     (\<forall>y. right (s x) = Some y \<longrightarrow> parent (s y) = Some x)"

definition tdistinct :: "'p tree \<Rightarrow> bool" where
  "tdistinct t \<longleftrightarrow> distinct (inorder t)"

subsection \<open>Lemmas on the functional heap\<close>

lemma mset_tmerge [simp]: "mset_tree (tmerge cmp t1 t2) = mset_tree t1 + mset_tree t2"
  by (induction cmp t1 t2 rule: tmerge.induct) (auto simp: ac_simps)

lemma set_tmerge [simp]: "set_tree (tmerge cmp t1 t2) = set_tree t1 \<union> set_tree t2"
  by (metis mset_tmerge set_mset_tree set_mset_union)

lemma tdistinct_Leaf [simp]: "tdistinct Leaf"
  by (simp add: tdistinct_def)

lemma tdistinct_Node [simp]:
  "tdistinct (Node l x r) \<longleftrightarrow> tdistinct l \<and> tdistinct r \<and> x \<notin> set_tree l \<and> x \<notin> set_tree r \<and>
     set_tree l \<inter> set_tree r = {}"
  by (auto simp: tdistinct_def)

lemma tdistinct_tmerge:
  "tdistinct t1 \<Longrightarrow> tdistinct t2 \<Longrightarrow> set_tree t1 \<inter> set_tree t2 = {} \<Longrightarrow> tdistinct (tmerge cmp t1 t2)"
  by (induction cmp t1 t2 rule: tmerge.induct) auto

lemma troot_set: "troot t = Some x \<Longrightarrow> x \<in> set_tree t"
  by (cases t) auto

lemma troot_None [simp]: "troot t = None \<longleftrightarrow> t = Leaf"
  by (cases t) auto

lemma tremove_absent [simp]: "b \<notin> set_tree t \<Longrightarrow> tremove cmp b t = t"
  by (induction t) auto

lemma mset_tremove:
  "tdistinct t \<Longrightarrow> b \<in> set_tree t \<Longrightarrow> mset_tree (tremove cmp b t) = mset_tree t - {#b#}"
proof (induction t)
  case (Node l x r)
  consider "x = b" | "x \<noteq> b" "b \<in> set_tree l" | "x \<noteq> b" "b \<in> set_tree r"
    using Node.prems by auto
  then show ?case
  proof cases
    case 2
    then have "b \<notin> set_tree r" "b \<in># mset_tree l" using Node.prems by auto
    with 2 Node show ?thesis by simp
  next
    case 3
    then have "b \<notin> set_tree l" "b \<in># mset_tree r" using Node.prems by auto
    with 3 Node show ?thesis by simp
  qed simp
qed simp

lemma set_tremove:
  assumes "tdistinct t"
  shows "set_tree (tremove cmp b t) = set_tree t - {b}"
  using assms by (induction t) auto

lemma tdistinct_tremove: "tdistinct t \<Longrightarrow> tdistinct (tremove cmp b t)"
  by (induction t) (auto simp: set_tremove intro: tdistinct_tmerge)

lemma comp_by_subset: "comp_by k S cmp \<Longrightarrow> T \<subseteq> S \<Longrightarrow> comp_by k T cmp"
  by (auto simp: comp_by_def)

lemma comp_byD: "comp_by k S cmp \<Longrightarrow> x \<in> S \<Longrightarrow> y \<in> S \<Longrightarrow> cmp x y = - 1 \<longleftrightarrow> k x < k y"
  by (auto simp: comp_by_def sgn_if)

lemma key_heap_tmerge:
  assumes "comp_by k (set_tree t1 \<union> set_tree t2) cmp" "key_heap k t1" "key_heap k t2"
  shows "key_heap k (tmerge cmp t1 t2)"
  using assms
proof (induction cmp t1 t2 rule: tmerge.induct)
  case (3 cmp l1 x r1 l2 y r2)
  have c: "cmp x y = - 1 \<longleftrightarrow> k x < k y"
    by (rule comp_byD[OF "3.prems"(1)]) auto
  show ?case
  proof (cases "cmp x y = - 1")
    case True
    have "key_heap k (tmerge cmp r1 (Node l2 y r2))"
      using "3.IH"(1)[OF True] "3.prems" by (auto intro: comp_by_subset)
    with True c "3.prems" show ?thesis by (auto simp: ball_Un intro: order.trans[of "k x" "k y"])
  next
    case False
    have "key_heap k (tmerge cmp (Node l1 x r1) r2)"
      using "3.IH"(2)[OF False] "3.prems" by (auto intro: comp_by_subset)
    with False c "3.prems" show ?thesis by (auto simp: ball_Un intro: order.trans[of "k y" "k x"])
  qed
qed auto

lemma key_heap_tremove:
  assumes "comp_by k (set_tree t) cmp" "key_heap k t" "tdistinct t"
  shows "key_heap k (tremove cmp b t)"
  using assms
proof (induction t)
  case (Node l x r)
  have "comp_by k (set_tree l \<union> set_tree r) cmp"
    using Node.prems(1) by (rule comp_by_subset) auto
  moreover have "comp_by k (set_tree l) cmp" "comp_by k (set_tree r) cmp"
    using Node.prems(1) by (auto intro: comp_by_subset)
  ultimately show ?case using Node by (auto simp: set_tremove intro: key_heap_tmerge)
qed simp

lemma key_heap_root: "key_heap k t \<Longrightarrow> troot t = Some x \<Longrightarrow> y \<in> set_tree t \<Longrightarrow> k x \<le> k y"
  by (cases t) auto

subsection \<open>The pointer routines compute the functional ones\<close>

lemma set_parent_sel [simp]:
  "left (set_parent s x q y) = left (s y)"
  "right (set_parent s x q y) = right (s y)"
  "parent (set_parent s x q y) = (if y = x then q else parent (s y))"
  by (auto simp: set_parent_def)

lemma set_left_sel [simp]:
  "left (set_left s x q y) = (if y = x then q else left (s y))"
  "right (set_left s x q y) = right (s y)"
  "parent (set_left s x q y) = parent (s y)"
  by (auto simp: set_left_def)

lemma set_right_sel [simp]:
  "left (set_right s x q y) = left (s y)"
  "right (set_right s x q y) = (if y = x then q else right (s y))"
  "parent (set_right s x q y) = parent (s y)"
  by (auto simp: set_right_def)

lemma adopt_sel [simp]:
  "left (adopt s l q y) = left (s y)"
  "right (adopt s l q y) = right (s y)"
  "parent (adopt s l q y) = (if l = Some y then q else parent (s y))"
  by (auto simp: adopt_def split: option.splits)

lemma set_other [simp]:
  "y \<noteq> x \<Longrightarrow> set_parent s x q y = s y"
  "y \<noteq> x \<Longrightarrow> set_left s x q y = s y"
  "y \<noteq> x \<Longrightarrow> set_right s x q y = s y"
  "l \<noteq> Some y \<Longrightarrow> adopt s l q y = s y"
  by (auto simp: set_parent_def set_left_def set_right_def adopt_def split: option.splits)

lemma hrep_root: "hrep s p t \<Longrightarrow> p = troot t"
  by (cases t) auto

lemma hrep_root_in: "hrep s (Some y) t \<Longrightarrow> y \<in> set_tree t"
  by (cases t) auto

lemma hrep_cong:
  assumes "hrep s p t" "tdistinct t"
    and "\<And>x. x \<in> set_tree t \<Longrightarrow> left (s' x) = left (s x)"
    and "\<And>x. x \<in> set_tree t \<Longrightarrow> right (s' x) = right (s x)"
    and "\<And>x. x \<in> set_tree t \<Longrightarrow> p \<noteq> Some x \<Longrightarrow> parent (s' x) = parent (s x)"
  shows "hrep s' p t"
  using assms
proof (induction t arbitrary: p)
  case (Node l x r)
  have xl: "left (s' x) = left (s x)" "right (s' x) = right (s x)" and px: "p = Some x"
    using Node.prems by auto
  have par: "parent (s' y) = parent (s y)" if "y \<in> set_tree l \<union> set_tree r" for y
    using that Node.prems(2) by (intro Node.prems(5)) (auto simp: px)
  have "hrep s' (left (s x)) l" "hrep s' (right (s x)) r"
    using Node.prems par by (auto intro!: Node.IH)
  moreover have "y \<in> set_tree l" if "left (s x) = Some y" for y
    using that Node.prems(1) by (auto dest!: hrep_root intro: troot_set)
  moreover have "y \<in> set_tree r" if "right (s x) = Some y" for y
    using that Node.prems(1) by (auto dest!: hrep_root intro: troot_set)
  ultimately show ?case using Node.prems(1) par xl px by auto
qed simp

lemma hrep_same:
  assumes "hrep s p t" "tdistinct t" "\<And>x. x \<in> set_tree t \<Longrightarrow> s' x = s x"
  shows "hrep s' p t"
  using assms(1,2) by (rule hrep_cong) (simp_all add: assms(3))

text \<open>
  Merging returns, with the root of the functional merge, a store that represents it; it writes
  no node outside the two heaps and does not touch the parent pointer of the new root.
\<close>

definition merged :: "'p skew_store \<Rightarrow> 'p tree \<Rightarrow> 'p tree \<Rightarrow> 'p tree \<Rightarrow> 'p skew_store \<Rightarrow> bool" where
  "merged s t1 t2 t s' \<longleftrightarrow> hrep s' (troot t) t \<and>
     (\<forall>x. x \<notin> set_tree t1 \<union> set_tree t2 \<longrightarrow> s' x = s x) \<and>
     (\<forall>x. troot t = Some x \<longrightarrow> parent (s' x) = parent (s x))"

lemma merged_step:
  assumes rep: "hrep s' (troot t) t" "tdistinct t" "z \<notin> set_tree t"
    and set_t: "set_tree t = set_tree t1 \<union> set_tree t2"
    and l: "hrep s (left (s z)) l" "tdistinct l" "z \<notin> set_tree l" "set_tree l \<inter> set_tree t = {}"
      "\<And>y. left (s z) = Some y \<Longrightarrow> parent (s y) = Some z"
    and frame: "\<And>x. x \<notin> set_tree t \<Longrightarrow> s' x = s x"
  shows "merged s (Node l z t1) t2 (Node t z l)
     (adopt (set_right (set_left s' z (troot t)) z (left (s z))) (troot t) (Some z))"
    (is "merged s _ _ _ ?s")
proof -
  have other: "?s x = s x" if "x \<noteq> z" "x \<notin> set_tree t" for x
  proof -
    from that troot_set[of t x] have "troot t \<noteq> Some x" by auto
    with that frame show ?thesis by simp
  qed
  have rz: "troot t \<noteq> Some z" using rep(3) troot_set[of t z] by auto
  have "hrep ?s (troot t) t"
    by (rule hrep_cong[of s']) (use rep in auto)
  moreover have "hrep ?s (left (s z)) l"
  proof (rule hrep_same[OF l(1,2)])
    fix x assume "x \<in> set_tree l"
    with l(3,4) have "x \<noteq> z" "x \<notin> set_tree t" by auto
    then show "?s x = s x" by (rule other)
  qed
  moreover have "parent (?s y) = Some z" if y: "left (s z) = Some y" for y
  proof -
    have "y \<in> set_tree l" using y l(1) by (auto dest!: hrep_root intro: troot_set)
    with l(3,4) have "?s y = s y" by (intro other) auto
    with l(5)[OF y] show ?thesis by simp
  qed
  moreover have "parent (?s z) = parent (s z)"
    using frame[OF rep(3)] rz by simp
  moreover have "?s x = s x" if "x \<notin> set_tree (Node l z t1) \<union> set_tree t2" for x
    using that set_t by (intro other) auto
  moreover have "parent (?s y) = Some z" if "troot t = Some y" for y
    using that by simp
  ultimately show ?thesis using rz by (auto simp: merged_def)
qed

lemma skew_heap_merge_correct:
  assumes "hrep s a t1" "hrep s b t2" "tdistinct t1" "tdistinct t2" "set_tree t1 \<inter> set_tree t2 = {}"
  shows "\<exists>s'. skew_heap_merge cmp s a b = Some (troot (tmerge cmp t1 t2), s') \<and>
     merged s t1 t2 (tmerge cmp t1 t2) s'"
  using assms
proof (induction cmp t1 t2 arbitrary: a b rule: tmerge.induct)
  case (1 cmp t)
  then show ?case
    by (subst skew_heap_merge.simps) (auto simp: merged_def dest: hrep_root)
next
  case (2 cmp l x r)
  then show ?case
    by (subst skew_heap_merge.simps) (simp add: merged_def)
next
  case (3 cmp l1 x r1 l2 y r2)
  from "3.prems"(1,2) have ab: "a = Some x" "b = Some y" by auto
  note dist = "3.prems"(3-5)
  have hx: "hrep s (right (s x)) r1" and hy: "hrep s (right (s y)) r2"
    and tx: "tdistinct r1" and ty: "tdistinct r2" using "3.prems"(1-4) by simp_all
  show ?case
  proof (cases "cmp x y = - 1")
    case True
    let ?t = "tmerge cmp r1 (Node l2 y r2)"
    have dj: "set_tree r1 \<inter> set_tree (Node l2 y r2) = {}" using dist(3) by auto
    obtain s' where
      s': "skew_heap_merge cmp s (right (s x)) b = Some (troot ?t, s')"
        "merged s r1 (Node l2 y r2) ?t s'"
      using "3.IH"(1)[OF True hx "3.prems"(2) tx dist(2) dj] by blast
    have td: "tdistinct ?t" using dist dj by (intro tdistinct_tmerge) simp_all
    have "merged s (Node l1 x r1) (Node l2 y r2) (Node ?t x l1)
       (adopt (set_right (set_left s' x (troot ?t)) x (left (s x))) (troot ?t) (Some x))"
    proof (rule merged_step)
      show "set_tree l1 \<inter> set_tree ?t = {}" "x \<notin> set_tree ?t" using dist by auto
      show "\<And>u. u \<notin> set_tree ?t \<Longrightarrow> s' u = s u" using s'(2) by (simp add: merged_def)
    qed (use "3.prems"(1) dist s'(2) td in \<open>simp_all add: merged_def\<close>)
    with True s'(1) ab show ?thesis
      by (subst skew_heap_merge.simps) (simp add: Let_def)
  next
    case False
    let ?t = "tmerge cmp (Node l1 x r1) r2"
    have dj: "set_tree (Node l1 x r1) \<inter> set_tree r2 = {}" using dist(3) by auto
    obtain s' where
      s': "skew_heap_merge cmp s a (right (s y)) = Some (troot ?t, s')"
        "merged s (Node l1 x r1) r2 ?t s'"
      using "3.IH"(2)[OF False "3.prems"(1) hy dist(1) ty dj] by blast
    have td: "tdistinct ?t" using dist dj by (intro tdistinct_tmerge) simp_all
    have "merged s (Node l2 y r2) (Node l1 x r1) (Node ?t y l2)
       (adopt (set_right (set_left s' y (troot ?t)) y (left (s y))) (troot ?t) (Some y))"
    proof (rule merged_step)
      show "set_tree l2 \<inter> set_tree ?t = {}" "y \<notin> set_tree ?t" using dist by auto
      show "set_tree ?t = set_tree r2 \<union> set_tree (Node l1 x r1)" by auto
      show "\<And>u. u \<notin> set_tree ?t \<Longrightarrow> s' u = s u" using s'(2) by (simp add: merged_def)
    qed (use "3.prems"(2) dist s'(2) td in \<open>simp_all add: merged_def\<close>)
    then have "merged s (Node l1 x r1) (Node l2 y r2) (Node ?t y l2)
       (adopt (set_right (set_left s' y (troot ?t)) y (left (s y))) (troot ?t) (Some y))"
      by (auto simp: merged_def)
    with False s'(1) ab show ?thesis
      by (subst skew_heap_merge.simps) (simp add: Let_def)
  qed
qed

lemma skew_heap_insert_correct:
  assumes "hrep s a t" "tdistinct t" "b \<notin> set_tree t" "\<And>x. a = Some x \<Longrightarrow> parent (s x) = None"
  shows "\<exists>s'. skew_heap_insert cmp s a b = Some (troot (tinsert cmp t b), s') \<and>
     hrep s' (troot (tinsert cmp t b)) (tinsert cmp t b) \<and>
     (\<forall>x. troot (tinsert cmp t b) = Some x \<longrightarrow> parent (s' x) = None) \<and>
     (\<forall>x. x \<notin> insert b (set_tree t) \<longrightarrow> s' x = s x)"
proof -
  let ?s = "skew_heap_init s b" and ?t = "tinsert cmp t b"
  have same: "?s x = s x" if "x \<noteq> b" for x using that by (simp add: skew_heap_init_def)
  have "hrep ?s a t" by (rule hrep_same[OF assms(1,2)]) (use assms(3) in \<open>auto intro!: same\<close>)
  moreover have "hrep ?s (Some b) (Node Leaf b Leaf)" by (simp add: skew_heap_init_def)
  ultimately obtain s' where s': "skew_heap_insert cmp s a b = Some (troot ?t, s')"
    "merged ?s t (Node Leaf b Leaf) ?t s'"
    using skew_heap_merge_correct[of ?s a t "Some b" "Node Leaf b Leaf" cmp] assms(2,3)
    by (auto simp: skew_heap_insert_def tinsert_def)
  have root: "parent (s' x) = None" if x: "troot ?t = Some x" for x
  proof -
    from x s'(2) have "parent (s' x) = parent (?s x)" by (simp add: merged_def)
    moreover have "x = b \<or> a = Some x"
      using x assms(1) by (cases t) (auto simp: tinsert_def split: if_splits)
    ultimately show ?thesis using assms(3,4) troot_set hrep_root[OF assms(1)] same
      by (auto simp: skew_heap_init_def)
  qed
  have "\<forall>x. x \<notin> insert b (set_tree t) \<longrightarrow> s' x = s x"
    using s'(2) same by (auto simp: merged_def)
  with root s' show ?thesis by (auto simp: merged_def)
qed

lemma hrep_unique: "hrep s p t \<Longrightarrow> hrep s p u \<Longrightarrow> t = u"
proof (induction t arbitrary: p u)
  case Leaf
  then show ?case by (cases u) auto
next
  case (Node l x r)
  then show ?case by (cases u) auto
qed

lemma hrep_children:
  "hrep s p t \<Longrightarrow> tdistinct t \<Longrightarrow> b \<in> set_tree t \<Longrightarrow>
     \<exists>lb rb. hrep s (left (s b)) lb \<and> hrep s (right (s b)) rb \<and> tdistinct (Node lb b rb)"
proof (induction t arbitrary: p)
  case (Node l x r)
  then show ?case by (cases "b = x") auto
qed simp

text \<open>
  Replacing the subtree at an inner node \<open>b\<close> through its parent pointer, as
  \<^verbatim>\<open>skew_heap_remove\<close> does after merging the children of \<open>b\<close>.
\<close>

definition replace_child :: "'p skew_store \<Rightarrow> 'p \<Rightarrow> 'p \<Rightarrow> 'p option \<Rightarrow> 'p skew_store" where
  "replace_child s q b rep =
     (if left (s q) = Some b then set_left s q rep else set_right s q rep)"

lemma replace_child_other [simp]: "x \<noteq> q \<Longrightarrow> replace_child s q b rep x = s x"
  by (simp add: replace_child_def)

lemma replace_child_parent [simp]: "parent (replace_child s q b rep x) = parent (s x)"
  by (simp add: replace_child_def)

definition unlinked ::
  "('p \<Rightarrow> 'p \<Rightarrow> int) \<Rightarrow> 'p skew_store \<Rightarrow> 'p \<Rightarrow> 'p tree \<Rightarrow> 'p tree \<Rightarrow> 'p skew_store \<Rightarrow> bool" where
  "unlinked cmp s b lb rb s2 \<longleftrightarrow>
     hrep s (left (s b)) lb \<and> hrep s (right (s b)) rb \<and> tdistinct (Node lb b rb) \<and>
     (\<exists>s1. merged s lb rb (tmerge cmp lb rb) s1 \<and>
        s2 = adopt s1 (troot (tmerge cmp lb rb)) (parent (s b)))"

lemma unlinked_other:
  assumes "unlinked cmp s b lb rb s2" "y \<notin> set_tree (Node lb b rb)"
  shows "s2 y = s y"
proof -
  from assms(2) have "troot (tmerge cmp lb rb) \<noteq> Some y" by (auto dest: troot_set)
  with assms show ?thesis by (auto simp: unlinked_def merged_def)
qed

lemma unlinked_root:
  "unlinked cmp s b lb rb s2 \<Longrightarrow> troot (tmerge cmp lb rb) = Some y \<Longrightarrow> parent (s2 y) = parent (s b)"
  by (auto simp: unlinked_def)

lemma unlinked_merged:
  assumes "unlinked cmp s b lb rb s2" "q \<notin> set_tree (Node lb b rb)"
  shows "hrep (replace_child s2 q b (troot (tmerge cmp lb rb)))
     (troot (tmerge cmp lb rb)) (tmerge cmp lb rb)"
proof -
  from assms(1) obtain s1 where s1: "merged s lb rb (tmerge cmp lb rb) s1"
    "s2 = adopt s1 (troot (tmerge cmp lb rb)) (parent (s b))" by (auto simp: unlinked_def)
  show ?thesis
  proof (rule hrep_cong[of s1])
    show "hrep s1 (troot (tmerge cmp lb rb)) (tmerge cmp lb rb)" using s1 by (simp add: merged_def)
    show "tdistinct (tmerge cmp lb rb)"
      using assms(1) by (intro tdistinct_tmerge) (simp_all add: unlinked_def)
  next
    fix y assume "y \<in> set_tree (tmerge cmp lb rb)"
    with assms(2) have "y \<noteq> q" by auto
    then show "left (replace_child s2 q b (troot (tmerge cmp lb rb)) y) = left (s1 y)"
      "right (replace_child s2 q b (troot (tmerge cmp lb rb)) y) = right (s1 y)"
      "troot (tmerge cmp lb rb) \<noteq> Some y \<Longrightarrow>
        parent (replace_child s2 q b (troot (tmerge cmp lb rb)) y) = parent (s1 y)"
      by (simp_all add: s1)
  qed
qed

lemma unlinked_keep:
  assumes "unlinked cmp s b lb rb s2" "hrep s p u" "tdistinct u" "q \<notin> set_tree u"
    and "set_tree u \<inter> set_tree (Node lb b rb) = {}"
  shows "hrep (replace_child s2 q b rep) p u"
  using assms(2,3)
proof (rule hrep_same)
  fix y assume "y \<in> set_tree u"
  with assms(4,5) have "y \<noteq> q" "y \<notin> set_tree (Node lb b rb)" by auto
  with unlinked_other[OF assms(1)] show "replace_child s2 q b rep y = s y" by simp
qed

lemma unlinked_child_parent:
  assumes "unlinked cmp s b lb rb s2" "hrep s p u" "set_tree u \<inter> set_tree (Node lb b rb) = {}"
    and "p = Some y"
  shows "parent (replace_child s2 q b rep y) = parent (s y)"
proof -
  from assms(2,4) have "y \<in> set_tree u" by (auto dest: hrep_root_in)
  with assms(3) have "y \<notin> set_tree (Node lb b rb)" by auto
  with unlinked_other[OF assms(1)] show ?thesis by simp
qed

text \<open>The removed node is a child of the root.\<close>

lemma unlinked_at_left:
  assumes un: "unlinked cmp s b lb rb s2" and h: "hrep s p (Node l x r)" "tdistinct (Node l x r)"
    and b: "left (s x) = Some b"
  shows "parent (s b) = Some x" "l = Node lb b rb"
    "hrep (replace_child s2 x b (troot (tmerge cmp lb rb))) p (tremove cmp b (Node l x r))"
proof -
  show par: "parent (s b) = Some x" using h(1) b by simp
  have "hrep s (Some b) l" using h(1) b by simp
  moreover from this have "hrep s (Some b) (Node lb b rb)"
    using un by (cases l) (auto simp: unlinked_def)
  ultimately show l: "l = Node lb b rb" by (rule hrep_unique)
  have x: "x \<notin> set_tree (Node lb b rb)" "x \<notin> set_tree r" "b \<notin> set_tree r" "x \<noteq> b" "tdistinct r"
    "set_tree r \<inter> set_tree (Node lb b rb) = {}" using h(2) l by auto
  let ?s = "replace_child s2 x b (troot (tmerge cmp lb rb))"
  have "left (?s x) = troot (tmerge cmp lb rb)" "right (?s x) = right (s x)"
    using b unlinked_other[OF un x(1)] by (simp_all add: replace_child_def)
  moreover have "hrep ?s (right (s x)) r"
    by (rule unlinked_keep[OF un _ x(5,2,6)]) (use h in simp)
  moreover have "parent (?s y) = Some x" if "right (s x) = Some y" for y
    using unlinked_child_parent[OF un _ x(6) that] that h(1) by simp
  ultimately show "hrep ?s p (tremove cmp b (Node l x r))"
    using unlinked_merged[OF un x(1)] unlinked_root[OF un] par h(1) l x by simp
qed

lemma unlinked_at_right:
  assumes un: "unlinked cmp s b lb rb s2" and h: "hrep s p (Node l x r)" "tdistinct (Node l x r)"
    and b: "right (s x) = Some b"
  shows "parent (s b) = Some x" "r = Node lb b rb"
    "hrep (replace_child s2 x b (troot (tmerge cmp lb rb))) p (tremove cmp b (Node l x r))"
proof -
  show par: "parent (s b) = Some x" using h(1) b by simp
  have "hrep s (Some b) r" using h(1) b by simp
  moreover from this have "hrep s (Some b) (Node lb b rb)"
    using un by (cases r) (auto simp: unlinked_def)
  ultimately show r: "r = Node lb b rb" by (rule hrep_unique)
  have x: "x \<notin> set_tree (Node lb b rb)" "x \<notin> set_tree l" "b \<notin> set_tree l" "x \<noteq> b" "tdistinct l"
    "set_tree l \<inter> set_tree (Node lb b rb) = {}" using h(2) r by auto
  let ?s = "replace_child s2 x b (troot (tmerge cmp lb rb))"
  have "left (s x) \<noteq> Some b" using h(1) x(3) hrep_root_in[of s b l] by auto
  then have "left (?s x) = left (s x)" "right (?s x) = troot (tmerge cmp lb rb)"
    using unlinked_other[OF un x(1)] by (simp_all add: replace_child_def)
  moreover have "hrep ?s (left (s x)) l"
    by (rule unlinked_keep[OF un _ x(5,2,6)]) (use h in simp)
  moreover have "parent (?s y) = Some x" if "left (s x) = Some y" for y
    using unlinked_child_parent[OF un _ x(6) that] that h(1) by simp
  ultimately show "hrep ?s p (tremove cmp b (Node l x r))"
    using unlinked_merged[OF un x(1)] unlinked_root[OF un] par h(1) r x by simp
qed

text \<open>The removed node lies inside one of the two subtrees.\<close>

definition relinked ::
  "('p \<Rightarrow> 'p \<Rightarrow> int) \<Rightarrow> 'p skew_store \<Rightarrow> 'p \<Rightarrow> 'p tree \<Rightarrow> 'p tree \<Rightarrow> 'p skew_store \<Rightarrow> 'p option \<Rightarrow> 'p tree
     \<Rightarrow> 'p \<Rightarrow> bool" where
  "relinked cmp s b lb rb s2 p t q \<longleftrightarrow>
     parent (s b) = Some q \<and> q \<in> set_tree t \<and> q \<notin> set_tree (Node lb b rb) \<and>
     hrep (replace_child s2 q b (troot (tmerge cmp lb rb))) p (tremove cmp b t) \<and>
     set_tree (Node lb b rb) \<subseteq> set_tree t \<and> (\<forall>y. p = Some y \<longrightarrow> y \<notin> set_tree (Node lb b rb))"

lemma relinked_in_left:
  assumes un: "unlinked cmp s b lb rb s2" and h: "hrep s p (Node l x r)" "tdistinct (Node l x r)"
    and q: "relinked cmp s b lb rb s2 (left (s x)) l q"
  shows "relinked cmp s b lb rb s2 p (Node l x r) q"
proof -
  let ?s = "replace_child s2 q b (troot (tmerge cmp lb rb))"
  have x: "x \<noteq> q" "x \<notin> set_tree (Node lb b rb)" "q \<notin> set_tree r" "tdistinct r" "b \<notin> set_tree r"
    "set_tree r \<inter> set_tree (Node lb b rb) = {}" "x \<noteq> b"
    using q h(2) by (auto simp: relinked_def)
  have "?s x = s x" using x unlinked_other[OF un] by simp
  moreover have "hrep ?s (right (s x)) r"
    by (rule unlinked_keep[OF un _ x(4,3,6)]) (use h in simp)
  moreover have "parent (?s y) = Some x" if "left (s x) = Some y" for y
    using unlinked_other[OF un, of y] q that h(1) by (simp add: relinked_def)
  moreover have "parent (?s y) = Some x" if "right (s x) = Some y" for y
    using unlinked_child_parent[OF un _ x(6) that] that h(1) by simp
  ultimately show ?thesis using q h(1) x by (auto simp: relinked_def)
qed

lemma relinked_in_right:
  assumes un: "unlinked cmp s b lb rb s2" and h: "hrep s p (Node l x r)" "tdistinct (Node l x r)"
    and q: "relinked cmp s b lb rb s2 (right (s x)) r q"
  shows "relinked cmp s b lb rb s2 p (Node l x r) q"
proof -
  let ?s = "replace_child s2 q b (troot (tmerge cmp lb rb))"
  have x: "x \<noteq> q" "x \<notin> set_tree (Node lb b rb)" "q \<notin> set_tree l" "tdistinct l" "b \<notin> set_tree l"
    "set_tree l \<inter> set_tree (Node lb b rb) = {}" "x \<noteq> b"
    using q h(2) by (auto simp: relinked_def)
  have "?s x = s x" using x unlinked_other[OF un] by simp
  moreover have "hrep ?s (left (s x)) l"
    by (rule unlinked_keep[OF un _ x(4,3,6)]) (use h in simp)
  moreover have "parent (?s y) = Some x" if "right (s x) = Some y" for y
    using unlinked_other[OF un, of y] q that h(1) by (simp add: relinked_def)
  moreover have "parent (?s y) = Some x" if "left (s x) = Some y" for y
    using unlinked_child_parent[OF un _ x(6) that] that h(1) by simp
  ultimately show ?thesis using q h(1) x by (auto simp: relinked_def)
qed

lemma hrep_relinked:
  assumes un: "unlinked cmp s b lb rb s2"
  shows "hrep s p t \<Longrightarrow> tdistinct t \<Longrightarrow> b \<in> set_tree t \<Longrightarrow> p \<noteq> Some b \<Longrightarrow>
     \<exists>q. relinked cmp s b lb rb s2 p t q"
proof (induction t arbitrary: p)
  case (Node l x r)
  note h = Node.prems(1,2)
  have hl: "hrep s (left (s x)) l" and hr: "hrep s (right (s x)) r"
    and tl: "tdistinct l" and tr: "tdistinct r" and p: "p = Some x" using h by simp_all
  consider "left (s x) = Some b" | "right (s x) = Some b"
    | "b \<in> set_tree l" "left (s x) \<noteq> Some b" | "b \<in> set_tree r" "right (s x) \<noteq> Some b"
    using Node.prems(3,4) p by auto
  then show ?case
  proof cases
    case 1
    from unlinked_at_left[OF un h 1] p h(2) show ?thesis
      by (intro exI[of _ x]) (auto simp: relinked_def)
  next
    case 2
    from unlinked_at_right[OF un h 2] p h(2) show ?thesis
      by (intro exI[of _ x]) (auto simp: relinked_def)
  next
    case 3
    with Node.IH(1)[OF hl tl] relinked_in_left[OF un h] show ?thesis by blast
  next
    case 4
    with Node.IH(2)[OF hr tr] relinked_in_right[OF un h] show ?thesis by blast
  qed
qed simp

lemma skew_heap_remove_correct:
  assumes "hrep s a t" "tdistinct t" "b \<in> set_tree t" "\<And>x. a = Some x \<Longrightarrow> parent (s x) = None"
  shows "\<exists>s'. skew_heap_remove cmp s a b = Some (troot (tremove cmp b t), s') \<and>
     hrep s' (troot (tremove cmp b t)) (tremove cmp b t) \<and>
     (\<forall>x. troot (tremove cmp b t) = Some x \<longrightarrow> parent (s' x) = None)"
proof -
  obtain lb rb where k: "hrep s (left (s b)) lb" "hrep s (right (s b)) rb" "tdistinct (Node lb b rb)"
    using hrep_children[OF assms(1-3)] by blast
  obtain s1 where s1: "skew_heap_merge cmp s (left (s b)) (right (s b)) = Some (troot (tmerge cmp lb rb), s1)"
    "merged s lb rb (tmerge cmp lb rb) s1"
    using skew_heap_merge_correct[OF k(1,2)] k(3) by auto
  let ?s2 = "adopt s1 (troot (tmerge cmp lb rb)) (parent (s b))"
  have un: "unlinked cmp s b lb rb ?s2" using k s1(2) by (auto simp: unlinked_def)
  show ?thesis
  proof (cases "a = Some b")
    case True
    have "t = Node lb b rb"
      by (rule hrep_unique[OF assms(1)]) (use k True assms(1) in \<open>cases t; auto\<close>)
    moreover have "hrep ?s2 (troot (tmerge cmp lb rb)) (tmerge cmp lb rb)"
      by (rule hrep_cong[of s1])
        (use s1(2) k(3) in \<open>auto simp: merged_def intro!: tdistinct_tmerge\<close>)
    ultimately show ?thesis using s1(1) assms(4)[OF True] by (simp add: skew_heap_remove_def Let_def)
  next
    case False
    from hrep_relinked[OF un assms(1-3) False] obtain q where
      q: "relinked cmp s b lb rb ?s2 a t q" by blast
    have a: "a = troot t" by (rule hrep_root[OF assms(1)])
    then have root: "troot (tremove cmp b t) = a" using False by (cases t) auto
    have "parent (replace_child ?s2 q b (troot (tmerge cmp lb rb)) x) = None" if "a = Some x" for x
      using q that assms(4)[OF that] unlinked_other[OF un, of x] by (simp add: relinked_def)
    with q s1(1) root show ?thesis
      by (auto simp: skew_heap_remove_def relinked_def replace_child_def Let_def)
  qed
qed

end
