(* ===== verification/Kstate.thy ===== *)
theory Kstate
  imports Klist Skew_Pool
begin

text \<open>
  The data the process components share: \<^verbatim>\<open>struct proc_struct\<close> (\<^verbatim>\<open>kern/process/proc.h\<close>),
  \<^verbatim>\<open>struct run_queue\<close> and \<^verbatim>\<open>timer_t\<close> (\<^verbatim>\<open>kern/schedule/sched.h\<close>), and the global variables
  of \<^verbatim>\<open>proc.c\<close> and \<^verbatim>\<open>sched.c\<close> as one record.

  A process is named by the address of its \<^verbatim>\<open>proc_struct\<close>, a natural number. A kernel list
  is the sequence of the structures linked on it (theory \<open>Klist\<close>): a \<^verbatim>\<open>list_entry\<close> that
  \<^verbatim>\<open>list_init\<close> or \<^verbatim>\<open>list_del_init\<close> left alone is on no list, so the code's test
  \<^verbatim>\<open>list_empty(&proc->run_link)\<close> is non-membership. The run pool is the tree of theory
  \<open>Skew_Pool\<close>. The fields that only the machine reads (saved registers, trap frame, page
  directory base) are not in the record.
\<close>

datatype proc_state = PROC_UNINIT | PROC_SLEEPING | PROC_RUNNABLE | PROC_ZOMBIE

type_synonym ptr = nat

record proc_struct =
  state :: proc_state
  pid :: int
  runs :: int
  kstack :: "ptr option"
  need_resched :: bool
  parent :: "ptr option"
  mm :: "ptr option"
  flags :: u32
  exit_code :: int
  wait_state :: u32
  cptr :: "ptr option"
  yptr :: "ptr option"
  optr :: "ptr option"
  in_rq :: bool
  time_slice :: int
  stride :: u32
  priority :: u32
  filesp :: "ptr option"

text \<open>
  \<^verbatim>\<open>alloc_proc\<close> initialises the structure \<open>raw\<close> that \<^verbatim>\<open>kmalloc\<close> returned; \<^verbatim>\<open>exit_code\<close> keeps
  whatever the memory held.
\<close>

definition alloc_proc :: "proc_struct \<Rightarrow> proc_struct" where
  "alloc_proc raw = raw\<lparr>state := PROC_UNINIT, pid := - 1, runs := 0, kstack := None,
     need_resched := False, parent := None, mm := None, flags := 0, wait_state := 0,
     cptr := None, optr := None, yptr := None, in_rq := False, time_slice := 0,
     stride := 0, priority := 0, filesp := None\<rparr>"

definition PF_EXITING :: u32 where "PF_EXITING = 0x00000001"
definition WT_INTERRUPTED :: u32 where "WT_INTERRUPTED = 0x80000000"
definition WT_CHILD :: u32 where "WT_CHILD = 0x80000001"
definition WT_KSEM :: u32 where "WT_KSEM = 0x00000100"
definition WT_TIMER :: u32 where "WT_TIMER = 0x80000002"
definition WT_KBD :: u32 where "WT_KBD = 0x80000004"
definition MAX_PROCESS :: int where "MAX_PROCESS = 4096"
definition MAX_PID :: int where "MAX_PID = 8192"

lemmas wait_states = WT_INTERRUPTED_def WT_CHILD_def WT_KSEM_def WT_TIMER_def WT_KBD_def

record run_queue =
  run_list :: "ptr list"
  proc_num :: u32
  max_time_slice :: int
  lab6_run_pool :: "ptr tree"

text \<open>A timer on the timer list: its address, the ticks after its predecessor, its process.\<close>

record timer =
  tid :: ptr
  expires :: u32
  tproc :: ptr

datatype sched_id = STRIDE | FCFS | RR | PRIOR

record kstate =
  procs :: "ptr \<Rightarrow> proc_struct"
  current :: ptr
  idleproc :: ptr
  initproc :: "ptr option"
  rq :: run_queue
  sched_cls :: sched_id
  timer_list :: "timer list"
  proc_list :: "ptr list"
  hash_list :: "nat \<Rightarrow> ptr list"
  nr_process :: int
  last_pid :: int
  next_safe :: int

subsection \<open>Updates of a process and of the run queue\<close>

definition upd_proc :: "ptr \<Rightarrow> (proc_struct \<Rightarrow> proc_struct) \<Rightarrow> kstate \<Rightarrow> kstate" where
  "upd_proc p f k = k\<lparr>procs := (procs k)(p := f (procs k p))\<rparr>"

definition upd_rq :: "(run_queue \<Rightarrow> run_queue) \<Rightarrow> kstate \<Rightarrow> kstate" where
  "upd_rq f k = k\<lparr>rq := f (rq k)\<rparr>"

lemma upd_proc_sel [simp]:
  "procs (upd_proc p f k) q = (if q = p then f (procs k p) else procs k q)"
  "current (upd_proc p f k) = current k"
  "idleproc (upd_proc p f k) = idleproc k"
  "initproc (upd_proc p f k) = initproc k"
  "rq (upd_proc p f k) = rq k"
  "sched_cls (upd_proc p f k) = sched_cls k"
  "timer_list (upd_proc p f k) = timer_list k"
  "proc_list (upd_proc p f k) = proc_list k"
  "hash_list (upd_proc p f k) = hash_list k"
  "nr_process (upd_proc p f k) = nr_process k"
  "last_pid (upd_proc p f k) = last_pid k"
  "next_safe (upd_proc p f k) = next_safe k"
  by (simp_all add: upd_proc_def)

lemma upd_rq_sel [simp]:
  "procs (upd_rq g k) = procs k"
  "current (upd_rq g k) = current k"
  "idleproc (upd_rq g k) = idleproc k"
  "initproc (upd_rq g k) = initproc k"
  "rq (upd_rq g k) = g (rq k)"
  "sched_cls (upd_rq g k) = sched_cls k"
  "timer_list (upd_rq g k) = timer_list k"
  "proc_list (upd_rq g k) = proc_list k"
  "hash_list (upd_rq g k) = hash_list k"
  "nr_process (upd_rq g k) = nr_process k"
  "last_pid (upd_rq g k) = last_pid k"
  "next_safe (upd_rq g k) = next_safe k"
  by (simp_all add: upd_rq_def)

subsection \<open>A small concrete kernel\<close>

text \<open>Zeroed memory read as a process, and a kernel with the given queue and runnable processes.\<close>

definition zero_proc :: proc_struct where
  "zero_proc = \<lparr>state = PROC_UNINIT, pid = 0, runs = 0, kstack = None, need_resched = False,
     parent = None, mm = None, flags = 0, exit_code = 0, wait_state = 0, cptr = None, yptr = None,
     optr = None, in_rq = False, time_slice = 0, stride = 0, priority = 0, filesp = None\<rparr>"

definition demo_kstate :: "sched_id \<Rightarrow> ptr list \<Rightarrow> ptr tree \<Rightarrow> ptr list \<Rightarrow> ptr \<Rightarrow> kstate" where
  "demo_kstate c l t run cur =
     \<lparr>procs = (\<lambda>p. (alloc_proc zero_proc)\<lparr>state := if p \<in> set run then PROC_RUNNABLE else PROC_SLEEPING,
        pid := int p, in_rq := p \<in> set l \<union> set_tree t, time_slice := 1\<rparr>),
      current = cur, idleproc = 0, initproc = Some 1,
      rq = \<lparr>run_list = l, proc_num = of_nat (length l + size t), max_time_slice = 5, lab6_run_pool = t\<rparr>,
      sched_cls = c, timer_list = [], proc_list = run, hash_list = (\<lambda>_. []),
      nr_process = int (length run), last_pid = MAX_PID, next_safe = MAX_PID\<rparr>"

lemmas demo_defs = demo_kstate_def alloc_proc_def zero_proc_def

end
