(* ===== verification/Sched.thy ===== *)
theory Sched
  imports Kstate
begin

text \<open>
  \<^verbatim>\<open>kern/schedule\<close>: the scheduler classes (\<^verbatim>\<open>rr_sched.c\<close>, \<^verbatim>\<open>fcfs_sched.c\<close>,
  \<^verbatim>\<open>stride_sched.c\<close>, \<^verbatim>\<open>prior_sched.c\<close>) and the core that calls them through
  \<^verbatim>\<open>struct sched_class\<close> (\<^verbatim>\<open>wakeup_proc\<close>, \<^verbatim>\<open>schedule\<close>, \<^verbatim>\<open>proc_run\<close> in \<^verbatim>\<open>sched.c\<close> and
  \<^verbatim>\<open>proc.c\<close>). The structure of function pointers is a record of functions. What the core
  needs of a class is the interface \<open>sched_ok\<close>: the set of queued processes changes as the
  operation's name says, and nothing the core relies on is touched. All four classes are shown to
  provide it, and from it alone \<^verbatim>\<open>schedule\<close> and \<^verbatim>\<open>wakeup_proc\<close> are shown to lose no runnable
  process and to run runnable processes only.
\<close>

record sched_class =
  init :: "kstate \<Rightarrow> kstate"
  enqueue :: "kstate \<Rightarrow> ptr \<Rightarrow> kstate option"
  dequeue :: "kstate \<Rightarrow> ptr \<Rightarrow> kstate option"
  pick_next :: "kstate \<Rightarrow> ptr option \<times> kstate"
  proc_tick :: "kstate \<Rightarrow> ptr \<Rightarrow> kstate"

subsection \<open>Round robin (rr_sched.c)\<close>

definition RR_init :: "kstate \<Rightarrow> kstate" where
  "RR_init k = upd_rq (\<lambda>r. r\<lparr>run_list := [], proc_num := 0\<rparr>) k"

definition refill_slice :: "kstate \<Rightarrow> ptr \<Rightarrow> kstate" where
  "refill_slice k p =
     (if time_slice (procs k p) = 0 \<or> time_slice (procs k p) > max_time_slice (rq k)
      then upd_proc p (\<lambda>q. q\<lparr>time_slice := max_time_slice (rq k)\<rparr>) k else k)"

definition RR_enqueue :: "kstate \<Rightarrow> ptr \<Rightarrow> kstate option" where
  "RR_enqueue k p = do {
     kassert (p \<notin> set (run_list (rq k)));
     let k = upd_rq (\<lambda>r. r\<lparr>run_list := run_list r @ [p]\<rparr>) k;
     let k = refill_slice k p;
     let k = upd_proc p (\<lambda>q. q\<lparr>in_rq := True\<rparr>) k;
     Some (upd_rq (\<lambda>r. r\<lparr>proc_num := proc_num r + 1\<rparr>) k) }"

definition RR_dequeue :: "kstate \<Rightarrow> ptr \<Rightarrow> kstate option" where
  "RR_dequeue k p = do {
     kassert (p \<in> set (run_list (rq k)) \<and> in_rq (procs k p));
     let k = upd_rq (\<lambda>r. r\<lparr>run_list := remove1 p (run_list r)\<rparr>) k;
     Some (upd_rq (\<lambda>r. r\<lparr>proc_num := proc_num r - 1\<rparr>) k) }"

definition RR_pick_next :: "kstate \<Rightarrow> ptr option \<times> kstate" where
  "RR_pick_next k = (case run_list (rq k) of [] \<Rightarrow> (None, k) | p # _ \<Rightarrow> (Some p, k))"

definition RR_proc_tick :: "kstate \<Rightarrow> ptr \<Rightarrow> kstate" where
  "RR_proc_tick k p =
     (let k = (if time_slice (procs k p) > 0
               then upd_proc p (\<lambda>q. q\<lparr>time_slice := time_slice q - 1\<rparr>) k else k)
      in if time_slice (procs k p) = 0 then upd_proc p (\<lambda>q. q\<lparr>need_resched := True\<rparr>) k else k)"

definition rr_sched_class :: sched_class where
  "rr_sched_class = \<lparr>init = RR_init, enqueue = RR_enqueue, dequeue = RR_dequeue,
     pick_next = RR_pick_next, proc_tick = RR_proc_tick\<rparr>"

subsection \<open>First come first served (fcfs_sched.c)\<close>

definition FCFS_init :: "kstate \<Rightarrow> kstate" where
  "FCFS_init k = upd_rq (\<lambda>r. r\<lparr>run_list := [], proc_num := 0\<rparr>) k"

definition FCFS_enqueue :: "kstate \<Rightarrow> ptr \<Rightarrow> kstate option" where
  "FCFS_enqueue k p = do {
     kassert (p \<notin> set (run_list (rq k)));
     let k = upd_rq (\<lambda>r. r\<lparr>run_list := run_list r @ [p]\<rparr>) k;
     let k = refill_slice k p;
     let k = upd_proc p (\<lambda>q. q\<lparr>in_rq := True\<rparr>) k;
     Some (upd_rq (\<lambda>r. r\<lparr>proc_num := proc_num r + 1\<rparr>) k) }"

definition FCFS_dequeue :: "kstate \<Rightarrow> ptr \<Rightarrow> kstate option" where
  "FCFS_dequeue k p = do {
     kassert (p \<in> set (run_list (rq k)) \<and> in_rq (procs k p));
     let k = upd_rq (\<lambda>r. r\<lparr>run_list := remove1 p (run_list r)\<rparr>) k;
     Some (upd_rq (\<lambda>r. r\<lparr>proc_num := proc_num r - 1\<rparr>) k) }"

definition FCFS_pick_next :: "kstate \<Rightarrow> ptr option \<times> kstate" where
  "FCFS_pick_next k = (case run_list (rq k) of [] \<Rightarrow> (None, k) | p # _ \<Rightarrow> (Some p, k))"

definition FCFS_proc_tick :: "kstate \<Rightarrow> ptr \<Rightarrow> kstate" where
  "FCFS_proc_tick k p = k"

definition fcfs_sched_class :: sched_class where
  "fcfs_sched_class = \<lparr>init = FCFS_init, enqueue = FCFS_enqueue, dequeue = FCFS_dequeue,
     pick_next = FCFS_pick_next, proc_tick = FCFS_proc_tick\<rparr>"

subsection \<open>Stride (stride_sched.c)\<close>

definition BIG_STRIDE :: u32 where "BIG_STRIDE = 0x7FFFFFFF"

text \<open>The sign of the difference of two 32-bit values read as a signed 32-bit value.\<close>

definition signed_comp :: "u32 \<Rightarrow> u32 \<Rightarrow> int" where
  "signed_comp a b = (let c = sint (a - b) in if c > 0 then 1 else if c = 0 then 0 else - 1)"

definition proc_stride_comp_f :: "kstate \<Rightarrow> ptr \<Rightarrow> ptr \<Rightarrow> int" where
  "proc_stride_comp_f k a b = signed_comp (stride (procs k a)) (stride (procs k b))"

definition stride_init :: "kstate \<Rightarrow> kstate" where
  "stride_init k = upd_rq (\<lambda>r. r\<lparr>run_list := [], lab6_run_pool := Leaf, proc_num := 0\<rparr>) k"

definition stride_enqueue :: "kstate \<Rightarrow> ptr \<Rightarrow> kstate option" where
  "stride_enqueue k p = do {
     let c = proc_stride_comp_f k;
     let k = upd_rq (\<lambda>r. r\<lparr>lab6_run_pool := tinsert c (lab6_run_pool r) p\<rparr>) k;
     let k = refill_slice k p;
     let k = upd_proc p (\<lambda>q. q\<lparr>in_rq := True\<rparr>) k;
     Some (upd_rq (\<lambda>r. r\<lparr>proc_num := proc_num r + 1\<rparr>) k) }"

definition stride_dequeue :: "kstate \<Rightarrow> ptr \<Rightarrow> kstate option" where
  "stride_dequeue k p = do {
     let c = proc_stride_comp_f k;
     let k = upd_rq (\<lambda>r. r\<lparr>lab6_run_pool := tremove c p (lab6_run_pool r)\<rparr>) k;
     Some (upd_rq (\<lambda>r. r\<lparr>proc_num := proc_num r - 1\<rparr>) k) }"

definition pass :: "u32 \<Rightarrow> u32" where
  "pass prio = (if prio = 0 then BIG_STRIDE else BIG_STRIDE div prio)"

definition stride_pick_next :: "kstate \<Rightarrow> ptr option \<times> kstate" where
  "stride_pick_next k =
     (case troot (lab6_run_pool (rq k)) of None \<Rightarrow> (None, k)
      | Some p \<Rightarrow> (Some p, upd_proc p (\<lambda>q. q\<lparr>stride := stride q + pass (priority q)\<rparr>) k))"

definition stride_proc_tick :: "kstate \<Rightarrow> ptr \<Rightarrow> kstate" where
  "stride_proc_tick k p =
     (let k = (if time_slice (procs k p) > 0
               then upd_proc p (\<lambda>q. q\<lparr>time_slice := time_slice q - 1\<rparr>) k else k)
      in if time_slice (procs k p) = 0 then upd_proc p (\<lambda>q. q\<lparr>need_resched := True\<rparr>) k else k)"

definition stride_sched_class :: sched_class where
  "stride_sched_class = \<lparr>init = stride_init, enqueue = stride_enqueue, dequeue = stride_dequeue,
     pick_next = stride_pick_next, proc_tick = stride_proc_tick\<rparr>"

subsection \<open>Priority (prior_sched.c)\<close>

definition proc_prior_comp_f :: "kstate \<Rightarrow> ptr \<Rightarrow> ptr \<Rightarrow> int" where
  "proc_prior_comp_f k a b = signed_comp (priority (procs k a)) (priority (procs k b))"

definition prior_init :: "kstate \<Rightarrow> kstate" where
  "prior_init k = upd_rq (\<lambda>r. r\<lparr>run_list := [], lab6_run_pool := Leaf, proc_num := 0\<rparr>) k"

definition prior_enqueue :: "kstate \<Rightarrow> ptr \<Rightarrow> kstate option" where
  "prior_enqueue k p = do {
     let c = proc_prior_comp_f k;
     let k = upd_rq (\<lambda>r. r\<lparr>lab6_run_pool := tinsert c (lab6_run_pool r) p\<rparr>) k;
     let k = refill_slice k p;
     let k = upd_proc p (\<lambda>q. q\<lparr>in_rq := True\<rparr>) k;
     Some (upd_rq (\<lambda>r. r\<lparr>proc_num := proc_num r + 1\<rparr>) k) }"

definition prior_dequeue :: "kstate \<Rightarrow> ptr \<Rightarrow> kstate option" where
  "prior_dequeue k p = do {
     let c = proc_prior_comp_f k;
     let k = upd_rq (\<lambda>r. r\<lparr>lab6_run_pool := tremove c p (lab6_run_pool r)\<rparr>) k;
     Some (upd_rq (\<lambda>r. r\<lparr>proc_num := proc_num r - 1\<rparr>) k) }"

definition prior_pick_next :: "kstate \<Rightarrow> ptr option \<times> kstate" where
  "prior_pick_next k =
     (case troot (lab6_run_pool (rq k)) of None \<Rightarrow> (None, k)
      | Some p \<Rightarrow> (Some p, upd_proc p (\<lambda>q. q\<lparr>stride := priority q\<rparr>) k))"

definition prior_proc_tick :: "kstate \<Rightarrow> ptr \<Rightarrow> kstate" where
  "prior_proc_tick k p = k"

definition prior_sched_class :: sched_class where
  "prior_sched_class = \<lparr>init = prior_init, enqueue = prior_enqueue, dequeue = prior_dequeue,
     pick_next = prior_pick_next, proc_tick = prior_proc_tick\<rparr>"

subsection \<open>The core (sched.c, proc_run of proc.c)\<close>

fun class_of :: "sched_id \<Rightarrow> sched_class" where
  "class_of STRIDE = stride_sched_class"
| "class_of FCFS = fcfs_sched_class"
| "class_of RR = rr_sched_class"
| "class_of PRIOR = prior_sched_class"

definition sched_class_enqueue :: "sched_class \<Rightarrow> kstate \<Rightarrow> ptr \<Rightarrow> kstate option" where
  "sched_class_enqueue C k p = (if p \<noteq> idleproc k then enqueue C k p else Some k)"

definition sched_class_dequeue :: "sched_class \<Rightarrow> kstate \<Rightarrow> ptr \<Rightarrow> kstate option" where
  "sched_class_dequeue C k p = dequeue C k p"

definition sched_class_pick_next :: "sched_class \<Rightarrow> kstate \<Rightarrow> ptr option \<times> kstate" where
  "sched_class_pick_next C k = pick_next C k"

definition sched_class_proc_tick :: "sched_class \<Rightarrow> kstate \<Rightarrow> ptr \<Rightarrow> kstate" where
  "sched_class_proc_tick C k p =
     (if p \<noteq> idleproc k then proc_tick C k p
      else upd_proc p (\<lambda>q. q\<lparr>need_resched := True\<rparr>) k)"

definition sched_init :: "kstate \<Rightarrow> kstate" where
  "sched_init k =
     (let k = k\<lparr>timer_list := [], sched_cls := RR\<rparr>;
          k = upd_rq (\<lambda>r. r\<lparr>max_time_slice := 5\<rparr>) k
      in init (class_of (sched_cls k)) k)"

definition proc_run :: "kstate \<Rightarrow> ptr \<Rightarrow> kstate" where
  "proc_run k p = (if p \<noteq> current k then k\<lparr>current := p\<rparr> else k)"

definition wakeup_proc :: "sched_class \<Rightarrow> kstate \<Rightarrow> ptr \<Rightarrow> kstate option" where
  "wakeup_proc C k p = do {
     kassert (state (procs k p) \<noteq> PROC_ZOMBIE);
     if state (procs k p) \<noteq> PROC_RUNNABLE then do {
       let k = upd_proc p (\<lambda>q. q\<lparr>state := PROC_RUNNABLE, wait_state := 0\<rparr>) k;
       if p \<noteq> current k then sched_class_enqueue C k p else Some k }
     else Some k }"

definition schedule :: "sched_class \<Rightarrow> kstate \<Rightarrow> kstate option" where
  "schedule C k = do {
     let c = current k;
     let k = upd_proc c (\<lambda>q. q\<lparr>need_resched := False\<rparr>) k;
     k \<leftarrow> (if state (procs k c) = PROC_RUNNABLE then sched_class_enqueue C k c else Some k);
     let (nx, k) = sched_class_pick_next C k;
     k \<leftarrow> (case nx of None \<Rightarrow> Some k | Some p \<Rightarrow> sched_class_dequeue C k p);
     let n = (case nx of None \<Rightarrow> idleproc k | Some p \<Rightarrow> p);
     let k = upd_proc n (\<lambda>q. q\<lparr>runs := runs q + 1\<rparr>) k;
     Some (if n \<noteq> current k then proc_run k n else k) }"

definition do_change_sched :: "kstate \<Rightarrow> nat \<Rightarrow> kstate" where
  "do_change_sched k mode =
     (if mode = 1 then k\<lparr>sched_cls := STRIDE\<rparr>
      else if mode = 2 then k\<lparr>sched_cls := FCFS\<rparr>
      else if mode = 3 then k\<lparr>sched_cls := RR\<rparr>
      else if mode = 4 then k\<lparr>sched_cls := PRIOR\<rparr>
      else k)"

text \<open>\<^verbatim>\<open>schedule\<close> as its four steps: put back, pick, take off, switch.\<close>

lemma schedule_cases:
  assumes "schedule C k = Some k'"
  defines "k1 \<equiv> upd_proc (current k) (\<lambda>q. q\<lparr>need_resched := False\<rparr>) k"
  obtains k2 nx k3 k4 n where
    "(if state (procs k1 (current k)) = PROC_RUNNABLE then sched_class_enqueue C k1 (current k)
      else Some k1) = Some k2"
    "pick_next C k2 = (nx, k3)"
    "case nx of None \<Rightarrow> k4 = k3 \<and> n = idleproc k4 | Some p \<Rightarrow> dequeue C k3 p = Some k4 \<and> n = p"
    "k' = (upd_proc n (\<lambda>q. q\<lparr>runs := runs q + 1\<rparr>) k4)\<lparr>current := n\<rparr>"
proof -
  have set_current: "x = current y \<Longrightarrow> y\<lparr>current := x\<rparr> = y" for x :: ptr and y :: kstate by simp
  let ?rest = "\<lambda>k2. case pick_next C k2 of (nx, k) \<Rightarrow>
      (case nx of None \<Rightarrow> Some k | Some p \<Rightarrow> sched_class_dequeue C k p) \<bind>
        (\<lambda>k. let n = (case nx of None \<Rightarrow> idleproc k | Some p \<Rightarrow> p);
                 k = upd_proc n (\<lambda>q. q\<lparr>runs := runs q + 1\<rparr>) k
             in Some (if n \<noteq> current k then proc_run k n else k))"
  from assms(1) have "(if state (procs k1 (current k)) = PROC_RUNNABLE
      then sched_class_enqueue C k1 (current k) else Some k1) \<bind> ?rest = Some k'"
    by (simp only: schedule_def Let_def sched_class_pick_next_def k1_def)
  then obtain k2 where k2: "(if state (procs k1 (current k)) = PROC_RUNNABLE
      then sched_class_enqueue C k1 (current k) else Some k1) = Some k2" and rest: "?rest k2 = Some k'"
    by (rule bind_SomeE)
  obtain nx k3 where k3: "pick_next C k2 = (nx, k3)" by fastforce
  show ?thesis
  proof (cases nx)
    case None
    with rest show ?thesis
      by (intro that[OF k2 k3, of k3 "idleproc k3"])
        (auto simp: k3 Let_def proc_run_def set_current split: if_splits)
  next
    case (Some p)
    with rest obtain k4 where "dequeue C k3 p = Some k4"
      by (auto simp: k3 sched_class_dequeue_def bind_eq_Some_conv)
    with rest Some show ?thesis
      by (intro that[OF k2 k3, of k4 p])
        (auto simp: k3 Let_def proc_run_def sched_class_dequeue_def set_current split: if_splits)
  qed
qed

subsection \<open>What a scheduler class promises\<close>

text \<open>
  The queue operations write the run queue, and of a process only its time slice, its queue
  mark and its stride.
\<close>

definition erase_sched :: "proc_struct \<Rightarrow> proc_struct" where
  "erase_sched q = q\<lparr>time_slice := 0, in_rq := False, stride := 0\<rparr>"

definition sched_frame :: "kstate \<Rightarrow> kstate \<Rightarrow> bool" where
  "sched_frame k k' \<longleftrightarrow> (\<exists>r ps. k' = k\<lparr>rq := r, procs := ps\<rparr> \<and>
     (\<forall>q. erase_sched (ps q) = erase_sched (procs k q)))"

text \<open>The processes on the run queue, by class, and the class's invariant of it.\<close>

fun queued :: "sched_id \<Rightarrow> kstate \<Rightarrow> ptr set" where
  "queued STRIDE k = set_tree (lab6_run_pool (rq k))"
| "queued FCFS k = set (run_list (rq k))"
| "queued RR k = set (run_list (rq k))"
| "queued PRIOR k = set_tree (lab6_run_pool (rq k))"

definition list_inv :: "kstate \<Rightarrow> bool" where
  "list_inv k \<longleftrightarrow> distinct (run_list (rq k)) \<and> (\<forall>p \<in> set (run_list (rq k)). in_rq (procs k p)) \<and>
     proc_num (rq k) = of_nat (length (run_list (rq k)))"

definition pool_inv :: "kstate \<Rightarrow> bool" where
  "pool_inv k \<longleftrightarrow> tdistinct (lab6_run_pool (rq k)) \<and>
     proc_num (rq k) = of_nat (size (lab6_run_pool (rq k)))"

fun class_inv :: "sched_id \<Rightarrow> kstate \<Rightarrow> bool" where
  "class_inv STRIDE k = pool_inv k"
| "class_inv FCFS k = list_inv k"
| "class_inv RR k = list_inv k"
| "class_inv PRIOR k = pool_inv k"

text \<open>
  No runnable process is lost: the running process and the idle process are not queued, the queued
  processes are runnable, and every runnable process of \<open>A\<close> is running, idle or queued.
\<close>

definition runnable_ok :: "ptr set \<Rightarrow> ptr set \<Rightarrow> kstate \<Rightarrow> bool" where
  "runnable_ok Q A k \<longleftrightarrow> current k \<notin> Q \<and> idleproc k \<notin> Q \<and>
     (\<forall>p \<in> Q. state (procs k p) = PROC_RUNNABLE) \<and>
     (\<forall>p \<in> A. state (procs k p) = PROC_RUNNABLE \<longrightarrow> p = current k \<or> p = idleproc k \<or> p \<in> Q)"

lemma erase_sched_sel [simp]:
  "state (erase_sched q) = state q"
  "pid (erase_sched q) = pid q"
  "runs (erase_sched q) = runs q"
  "kstack (erase_sched q) = kstack q"
  "need_resched (erase_sched q) = need_resched q"
  "parent (erase_sched q) = parent q"
  "mm (erase_sched q) = mm q"
  "flags (erase_sched q) = flags q"
  "exit_code (erase_sched q) = exit_code q"
  "wait_state (erase_sched q) = wait_state q"
  "cptr (erase_sched q) = cptr q"
  "yptr (erase_sched q) = yptr q"
  "optr (erase_sched q) = optr q"
  "priority (erase_sched q) = priority q"
  "filesp (erase_sched q) = filesp q"
  by (simp_all add: erase_sched_def)

lemma erase_sched_fields:
  assumes "erase_sched q = erase_sched q'"
  shows "state q = state q'"
     "pid q = pid q'"
     "runs q = runs q'"
     "kstack q = kstack q'"
     "need_resched q = need_resched q'"
     "parent q = parent q'"
     "mm q = mm q'"
     "flags q = flags q'"
     "exit_code q = exit_code q'"
     "wait_state q = wait_state q'"
     "cptr q = cptr q'"
     "yptr q = yptr q'"
     "optr q = optr q'"
     "priority q = priority q'"
     "filesp q = filesp q'"
  using erase_sched_sel[of q] erase_sched_sel[of q'] unfolding assms by simp_all

lemma sched_frameD:
  assumes "sched_frame k k'"
  shows "current k' = current k" "idleproc k' = idleproc k" "initproc k' = initproc k"
    "sched_cls k' = sched_cls k" "timer_list k' = timer_list k" "proc_list k' = proc_list k"
    "hash_list k' = hash_list k" "nr_process k' = nr_process k" "last_pid k' = last_pid k"
    "next_safe k' = next_safe k"
    "state (procs k' q) = state (procs k q)" "pid (procs k' q) = pid (procs k q)"
    "need_resched (procs k' q) = need_resched (procs k q)" "flags (procs k' q) = flags (procs k q)"
    "parent (procs k' q) = parent (procs k q)" "wait_state (procs k' q) = wait_state (procs k q)"
    "cptr (procs k' q) = cptr (procs k q)" "yptr (procs k' q) = yptr (procs k q)"
    "optr (procs k' q) = optr (procs k q)" "exit_code (procs k' q) = exit_code (procs k q)"
    "priority (procs k' q) = priority (procs k q)" "runs (procs k' q) = runs (procs k q)"
proof -
  from assms obtain r ps where k': "k' = k\<lparr>rq := r, procs := ps\<rparr>"
    and e: "erase_sched (ps q) = erase_sched (procs k q)" by (auto simp: sched_frame_def)
  show "current k' = current k" "idleproc k' = idleproc k" "initproc k' = initproc k"
    "sched_cls k' = sched_cls k" "timer_list k' = timer_list k" "proc_list k' = proc_list k"
    "hash_list k' = hash_list k" "nr_process k' = nr_process k" "last_pid k' = last_pid k"
    "next_safe k' = next_safe k" by (simp_all add: k')
  show "state (procs k' q) = state (procs k q)" "pid (procs k' q) = pid (procs k q)"
    "need_resched (procs k' q) = need_resched (procs k q)" "flags (procs k' q) = flags (procs k q)"
    "parent (procs k' q) = parent (procs k q)" "wait_state (procs k' q) = wait_state (procs k q)"
    "cptr (procs k' q) = cptr (procs k q)" "yptr (procs k' q) = yptr (procs k q)"
    "optr (procs k' q) = optr (procs k q)" "exit_code (procs k' q) = exit_code (procs k q)"
    "priority (procs k' q) = priority (procs k q)" "runs (procs k' q) = runs (procs k q)"
    using erase_sched_fields[OF e] by (simp_all add: k')
qed

lemma sched_frame_refl [simp]: "sched_frame k k"
  unfolding sched_frame_def by (intro exI[of _ "rq k"] exI[of _ "procs k"]) simp

lemma sched_frame_trans:
  assumes "sched_frame k k'" "sched_frame k' k''"
  shows "sched_frame k k''"
proof -
  from assms obtain r ps r' ps' where "k' = k\<lparr>rq := r, procs := ps\<rparr>" "k'' = k'\<lparr>rq := r', procs := ps'\<rparr>"
    and e: "\<forall>q. erase_sched (ps q) = erase_sched (procs k q)"
      "\<forall>q. erase_sched (ps' q) = erase_sched (procs k' q)" by (auto simp: sched_frame_def)
  then have "k'' = k\<lparr>rq := r', procs := ps'\<rparr>" by simp
  with e show ?thesis unfolding sched_frame_def by (auto simp: \<open>k' = _\<close> intro!: exI)
qed

text \<open>The fields of a process that tie it to other processes.\<close>

definition same_links :: "proc_struct \<Rightarrow> proc_struct \<Rightarrow> bool" where
  "same_links q q' \<longleftrightarrow> pid q' = pid q \<and> parent q' = parent q \<and> cptr q' = cptr q \<and> yptr q' = yptr q \<and>
     optr q' = optr q \<and> exit_code q' = exit_code q \<and> flags q' = flags q"

text \<open>A clock tick writes no more than the time slice and the rescheduling request of a process.\<close>

definition tick_frame :: "kstate \<Rightarrow> kstate \<Rightarrow> bool" where
  "tick_frame k k' \<longleftrightarrow> (\<exists>ps. k' = k\<lparr>procs := ps\<rparr> \<and>
     (\<forall>q. (ps q)\<lparr>time_slice := 0, need_resched := False\<rparr> =
          (procs k q)\<lparr>time_slice := 0, need_resched := False\<rparr>))"

lemma erase_tick_fields:
  assumes "q\<lparr>time_slice := 0, need_resched := False\<rparr> = q'\<lparr>time_slice := 0, need_resched := False\<rparr>"
  shows "state q = state q'" "in_rq q = in_rq q'" "wait_state q = wait_state q'" "stride q = stride q'"
  using arg_cong[OF assms, of state] arg_cong[OF assms, of in_rq] arg_cong[OF assms, of wait_state]
    arg_cong[OF assms, of stride] by simp_all

lemma tick_frameD:
  assumes "tick_frame k k'"
  shows "rq k' = rq k" "current k' = current k" "idleproc k' = idleproc k" "timer_list k' = timer_list k"
    "state (procs k' q) = state (procs k q)" "in_rq (procs k' q) = in_rq (procs k q)"
    "wait_state (procs k' q) = wait_state (procs k q)"
proof -
  from assms obtain ps where k': "k' = k\<lparr>procs := ps\<rparr>" and
    e: "(ps q)\<lparr>time_slice := 0, need_resched := False\<rparr> = (procs k q)\<lparr>time_slice := 0, need_resched := False\<rparr>"
    by (auto simp: tick_frame_def)
  show "rq k' = rq k" "current k' = current k" "idleproc k' = idleproc k" "timer_list k' = timer_list k"
    "state (procs k' q) = state (procs k q)" "in_rq (procs k' q) = in_rq (procs k q)"
    "wait_state (procs k' q) = wait_state (procs k q)"
    using erase_tick_fields[OF e] by (simp_all add: k')
qed

lemma tick_frame_refl: "tick_frame k k"
  unfolding tick_frame_def by (intro exI[of _ "procs k"]) simp

lemma tick_frame_upd:
  assumes "tick_frame k k'"
    "\<And>q. (f q)\<lparr>time_slice := 0, need_resched := False\<rparr> = q\<lparr>time_slice := 0, need_resched := False\<rparr>"
  shows "tick_frame k (upd_proc p f k')"
proof -
  from assms(1) obtain ps where "k' = k\<lparr>procs := ps\<rparr>"
    "\<forall>q. (ps q)\<lparr>time_slice := 0, need_resched := False\<rparr> = (procs k q)\<lparr>time_slice := 0, need_resched := False\<rparr>"
    by (auto simp: tick_frame_def)
  then show ?thesis unfolding tick_frame_def
    by (intro exI[of _ "ps(p := f (ps p))"]) (simp add: upd_proc_def assms(2))
qed

locale sched_ok =
  fixes C :: sched_class
    and Q :: "kstate \<Rightarrow> ptr set"
    and cinv :: "kstate \<Rightarrow> bool"
  assumes enqueue_ok: "cinv k \<Longrightarrow> p \<notin> Q k \<Longrightarrow>
      \<exists>k'. enqueue C k p = Some k' \<and> cinv k' \<and> Q k' = insert p (Q k) \<and> sched_frame k k'"
    and dequeue_ok: "cinv k \<Longrightarrow> p \<in> Q k \<Longrightarrow>
      \<exists>k'. dequeue C k p = Some k' \<and> cinv k' \<and> Q k' = Q k - {p} \<and> sched_frame k k'"
    and pick_ok: "cinv k \<Longrightarrow> pick_next C k = (nx, k') \<Longrightarrow>
      cinv k' \<and> Q k' = Q k \<and> sched_frame k k' \<and>
      (case nx of None \<Rightarrow> Q k = {} | Some p \<Rightarrow> p \<in> Q k)"
    and tick_ok: "tick_frame k (proc_tick C k p)"
    and inv_cong: "rq k' = rq k \<Longrightarrow> (\<And>p. p \<in> Q k \<Longrightarrow> in_rq (procs k' p) = in_rq (procs k p)) \<Longrightarrow> cinv k' = cinv k"
    and Q_cong: "rq k' = rq k \<Longrightarrow> Q k' = Q k"
begin

lemma upd_proc_ok:
  assumes "\<And>q. in_rq (f q) = in_rq q"
  shows "cinv (upd_proc p f k) = cinv k" "Q (upd_proc p f k) = Q k"
  by (rule inv_cong, simp, simp add: upd_proc_def assms) (rule Q_cong, simp)

lemma wakeup_proc_ok:
  assumes "cinv k" "runnable_ok (Q k) A k" "state (procs k p) \<noteq> PROC_ZOMBIE"
  shows "\<exists>k'. wakeup_proc C k p = Some k' \<and> cinv k' \<and> runnable_ok (Q k') A k' \<and>
     (p \<notin> {current k, idleproc k} \<longrightarrow> state (procs k p) \<noteq> PROC_RUNNABLE \<longrightarrow> p \<in> Q k') \<and>
     state (procs k' p) = PROC_RUNNABLE \<and> current k' = current k"
proof (cases "state (procs k p) = PROC_RUNNABLE")
  case True
  with assms show ?thesis by (simp add: wakeup_proc_def)
next
  case False
  let ?k = "upd_proc p (\<lambda>q. q\<lparr>state := PROC_RUNNABLE, wait_state := 0\<rparr>) k"
  have ci: "cinv ?k" and Q: "Q ?k = Q k" using assms(1) by (simp_all add: upd_proc_ok)
  from False assms(2) have p: "p \<notin> Q k" by (auto simp: runnable_ok_def)
  show ?thesis
  proof (cases "p = current k \<or> p = idleproc k")
    case True
    then have "wakeup_proc C k p = Some ?k"
      using False assms(3) by (auto simp: wakeup_proc_def sched_class_enqueue_def Let_def)
    moreover have "runnable_ok (Q ?k) A ?k"
      using assms(2) p True by (auto simp: runnable_ok_def Q)
    ultimately show ?thesis using ci True by auto
  next
    case False
    from enqueue_ok[OF ci, of p] p Q obtain k' where k': "enqueue C ?k p = Some k'" "cinv k'"
      "Q k' = insert p (Q k)" "sched_frame ?k k'" by auto
    from k'(1) False \<open>state (procs k p) \<noteq> PROC_RUNNABLE\<close> assms(3) have "wakeup_proc C k p = Some k'"
      by (simp add: wakeup_proc_def sched_class_enqueue_def)
    moreover have "runnable_ok (Q k') A k'"
      using assms(2) False k'(3) sched_frameD(1,2,11)[OF k'(4)] by (auto simp: runnable_ok_def)
    ultimately show ?thesis using k' sched_frameD(1,11)[OF k'(4)] by auto
  qed
qed

lemma wakeup_proc_frame:
  assumes "cinv k" "runnable_ok (Q k) A k" "wakeup_proc C k p = Some k'"
  shows "timer_list k' = timer_list k" "idleproc k' = idleproc k" "proc_list k' = proc_list k"
    "q \<noteq> p \<Longrightarrow> state (procs k' q) = state (procs k q)"
    "q \<noteq> p \<Longrightarrow> wait_state (procs k' q) = wait_state (procs k q)"
    "wait_state (procs k' p) = (if state (procs k p) = PROC_RUNNABLE then wait_state (procs k p) else 0)"
    "parent (procs k' r) = parent (procs k r)" "cptr (procs k' r) = cptr (procs k r)"
    "yptr (procs k' r) = yptr (procs k r)" "optr (procs k' r) = optr (procs k r)"
    "pid (procs k' r) = pid (procs k r)" "exit_code (procs k' r) = exit_code (procs k r)"
    "hash_list k' = hash_list k" "nr_process k' = nr_process k" "initproc k' = initproc k"
    "last_pid k' = last_pid k" "next_safe k' = next_safe k" "same_links (procs k r) (procs k' r)"
proof -
  let ?k = "upd_proc p (\<lambda>q. q\<lparr>state := PROC_RUNNABLE, wait_state := 0\<rparr>) k"
  have "k' = k \<and> state (procs k p) = PROC_RUNNABLE \<or> state (procs k p) \<noteq> PROC_RUNNABLE \<and> sched_frame ?k k'"
  proof (cases "state (procs k p) = PROC_RUNNABLE")
    case False
    with assms(2) have "p \<notin> Q ?k" by (auto simp: runnable_ok_def upd_proc_ok)
    with enqueue_ok[of ?k p] assms(1,3) False show ?thesis
      by (auto simp: wakeup_proc_def sched_class_enqueue_def Let_def upd_proc_ok split: if_splits)
  qed (use assms(3) in \<open>simp add: wakeup_proc_def\<close>)
  then show "timer_list k' = timer_list k" "idleproc k' = idleproc k" "proc_list k' = proc_list k"
    "q \<noteq> p \<Longrightarrow> state (procs k' q) = state (procs k q)"
    "q \<noteq> p \<Longrightarrow> wait_state (procs k' q) = wait_state (procs k q)"
    "wait_state (procs k' p) = (if state (procs k p) = PROC_RUNNABLE then wait_state (procs k p) else 0)"
    "parent (procs k' r) = parent (procs k r)" "cptr (procs k' r) = cptr (procs k r)"
    "yptr (procs k' r) = yptr (procs k r)" "optr (procs k' r) = optr (procs k r)"
    "pid (procs k' r) = pid (procs k r)" "exit_code (procs k' r) = exit_code (procs k r)"
    "hash_list k' = hash_list k" "nr_process k' = nr_process k" "initproc k' = initproc k"
    "last_pid k' = last_pid k" "next_safe k' = next_safe k" "same_links (procs k r) (procs k' r)"
    by (auto simp: sched_frameD same_links_def)
qed

lemma proc_tick_ok: "tick_frame k (sched_class_proc_tick C k p)"
  using tick_ok[of k p] tick_frame_upd[OF tick_frame_refl[of k], of "\<lambda>q. q\<lparr>need_resched := True\<rparr>" p]
  by (auto simp: sched_class_proc_tick_def)

text \<open>The first half of \<^verbatim>\<open>schedule\<close>: the running process goes back to the queue.\<close>

lemma requeue_current:
  assumes "cinv k" "runnable_ok (Q k) A k"
  defines "k1 \<equiv> upd_proc (current k) (\<lambda>q. q\<lparr>need_resched := False\<rparr>) k"
  shows "\<exists>k2. (if state (procs k1 (current k)) = PROC_RUNNABLE
                 then sched_class_enqueue C k1 (current k) else Some k1) = Some k2 \<and>
     cinv k2 \<and> sched_frame k1 k2 \<and>
     Q k2 = (if state (procs k (current k)) = PROC_RUNNABLE \<and> current k \<noteq> idleproc k
             then insert (current k) (Q k) else Q k)"
proof -
  have ci: "cinv k1" and Q: "Q k1 = Q k"
    using assms(1) by (simp_all add: k1_def upd_proc_ok)
  from assms(2) have "current k \<notin> Q k1" by (simp add: runnable_ok_def Q)
  with enqueue_ok[OF ci this] ci Q show ?thesis
    by (auto simp: sched_class_enqueue_def k1_def)
qed

lemma schedule_ok:
  assumes ci: "cinv k" and ok: "runnable_ok (Q k) A k"
  shows "\<exists>k'. schedule C k = Some k' \<and> cinv k' \<and> runnable_ok (Q k') A k' \<and>
     (current k' = idleproc k \<or> state (procs k' (current k')) = PROC_RUNNABLE) \<and>
     (\<forall>p. state (procs k' p) = state (procs k p) \<and> wait_state (procs k' p) = wait_state (procs k p) \<and>
        same_links (procs k p) (procs k' p)) \<and>
     idleproc k' = idleproc k"
proof -
  let ?k1 = "upd_proc (current k) (\<lambda>q. q\<lparr>need_resched := False\<rparr>) k"
  let ?Q2 = "if state (procs k (current k)) = PROC_RUNNABLE \<and> current k \<noteq> idleproc k
             then insert (current k) (Q k) else Q k"
  obtain k2 where k2: "(if state (procs ?k1 (current k)) = PROC_RUNNABLE
      then sched_class_enqueue C ?k1 (current k) else Some ?k1) = Some k2"
      "cinv k2" "sched_frame ?k1 k2" "Q k2 = ?Q2"
    using requeue_current[OF ci ok] by blast
  obtain nx k3 where k3: "pick_next C k2 = (nx, k3)" by fastforce
  from pick_ok[OF k2(2) k3] have p3: "cinv k3" "Q k3 = Q k2" "sched_frame k2 k3"
    "case nx of None \<Rightarrow> Q k2 = {} | Some p \<Rightarrow> p \<in> Q k2" by simp_all
  have "\<exists>k4. (case nx of None \<Rightarrow> Some k3 | Some p \<Rightarrow> dequeue C k3 p) = Some k4 \<and>
      cinv k4 \<and> Q k4 = Q k2 - set_option nx \<and> sched_frame k3 k4"
    using dequeue_ok[OF p3(1), of "the nx"] p3(1,2,4) by (cases nx) simp_all
  then obtain k4 where k4: "(case nx of None \<Rightarrow> Some k3 | Some p \<Rightarrow> dequeue C k3 p) = Some k4"
      "cinv k4" "Q k4 = Q k2 - set_option nx" "sched_frame k3 k4" by blast
  have fr: "sched_frame ?k1 k4" using k2(3) p3(3) k4(4) by (blast intro: sched_frame_trans)
  let ?n = "case nx of None \<Rightarrow> idleproc k4 | Some p \<Rightarrow> p"
  let ?k5 = "upd_proc ?n (\<lambda>q. q\<lparr>runs := runs q + 1\<rparr>) k4"
  let ?k' = "?k5\<lparr>current := ?n\<rparr>"
  have set_current: "x = current y \<Longrightarrow> y\<lparr>current := x\<rparr> = y" for x :: ptr and y :: kstate by simp
  have sch: "schedule C k = Some ?k'"
    using k2(1) k3 k4(1) by (cases nx) (simp_all add: schedule_def sched_class_pick_next_def
        sched_class_dequeue_def proc_run_def Let_def set_current)
  have same: "state (procs ?k' p) = state (procs k p)" for p
    using sched_frameD(11)[OF fr, of p] by (auto split: if_splits)
  have same_wait: "wait_state (procs ?k' p) = wait_state (procs k p)" for p
    using sched_frameD(16)[OF fr, of p] by (auto split: if_splits)
  have links: "same_links (procs k p) (procs ?k' p)" for p
    using sched_frameD(12,14,15,17-20)[OF fr, of p] by (auto simp: same_links_def split: if_splits)
  have fields: "current k4 = current k" "idleproc k4 = idleproc k"
    using sched_frameD(1,2)[OF fr] by simp_all
  have Q': "Q ?k' = Q k2 - set_option nx" using Q_cong[of ?k' k4] k4(3) by simp
  have ci': "cinv ?k'" using inv_cong[of ?k' k4] k4(2) by simp
  have "runnable_ok (Q ?k') A ?k'"
    unfolding runnable_ok_def Q' same using ok k2(4) p3(4) fields
    by (cases nx) (auto simp: runnable_ok_def split: if_splits)
  moreover have "?n = idleproc k \<or> state (procs ?k' ?n) = PROC_RUNNABLE"
    unfolding same using ok k2(4) p3(4) fields by (cases nx) (auto simp: runnable_ok_def split: if_splits)
  ultimately show ?thesis using sch ci' same same_wait links fields(2) by auto
qed

end

subsection \<open>The four classes keep the contract\<close>

lemma proc_tick_frame:
  "tick_frame k (RR_proc_tick k p)" "tick_frame k (FCFS_proc_tick k p)"
  "tick_frame k (stride_proc_tick k p)" "tick_frame k (prior_proc_tick k p)"
  by (simp_all add: RR_proc_tick_def FCFS_proc_tick_def stride_proc_tick_def prior_proc_tick_def Let_def
      tick_frame_refl tick_frame_upd)

lemma sched_frame_upd_rq:
  assumes "sched_frame k k'"
  shows "sched_frame k (upd_rq f k')"
proof -
  from assms obtain r ps where "k' = k\<lparr>rq := r, procs := ps\<rparr>"
    and "\<forall>q. erase_sched (ps q) = erase_sched (procs k q)" by (auto simp: sched_frame_def)
  then show ?thesis unfolding sched_frame_def
    by (intro exI[of _ "f r"] exI[of _ ps]) (simp add: upd_rq_def)
qed

lemma sched_frame_upd_proc:
  assumes "sched_frame k k'" "\<And>q. erase_sched (f q) = erase_sched q"
  shows "sched_frame k (upd_proc p f k')"
proof -
  from assms(1) obtain r ps where "k' = k\<lparr>rq := r, procs := ps\<rparr>"
    and "\<forall>q. erase_sched (ps q) = erase_sched (procs k q)" by (auto simp: sched_frame_def)
  then show ?thesis unfolding sched_frame_def
    by (intro exI[of _ r] exI[of _ "ps(p := f (ps p))"]) (simp add: upd_proc_def assms(2))
qed

lemma erase_sched_writes [simp]:
  "erase_sched (q\<lparr>time_slice := t\<rparr>) = erase_sched q" "erase_sched (q\<lparr>in_rq := b\<rparr>) = erase_sched q"
  "erase_sched (q\<lparr>stride := s\<rparr>) = erase_sched q"
  by (simp_all add: erase_sched_def)

lemma refill_slice_simps [simp]:
  "rq (refill_slice k p) = rq k" "in_rq (procs (refill_slice k p) q) = in_rq (procs k q)"
  "stride (procs (refill_slice k p) q) = stride (procs k q)"
  "priority (procs (refill_slice k p) q) = priority (procs k q)"
  by (auto simp: refill_slice_def)

lemma sched_frame_refill: "sched_frame k k' \<Longrightarrow> sched_frame k (refill_slice k' p)"
  by (auto simp: refill_slice_def intro: sched_frame_upd_proc)

lemmas sched_frame_intros = sched_frame_upd_proc sched_frame_upd_rq sched_frame_refill

lemma size_tmerge [simp]: "size (tmerge c a b) = size a + size b"
  by (metis mset_tmerge size_mset_tree size_union)


lemma of_nat_pred: "0 < n \<Longrightarrow> of_nat (n - 1) = (of_nat n - 1 :: u32)"
  by (cases n) auto

lemma RR_enqueue_ok:
  assumes "list_inv k" "p \<notin> set (run_list (rq k))"
  shows "\<exists>k'. RR_enqueue k p = Some k' \<and> list_inv k' \<and>
    run_list (rq k') = run_list (rq k) @ [p] \<and> sched_frame k k'"
  using assms by (auto simp: RR_enqueue_def Let_def list_inv_def
      intro!: sched_frame_intros)

lemma RR_dequeue_ok:
  assumes "list_inv k" "p \<in> set (run_list (rq k))"
  shows "\<exists>k'. RR_dequeue k p = Some k' \<and> list_inv k' \<and>
    run_list (rq k') = remove1 p (run_list (rq k)) \<and> sched_frame k k'"
proof -
  have "0 < length (run_list (rq k))" using assms(2) by (cases "run_list (rq k)") auto
  from of_nat_pred[OF this] assms show ?thesis
    by (auto simp: RR_dequeue_def Let_def list_inv_def length_remove1
        intro!: sched_frame_intros)
qed

lemma FCFS_is_RR:
  "FCFS_enqueue = RR_enqueue" "FCFS_dequeue = RR_dequeue" "FCFS_pick_next = RR_pick_next"
  by (simp_all add: fun_eq_iff FCFS_enqueue_def RR_enqueue_def FCFS_dequeue_def RR_dequeue_def
      FCFS_pick_next_def RR_pick_next_def)

lemma sched_ok_list:
  assumes "enqueue C = RR_enqueue" "dequeue C = RR_dequeue" "pick_next C = RR_pick_next"
    "\<And>k p. tick_frame k (proc_tick C k p)"
  shows "sched_ok C (\<lambda>k. set (run_list (rq k))) list_inv"
proof
  fix k k' p nx
  show "list_inv k \<Longrightarrow> p \<notin> set (run_list (rq k)) \<Longrightarrow> \<exists>k'. enqueue C k p = Some k' \<and> list_inv k' \<and>
      set (run_list (rq k')) = insert p (set (run_list (rq k))) \<and> sched_frame k k'"
    using RR_enqueue_ok[of k p] by (auto simp: assms)
  show "list_inv k \<Longrightarrow> p \<in> set (run_list (rq k)) \<Longrightarrow> \<exists>k'. dequeue C k p = Some k' \<and> list_inv k' \<and>
      set (run_list (rq k')) = set (run_list (rq k)) - {p} \<and> sched_frame k k'"
    using RR_dequeue_ok[of k p] by (auto simp: assms list_inv_def)
  show "list_inv k \<Longrightarrow> pick_next C k = (nx, k') \<Longrightarrow> list_inv k' \<and>
      set (run_list (rq k')) = set (run_list (rq k)) \<and> sched_frame k k' \<and>
      (case nx of None \<Rightarrow> set (run_list (rq k)) = {} | Some p \<Rightarrow> p \<in> set (run_list (rq k)))"
    by (auto simp: assms RR_pick_next_def split: list.splits)
qed (simp_all add: list_inv_def assms(4))

lemma pool_inv_cong: "rq k' = rq k \<Longrightarrow> pool_inv k' = pool_inv k"
  by (simp add: pool_inv_def)

lemma pool_insert_inv:
  assumes "pool_inv k" "p \<notin> set_tree (lab6_run_pool (rq k))"
    "lab6_run_pool (rq k') = tinsert c (lab6_run_pool (rq k)) p" "proc_num (rq k') = proc_num (rq k) + 1"
  shows "pool_inv k' \<and> set_tree (lab6_run_pool (rq k')) = insert p (set_tree (lab6_run_pool (rq k)))"
  using assms by (auto simp: pool_inv_def tinsert_def intro!: tdistinct_tmerge)

lemma pool_remove_inv:
  assumes "pool_inv k" "p \<in> set_tree (lab6_run_pool (rq k))"
    "lab6_run_pool (rq k') = tremove c p (lab6_run_pool (rq k))" "proc_num (rq k') = proc_num (rq k) - 1"
  shows "pool_inv k' \<and> set_tree (lab6_run_pool (rq k')) = set_tree (lab6_run_pool (rq k)) - {p}"
proof -
  have "size (tremove c p (lab6_run_pool (rq k))) = size (lab6_run_pool (rq k)) - 1"
    using assms(1,2) by (metis mset_tremove pool_inv_def set_mset_tree size_Diff_singleton size_mset_tree)
  moreover have "0 < size (lab6_run_pool (rq k))"
    using assms(2) by (cases "lab6_run_pool (rq k)") auto
  ultimately show ?thesis
    using assms of_nat_pred by (auto simp: pool_inv_def set_tremove tdistinct_tremove)
qed

lemma sched_ok_pool:
  assumes enq: "\<And>k p. \<exists>k' c. enqueue C k p = Some k' \<and> sched_frame k k' \<and>
      lab6_run_pool (rq k') = tinsert c (lab6_run_pool (rq k)) p \<and> proc_num (rq k') = proc_num (rq k) + 1"
    and deq: "\<And>k p. \<exists>k' c. dequeue C k p = Some k' \<and> sched_frame k k' \<and>
      lab6_run_pool (rq k') = tremove c p (lab6_run_pool (rq k)) \<and> proc_num (rq k') = proc_num (rq k) - 1"
    and pick: "\<And>k. fst (pick_next C k) = troot (lab6_run_pool (rq k))"
      "\<And>k. rq (snd (pick_next C k)) = rq k" "\<And>k. sched_frame k (snd (pick_next C k))"
    and tick: "\<And>k p. tick_frame k (proc_tick C k p)"
  shows "sched_ok C (\<lambda>k. set_tree (lab6_run_pool (rq k))) pool_inv"
proof
  fix k k' p nx
  show "pool_inv k \<Longrightarrow> p \<notin> set_tree (lab6_run_pool (rq k)) \<Longrightarrow> \<exists>k'. enqueue C k p = Some k' \<and> pool_inv k' \<and>
      set_tree (lab6_run_pool (rq k')) = insert p (set_tree (lab6_run_pool (rq k))) \<and> sched_frame k k'"
    using enq[of k p] pool_insert_inv[of k p] by blast
  show "pool_inv k \<Longrightarrow> p \<in> set_tree (lab6_run_pool (rq k)) \<Longrightarrow> \<exists>k'. dequeue C k p = Some k' \<and> pool_inv k' \<and>
      set_tree (lab6_run_pool (rq k')) = set_tree (lab6_run_pool (rq k)) - {p} \<and> sched_frame k k'"
    using deq[of k p] pool_remove_inv[of k p] by blast
  assume "pool_inv k" and pk: "pick_next C k = (nx, k')"
  from pick[of k] have e: "nx = troot (lab6_run_pool (rq k))" "rq k' = rq k" "sched_frame k k'"
    by (simp_all add: pk)
  show "pool_inv k' \<and> set_tree (lab6_run_pool (rq k')) = set_tree (lab6_run_pool (rq k)) \<and>
      sched_frame k k' \<and> (case nx of None \<Rightarrow> set_tree (lab6_run_pool (rq k)) = {}
        | Some p \<Rightarrow> p \<in> set_tree (lab6_run_pool (rq k)))"
    using \<open>pool_inv k\<close> e pool_inv_cong[OF e(2)] by (cases "lab6_run_pool (rq k)") auto
qed (simp_all add: pool_inv_def tick)

lemma sched_ok_stride:
  "sched_ok stride_sched_class (\<lambda>k. set_tree (lab6_run_pool (rq k))) pool_inv"
  by (rule sched_ok_pool)
    (auto simp: stride_sched_class_def stride_enqueue_def stride_dequeue_def stride_pick_next_def
       proc_tick_frame Let_def split: option.splits intro!: sched_frame_intros exI)

lemma sched_ok_prior:
  "sched_ok prior_sched_class (\<lambda>k. set_tree (lab6_run_pool (rq k))) pool_inv"
  by (rule sched_ok_pool)
    (auto simp: prior_sched_class_def prior_enqueue_def prior_dequeue_def prior_pick_next_def
       proc_tick_frame Let_def split: option.splits intro!: sched_frame_intros exI)

lemma queued_inv_eta:
  "queued RR = (\<lambda>k. set (run_list (rq k)))" "queued FCFS = (\<lambda>k. set (run_list (rq k)))"
  "queued STRIDE = (\<lambda>k. set_tree (lab6_run_pool (rq k)))"
  "queued PRIOR = (\<lambda>k. set_tree (lab6_run_pool (rq k)))"
  "class_inv RR = list_inv" "class_inv FCFS = list_inv"
  "class_inv STRIDE = pool_inv" "class_inv PRIOR = pool_inv"
  by (simp_all add: fun_eq_iff)

interpretation rr: sched_ok rr_sched_class "queued RR" "class_inv RR"
  unfolding queued_inv_eta by (rule sched_ok_list) (simp_all add: rr_sched_class_def proc_tick_frame)

interpretation fcfs: sched_ok fcfs_sched_class "queued FCFS" "class_inv FCFS"
  unfolding queued_inv_eta by (rule sched_ok_list) (simp_all add: fcfs_sched_class_def FCFS_is_RR proc_tick_frame)

interpretation strd: sched_ok stride_sched_class "queued STRIDE" "class_inv STRIDE"
  unfolding queued_inv_eta by (rule sched_ok_stride)

interpretation prior: sched_ok prior_sched_class "queued PRIOR" "class_inv PRIOR"
  unfolding queued_inv_eta by (rule sched_ok_prior)

lemma class_sched_ok: "sched_ok (class_of c) (queued c) (class_inv c)"
  by (cases c) (simp_all only: class_of.simps rr.sched_ok_axioms fcfs.sched_ok_axioms
      strd.sched_ok_axioms prior.sched_ok_axioms)

end
