(* ===== verification/Sched_Fair.thy ===== *)
theory Sched_Fair
  imports Sched
begin

text \<open>
  What the scheduler classes guarantee beyond the contract of theory \<open>Sched\<close>. Round robin: a
  process at position \<open>i\<close> of the run list runs within \<open>i + 1\<close> calls of \<^verbatim>\<open>schedule\<close>, whatever
  wake-ups and clock ticks come between. Stride: all strides stay in a window of \<^verbatim>\<open>BIG_STRIDE\<close>,
  on which the signed 32-bit comparison of the code is a linear order although strides wrap, so
  the root of the pool is a process of least stride.
\<close>

subsection \<open>Events between two calls of schedule\<close>

datatype sched_event = Ev_schedule | Ev_wakeup ptr | Ev_tick

fun sched_event_step :: "sched_class \<Rightarrow> kstate \<Rightarrow> sched_event \<Rightarrow> kstate option" where
  "sched_event_step C k Ev_schedule = schedule C k"
| "sched_event_step C k (Ev_wakeup p) = wakeup_proc C k p"
| "sched_event_step C k Ev_tick = Some (sched_class_proc_tick C k (current k))"

fun sched_events :: "sched_class \<Rightarrow> kstate \<Rightarrow> sched_event list \<Rightarrow> kstate option" where
  "sched_events C k [] = Some k"
| "sched_events C k (e # es) = do { k \<leftarrow> sched_event_step C k e; sched_events C k es }"

subsection \<open>Round robin serves every queued process\<close>

lemma RR_enqueue_run_list:
  "RR_enqueue k p = Some k' \<Longrightarrow> run_list (rq k') = run_list (rq k) @ [p] \<and> sched_frame k k'"
  by (auto simp: RR_enqueue_def Let_def split: if_splits intro!: sched_frame_intros)

lemma rr_wakeup_run_list:
  assumes "wakeup_proc rr_sched_class k p = Some k'"
  shows "\<exists>ys. run_list (rq k') = run_list (rq k) @ ys"
  using assms by (auto simp: wakeup_proc_def sched_class_enqueue_def rr_sched_class_def Let_def
      dest!: RR_enqueue_run_list split: if_splits)

lemma rr_tick_run_list [simp]: "run_list (rq (sched_class_proc_tick rr_sched_class k p)) = run_list (rq k)"
  by (simp add: sched_class_proc_tick_def rr_sched_class_def RR_proc_tick_def Let_def)

lemma rr_requeue_run_list:
  assumes "(if state (procs k c) = PROC_RUNNABLE then sched_class_enqueue rr_sched_class k c else Some k)
    = Some k'"
  shows "\<exists>ys. run_list (rq k') = run_list (rq k) @ ys"
  using assms by (auto simp: sched_class_enqueue_def rr_sched_class_def
      dest!: RR_enqueue_run_list split: if_splits)

lemma rr_schedule_run_list:
  assumes "schedule rr_sched_class k = Some k'" "run_list (rq k) = x # xs"
  shows "current k' = x \<and> (\<exists>ys. run_list (rq k') = xs @ ys)"
  using assms(1)
proof (cases rule: schedule_cases)
  case (1 k2 nx k3 k4 n)
  from rr_requeue_run_list[OF 1(1)] assms(2) obtain ys where "run_list (rq k2) = x # xs @ ys" by auto
  with 1(2-4) show ?thesis
    by (auto simp: rr_sched_class_def RR_pick_next_def RR_dequeue_def Let_def split: if_splits)
qed

text \<open>\<open>p\<close> is on the run list with at most \<open>i\<close> processes before it.\<close>

definition within :: "nat \<Rightarrow> ptr \<Rightarrow> kstate \<Rightarrow> bool" where
  "within i p k \<longleftrightarrow> p \<in> set (take (Suc i) (run_list (rq k)))"

lemma within_append: "within i p k \<Longrightarrow> run_list (rq k') = run_list (rq k) @ ys \<Longrightarrow> within i p k'"
  by (auto simp: within_def)

lemma within_schedule:
  assumes "within i p k" "schedule rr_sched_class k = Some k'" "current k' \<noteq> p"
  shows "0 < i \<and> within (i - 1) p k'"
proof (cases "run_list (rq k)")
  case (Cons x xs)
  with rr_schedule_run_list[OF assms(2) this] assms(1,3) show ?thesis
    by (cases i) (auto simp: within_def)
qed (use assms(1) in \<open>simp add: within_def\<close>)

lemma rr_serves_aux:
  assumes "sched_events rr_sched_class k es = Some k'" "within i p k"
    "i < count_list es Ev_schedule"
  shows "\<exists>pre post k''. es = pre @ post \<and> sched_events rr_sched_class k pre = Some k'' \<and> current k'' = p"
  using assms
proof (induction es arbitrary: k i)
  case (Cons e es)
  from Cons.prems(1) obtain k1 where k1: "sched_event_step rr_sched_class k e = Some k1"
    "sched_events rr_sched_class k1 es = Some k'" by (auto simp: bind_eq_Some_conv)
  show ?case
  proof (cases "e = Ev_schedule \<and> current k1 = p")
    case True
    with k1(1) show ?thesis by (intro exI[of _ "[e]"] exI[of _ es] exI[of _ k1]) simp
  next
    case False
    obtain j where "within j p k1" "j < count_list es Ev_schedule"
    proof (cases e)
      case Ev_schedule
      with False k1(1) Cons.prems within_schedule[of i p k k1] show ?thesis by (auto intro!: that)
    next
      case (Ev_wakeup q)
      with k1(1) Cons.prems rr_wakeup_run_list[of k q k1] show ?thesis
        by (auto intro!: that[of i] intro: within_append)
    next
      case Ev_tick
      with k1(1) Cons.prems show ?thesis by (auto intro!: that[of i] simp: within_def)
    qed
    from Cons.IH[OF k1(2) this] obtain pre post k'' where
      "es = pre @ post" "sched_events rr_sched_class k1 pre = Some k''" "current k'' = p" by blast
    with k1(1) show ?thesis by (intro exI[of _ "e # pre"] exI[of _ post] exI[of _ k'']) simp
  qed
qed simp

subsection \<open>Stride picks a process of least stride\<close>

definition offset :: "u32 \<Rightarrow> kstate \<Rightarrow> ptr \<Rightarrow> int" where
  "offset base k p = uint (stride (procs k p) - base)"

definition stride_inv :: "u32 \<Rightarrow> kstate \<Rightarrow> bool" where
  "stride_inv base k \<longleftrightarrow> pool_inv k \<and> key_heap (offset base k) (lab6_run_pool (rq k)) \<and>
     (\<forall>p \<in> set_tree (lab6_run_pool (rq k)). offset base k p \<le> uint BIG_STRIDE)"

lemma sint_diff_small:
  fixes x y :: u32
  assumes "uint x \<le> uint BIG_STRIDE" "uint y \<le> uint BIG_STRIDE"
  shows "sint (x - y) = uint x - uint y"
proof -
  have "uint x \<le> 2147483647" "uint y \<le> 2147483647" using assms by (simp_all add: BIG_STRIDE_def)
  moreover have "0 \<le> uint x" "0 \<le> uint y" by simp_all
  ultimately have "- 2147483648 \<le> uint x - uint y" "uint x - uint y < 2147483648"
    by linarith+
  moreover have "sint (x - y) = signed_take_bit 31 (uint x - uint y)"
  proof -
    have "uint (x - y) = take_bit 32 (uint x - uint y)" by (simp add: uint_word_ariths take_bit_eq_mod)
    then show ?thesis by (simp add: sint_uint signed_take_bit_take_bit)
  qed
  ultimately show ?thesis by (simp add: signed_take_bit_int_eq_self)
qed

lemma signed_comp_window:
  assumes "uint (a - base) \<le> uint BIG_STRIDE" "uint (b - base) \<le> uint BIG_STRIDE"
  shows "signed_comp a b = sgn (uint (a - base) - uint (b - base))"
  using sint_diff_small[OF assms] by (simp add: signed_comp_def sgn_if Let_def)

lemma stride_comp_by:
  assumes "\<forall>p \<in> S. offset base k p \<le> uint BIG_STRIDE"
  shows "comp_by (offset base k) S (proc_stride_comp_f k)"
  using assms by (auto simp: comp_by_def proc_stride_comp_f_def offset_def intro!: signed_comp_window)

lemma pass_bound: "uint (pass prio) \<le> uint BIG_STRIDE"
proof -
  have "uint (BIG_STRIDE div prio) \<le> uint BIG_STRIDE"
    by (simp add: word_le_nat_alt unat_div flip: word_le_def)
  then show ?thesis by (simp add: pass_def)
qed

lemma key_heap_shift:
  "(\<And>x. x \<in> set_tree t \<Longrightarrow> k' x = k x - c) \<Longrightarrow> key_heap k' t = key_heap k t"
  by (induction t) auto

text \<open>The window moves to a new base that no offset lies before.\<close>

lemma offset_rebase:
  assumes "offset base k p \<le> offset base k q"
  shows "offset (stride (procs k p)) k q = offset base k q - offset base k p"
proof -
  have "stride (procs k q) - stride (procs k p) =
      (stride (procs k q) - base) - (stride (procs k p) - base)" by simp
  then show ?thesis using assms unfolding offset_def
    by (metis uint_sub_lem)
qed

lemma stride_inv_rebase:
  assumes "stride_inv base k" "\<forall>q \<in> set_tree (lab6_run_pool (rq k)). offset base k p \<le> offset base k q"
  shows "stride_inv (stride (procs k p)) k"
proof -
  have o: "offset (stride (procs k p)) k q = offset base k q - offset base k p"
    if "q \<in> set_tree (lab6_run_pool (rq k))" for q using offset_rebase assms(2) that by blast
  moreover have "0 \<le> offset base k p" by (simp add: offset_def)
  ultimately show ?thesis using assms(1) key_heap_shift[OF o]
    by (fastforce simp: stride_inv_def)
qed

lemma key_heap_cong: "(\<And>x. x \<in> set_tree t \<Longrightarrow> k' x = k x) \<Longrightarrow> key_heap k' t = key_heap k t"
  by (rule key_heap_shift[of _ _ _ 0]) simp

lemma stride_inv_frame:
  assumes "rq k' = rq k" "\<And>p. p \<in> set_tree (lab6_run_pool (rq k)) \<Longrightarrow> stride (procs k' p) = stride (procs k p)"
  shows "stride_inv base k' = stride_inv base k"
proof -
  have "offset base k' p = offset base k p" if "p \<in> set_tree (lab6_run_pool (rq k))" for p
    using assms(2)[OF that] by (simp add: offset_def)
  then show ?thesis using key_heap_cong[of "lab6_run_pool (rq k)" "offset base k'" "offset base k"] assms(1)
    by (simp add: stride_inv_def pool_inv_def)
qed

lemma stride_inv_enqueue:
  assumes "stride_inv base k" "p \<notin> set_tree (lab6_run_pool (rq k))"
    "offset base k p \<le> uint BIG_STRIDE" "stride_enqueue k p = Some k'"
  shows "stride_inv base k' \<and> set_tree (lab6_run_pool (rq k')) = insert p (set_tree (lab6_run_pool (rq k))) \<and>
    (\<forall>q. stride (procs k' q) = stride (procs k q))"
proof -
  let ?t = "tinsert (proc_stride_comp_f k) (lab6_run_pool (rq k)) p"
  from assms(4) have k': "lab6_run_pool (rq k') = ?t" "proc_num (rq k') = proc_num (rq k) + 1"
    and st: "stride (procs k' q) = stride (procs k q)" for q
    by (auto simp: stride_enqueue_def Let_def)
  from pool_insert_inv[OF _ assms(2) k'] assms(1) have pi: "pool_inv k'"
    "set_tree (lab6_run_pool (rq k')) = insert p (set_tree (lab6_run_pool (rq k)))"
    by (auto simp: stride_inv_def)
  have off: "offset base k' = offset base k" by (simp add: fun_eq_iff offset_def st)
  have "key_heap (offset base k) ?t"
    unfolding tinsert_def using assms(1,3)
    by (intro key_heap_tmerge stride_comp_by) (auto simp: stride_inv_def)
  with pi st assms(1,3) show ?thesis by (simp add: stride_inv_def off k'(1))
qed

lemma stride_inv_pick_dequeue:
  assumes "stride_inv base k" "stride_pick_next k = (Some p, k1)" "stride_dequeue k1 p = Some k2"
  shows "p \<in> set_tree (lab6_run_pool (rq k))"
    "\<forall>q \<in> set_tree (lab6_run_pool (rq k)). offset base k p \<le> offset base k q"
    "stride_inv (stride (procs k p)) k2"
    "set_tree (lab6_run_pool (rq k2)) = set_tree (lab6_run_pool (rq k)) - {p}"
    "offset (stride (procs k p)) k2 p \<le> uint BIG_STRIDE"
proof -
  from assms(2) obtain l r where t: "lab6_run_pool (rq k) = Node l p r"
    and k1: "k1 = upd_proc p (\<lambda>q. q\<lparr>stride := stride q + pass (priority q)\<rparr>) k"
    by (cases "lab6_run_pool (rq k)") (auto simp: stride_pick_next_def)
  from assms(3) t have k2: "lab6_run_pool (rq k2) = tmerge (proc_stride_comp_f k1) l r"
    "proc_num (rq k2) = proc_num (rq k) - 1" "procs k2 = procs k1"
    by (auto simp: stride_dequeue_def k1 Let_def)
  show "p \<in> set_tree (lab6_run_pool (rq k))" using t by simp
  show min: "\<forall>q \<in> set_tree (lab6_run_pool (rq k)). offset base k p \<le> offset base k q"
    using assms(1) t by (auto simp: stride_inv_def)
  let ?b = "stride (procs k p)"
  have inv: "stride_inv ?b k" using stride_inv_rebase[OF assms(1) min] .
  then have d: "p \<notin> set_tree l" "p \<notin> set_tree r" using t by (auto simp: stride_inv_def pool_inv_def)
  have off: "offset ?b k2 q = offset ?b k q" "offset ?b k1 q = offset ?b k q"
    if "q \<in> set_tree l \<union> set_tree r" for q
  proof -
    have "q \<noteq> p" using that d by auto
    then show "offset ?b k2 q = offset ?b k q" "offset ?b k1 q = offset ?b k q"
      by (simp_all add: offset_def k2(3) k1)
  qed
  have c: "comp_by (offset ?b k1) (set_tree l \<union> set_tree r) (proc_stride_comp_f k1)"
    using inv t off(2) by (intro stride_comp_by) (auto simp: stride_inv_def)
  have "key_heap (offset ?b k1) l = key_heap (offset ?b k) l" "key_heap (offset ?b k1) r = key_heap (offset ?b k) r"
    using off(2) by (auto intro!: key_heap_cong)
  with c inv t have "key_heap (offset ?b k1) (lab6_run_pool (rq k2))"
    unfolding k2(1) by (intro key_heap_tmerge) (auto simp: stride_inv_def)
  moreover have "offset ?b k2 = offset ?b k1" by (simp add: fun_eq_iff offset_def k2(3))
  moreover have pr: "pool_inv k2 \<and> set_tree (lab6_run_pool (rq k2)) = set_tree (lab6_run_pool (rq k)) - {p}"
    using inv k2 t by (intro pool_remove_inv[of _ _ _ "proc_stride_comp_f k1"]) (auto simp: stride_inv_def)
  ultimately show "stride_inv ?b k2" using inv off(2) t d by (auto simp: stride_inv_def)
  from pr show "set_tree (lab6_run_pool (rq k2)) = set_tree (lab6_run_pool (rq k)) - {p}" ..
  show "offset ?b k2 p \<le> uint BIG_STRIDE" by (simp add: offset_def k2(3) k1 pass_bound)
qed

definition stride_sched_inv :: "u32 \<Rightarrow> kstate \<Rightarrow> bool" where
  "stride_sched_inv base k \<longleftrightarrow> stride_inv base k \<and>
     current k \<notin> queued STRIDE k \<and> idleproc k \<notin> queued STRIDE k \<and>
     (current k \<noteq> idleproc k \<longrightarrow> offset base k (current k) \<le> uint BIG_STRIDE)"

text \<open>The processes \<^verbatim>\<open>schedule\<close> chooses from: the queue, and the running one if it may go on.\<close>

definition candidates :: "sched_id \<Rightarrow> kstate \<Rightarrow> ptr set" where
  "candidates c k = queued c k \<union>
     (if state (procs k (current k)) = PROC_RUNNABLE \<and> current k \<noteq> idleproc k then {current k} else {})"

lemma stride_requeue:
  assumes "stride_sched_inv base k"
    and "(let k1 = upd_proc (current k) (\<lambda>q. q\<lparr>need_resched := False\<rparr>) k in
      if state (procs k1 (current k)) = PROC_RUNNABLE
      then sched_class_enqueue stride_sched_class k1 (current k) else Some k1) = Some k2"
  shows "stride_inv base k2 \<and> queued STRIDE k2 = candidates STRIDE k \<and>
    (\<forall>q. offset base k2 q = offset base k q) \<and> idleproc k2 = idleproc k"
proof -
  let ?k1 = "upd_proc (current k) (\<lambda>q. q\<lparr>need_resched := False\<rparr>) k"
  have st: "stride (procs ?k1 q) = stride (procs k q)" for q by simp
  have i1: "stride_inv base ?k1"
    using assms(1) st stride_inv_frame[of ?k1 k base] by (simp add: stride_sched_inv_def)
  show ?thesis
  proof (cases "state (procs k (current k)) = PROC_RUNNABLE \<and> current k \<noteq> idleproc k")
    case True
    then have e: "stride_enqueue ?k1 (current k) = Some k2"
      using assms(2) by (simp add: sched_class_enqueue_def stride_sched_class_def)
    then have "idleproc k2 = idleproc k" by (auto simp: stride_enqueue_def refill_slice_def Let_def)
    moreover have "current k \<notin> set_tree (lab6_run_pool (rq ?k1))" "offset base ?k1 (current k) \<le> uint BIG_STRIDE"
      using assms(1) True by (simp_all add: stride_sched_inv_def offset_def)
    from stride_inv_enqueue[OF i1 this e] have "stride_inv base k2 \<and> queued STRIDE k2 = candidates STRIDE k \<and>
        (\<forall>q. stride (procs k2 q) = stride (procs k q))"
      using True st by (simp add: candidates_def)
    ultimately show ?thesis by (simp add: offset_def)
  next
    case False
    then have "k2 = ?k1" using assms(2) by (auto simp: sched_class_enqueue_def Let_def split: if_splits)
    with False i1 show ?thesis by (auto simp: candidates_def offset_def)
  qed
qed

lemma stride_schedule_aux:
  assumes inv: "stride_sched_inv base k" and "schedule stride_sched_class k = Some k'"
  shows "(\<exists>b. stride_sched_inv b k') \<and>
    (candidates STRIDE k = {} \<longrightarrow> current k' = idleproc k) \<and>
    (candidates STRIDE k \<noteq> {} \<longrightarrow> current k' \<in> candidates STRIDE k \<and>
       (\<forall>q \<in> candidates STRIDE k. offset base k (current k') \<le> offset base k q))"
  using assms(2)
proof (cases rule: schedule_cases)
  case (1 k2 nx k3 k4 n)
  from stride_requeue[OF inv] 1(1) have k2: "stride_inv base k2" "queued STRIDE k2 = candidates STRIDE k"
    "\<And>q. offset base k2 q = offset base k q" "idleproc k2 = idleproc k" by simp_all
  show ?thesis
  proof (cases nx)
    case None
    with 1(2-4) have e: "candidates STRIDE k = {}" "k4 = k2" "n = idleproc k2"
      using k2(2) by (auto simp: stride_sched_class_def stride_pick_next_def split: option.splits)
    have "stride_inv base k' = stride_inv base k2" using 1(4) e(2) by (intro stride_inv_frame) auto
    with e k2 1(4) show ?thesis by (auto simp: stride_sched_inv_def)
  next
    case (Some p)
    with 1(2,3) have pd: "stride_pick_next k2 = (Some p, k3)" "stride_dequeue k3 p = Some k4" "n = p"
      by (simp_all add: stride_sched_class_def)
    let ?b = "stride (procs k2 p)"
    note F = stride_inv_pick_dequeue[OF k2(1) pd(1,2)]
    have "stride_inv ?b k' = stride_inv ?b k4" using 1(4) by (intro stride_inv_frame) auto
    moreover have "idleproc k' = idleproc k2"
      using 1(4) pd by (auto simp: stride_pick_next_def stride_dequeue_def Let_def split: option.splits)
    moreover have "idleproc k2 \<notin> candidates STRIDE k"
      using inv k2(4) by (auto simp: stride_sched_inv_def candidates_def)
    moreover have "offset ?b k' p = offset ?b k4 p" using 1(4) pd(3) by (simp add: offset_def)
    ultimately have "stride_sched_inv ?b k'"
      using F 1(4) pd(3) k2(2) by (auto simp: stride_sched_inv_def)
    with F(1,2) k2(2,3) 1(4) pd(3) show ?thesis by auto
  qed
qed

subsection \<open>Properties\<close>



text \<open>
  C7. \<^verbatim>\<open>wakeup_proc\<close> makes any process that is not a zombie runnable, and puts it on the run queue
  unless it is running, idle or was runnable already; no other runnable process is lost.
\<close>

theorem wakeup_proc_queues:
  assumes "class_inv c k" "runnable_ok (queued c k) A k" "state (procs k p) \<noteq> PROC_ZOMBIE"
  shows "\<exists>k'. wakeup_proc (class_of c) k p = Some k' \<and> class_inv c k' \<and>
     runnable_ok (queued c k') A k' \<and>
     (p \<notin> {current k, idleproc k} \<longrightarrow> state (procs k p) \<noteq> PROC_RUNNABLE \<longrightarrow> p \<in> queued c k') \<and>
     state (procs k' p) = PROC_RUNNABLE \<and> current k' = current k"
  using sched_ok.wakeup_proc_ok[OF class_sched_ok assms] .

theorem wakeup_proc_queues_witness:
  "\<exists>k'. wakeup_proc (class_of STRIDE) (demo_kstate STRIDE [] (Node Leaf 2 Leaf) [1, 2] 1) 3 = Some k' \<and>
     3 \<in> queued STRIDE k'"
proof -
  let ?k = "demo_kstate STRIDE [] (Node Leaf 2 Leaf) [1, 2] 1"
  have "class_inv STRIDE ?k" "runnable_ok (queued STRIDE ?k) {1, 2} ?k"
    "state (procs ?k 3) \<noteq> PROC_ZOMBIE" "3 \<notin> {current ?k, idleproc ?k}"
    "state (procs ?k 3) \<noteq> PROC_RUNNABLE"
    by (auto simp: demo_defs pool_inv_def runnable_ok_def)
  with wakeup_proc_queues[of STRIDE ?k "{1, 2}" 3] show ?thesis by blast
qed

text \<open>
  C2. Round robin starves no one: a process with at most \<open>i\<close> processes before it on the run list
  has run after any sequence of events (calls of \<^verbatim>\<open>schedule\<close>, wake-ups, clock ticks) that contains
  more than \<open>i\<close> calls of \<^verbatim>\<open>schedule\<close>.
\<close>

theorem rr_serves_every_process:
  assumes "sched_events (class_of RR) k es = Some k'" "within i p k" "i < count_list es Ev_schedule"
  shows "\<exists>pre post k''. es = pre @ post \<and> sched_events (class_of RR) k pre = Some k'' \<and> current k'' = p"
  using rr_serves_aux assms by simp

theorem rr_serves_every_process_witness:
  "\<exists>pre post k''. [Ev_schedule, Ev_wakeup 4, Ev_tick, Ev_schedule] = pre @ post \<and>
     sched_events (class_of RR) (demo_kstate RR [2, 3] Leaf [1, 2, 3] 1) pre = Some k'' \<and> current k'' = 3"
proof -
  let ?k = "demo_kstate RR [2, 3] Leaf [1, 2, 3] 1"
  let ?es = "[Ev_schedule, Ev_wakeup 4, Ev_tick, Ev_schedule]"
  have "sched_events (class_of RR) ?k ?es \<noteq> None"
    by (simp add: demo_defs schedule_def wakeup_proc_def sched_class_enqueue_def sched_class_dequeue_def
        sched_class_pick_next_def sched_class_proc_tick_def rr_sched_class_def RR_enqueue_def
        RR_dequeue_def RR_pick_next_def RR_proc_tick_def refill_slice_def proc_run_def upd_proc_def
        upd_rq_def Let_def)
  then obtain k' where "sched_events (class_of RR) ?k ?es = Some k'" by blast
  moreover have "within 1 3 ?k" "1 < count_list ?es Ev_schedule" by (simp_all add: within_def demo_defs)
  ultimately show ?thesis by (rule rr_serves_every_process)
qed

text \<open>
  C3. The stride scheduler runs a process of least stride, although 32-bit strides wrap around: if the
  strides of the queued processes and of the running one lie within \<^verbatim>\<open>BIG_STRIDE\<close> of a base
  and the pool is heap ordered, \<^verbatim>\<open>schedule\<close> chooses a candidate whose offset from the base is
  least (the idle process if there is no candidate), and again leaves all strides within
  \<^verbatim>\<open>BIG_STRIDE\<close> of some base and the pool heap ordered.
\<close>

theorem stride_schedule_least:
  assumes "stride_sched_inv base k" "schedule (class_of STRIDE) k = Some k'"
  shows "(\<exists>b. stride_sched_inv b k') \<and>
    (candidates STRIDE k = {} \<longrightarrow> current k' = idleproc k) \<and>
    (candidates STRIDE k \<noteq> {} \<longrightarrow> current k' \<in> candidates STRIDE k \<and>
       (\<forall>q \<in> candidates STRIDE k. offset base k (current k') \<le> offset base k q))"
  using stride_schedule_aux assms by simp

theorem stride_schedule_least_witness:
  "\<exists>k' b. schedule (class_of STRIDE) (demo_kstate STRIDE [] (Node Leaf 2 Leaf) [1, 2] 1) = Some k' \<and>
     stride_sched_inv b k'"
proof -
  let ?k = "demo_kstate STRIDE [] (Node Leaf 2 Leaf) [1, 2] 1"
  have "stride_sched_inv 0 ?k"
    by (simp add: demo_defs stride_sched_inv_def stride_inv_def offset_def pool_inv_def BIG_STRIDE_def)
  moreover have "schedule (class_of STRIDE) ?k \<noteq> None"
    by (simp add: demo_defs schedule_def sched_class_enqueue_def sched_class_dequeue_def
        sched_class_pick_next_def stride_sched_class_def stride_enqueue_def proc_stride_comp_f_def
        signed_comp_def stride_dequeue_def stride_pick_next_def refill_slice_def proc_run_def
        upd_proc_def upd_rq_def tinsert_def Let_def)
  then obtain k' where "schedule (class_of STRIDE) ?k = Some k'" by blast
  ultimately show ?thesis using stride_schedule_least by blast
qed

end
