(* ===== verification/Sync.thy ===== *)
theory Sync
  imports Sched_Fair
begin

text \<open>
  \<^verbatim>\<open>kern/sync\<close>: wait queues (\<^verbatim>\<open>wait.c\<close>), semaphores (\<^verbatim>\<open>sem.c\<close>) and monitors (\<^verbatim>\<open>monitor.c\<close>).
  The bodies run with interrupts disabled, so each part of an operation between two switches is one
  step. \<^verbatim>\<open>__down\<close> is two of them: \<open>down_begin\<close> up to its call of \<^verbatim>\<open>schedule\<close>, and \<open>down_end\<close> when
  the process runs again. The \<^verbatim>\<open>wait_t\<close> of \<^verbatim>\<open>__down\<close> lies on the kernel stack of the calling
  process and is named by that process. An inductive relation interleaves the steps of any number of
  processes on any number of semaphores; its invariant gives mutual exclusion and that no assertion
  fails.
\<close>

type_synonym qid = nat

text \<open>\<open>linked\<close> is the negation of \<^verbatim>\<open>list_empty(&wait->wait_link)\<close>.\<close>

record wait =
  wproc :: ptr
  wakeup_flags :: u32
  wait_queue :: qid
  linked :: bool

record ksync =
  kst :: kstate
  waits :: "ptr \<Rightarrow> wait"
  queues :: "qid \<Rightarrow> ptr list"
  svalue :: "qid \<Rightarrow> int"

definition upd_wait :: "ptr \<Rightarrow> (wait \<Rightarrow> wait) \<Rightarrow> ksync \<Rightarrow> ksync" where
  "upd_wait w f s = s\<lparr>waits := (waits s)(w := f (waits s w))\<rparr>"

definition set_queue :: "qid \<Rightarrow> ptr list \<Rightarrow> ksync \<Rightarrow> ksync" where
  "set_queue q xs s = s\<lparr>queues := (queues s)(q := xs)\<rparr>"

definition set_svalue :: "qid \<Rightarrow> int \<Rightarrow> ksync \<Rightarrow> ksync" where
  "set_svalue q v s = s\<lparr>svalue := (svalue s)(q := v)\<rparr>"

subsection \<open>Wait queues (wait.c)\<close>

definition wait_init :: "ksync \<Rightarrow> ptr \<Rightarrow> ptr \<Rightarrow> ksync" where
  "wait_init s w p = upd_wait w (\<lambda>x. x\<lparr>wproc := p, wakeup_flags := WT_INTERRUPTED, linked := False\<rparr>) s"

definition wait_queue_init :: "ksync \<Rightarrow> qid \<Rightarrow> ksync" where
  "wait_queue_init s q = set_queue q [] s"

definition wait_queue_add :: "ksync \<Rightarrow> qid \<Rightarrow> ptr \<Rightarrow> ksync option" where
  "wait_queue_add s q w = do {
     kassert (\<not> linked (waits s w));
     let s = upd_wait w (\<lambda>x. x\<lparr>wait_queue := q, linked := True\<rparr>) s;
     Some (set_queue q (queues s q @ [w]) s) }"

definition wait_queue_del :: "ksync \<Rightarrow> qid \<Rightarrow> ptr \<Rightarrow> ksync option" where
  "wait_queue_del s q w = do {
     kassert (linked (waits s w) \<and> wait_queue (waits s w) = q);
     let s = upd_wait w (\<lambda>x. x\<lparr>linked := False\<rparr>) s;
     Some (set_queue q (remove1 w (queues s q)) s) }"

text \<open>The entry after (before) \<open>w\<close> on a list, if there is one.\<close>

fun entry_after :: "'a \<Rightarrow> 'a list \<Rightarrow> 'a option" where
  "entry_after w (x # y # xs) = (if x = w then Some y else entry_after w (y # xs))"
| "entry_after w _ = None"

definition wait_queue_next :: "ksync \<Rightarrow> qid \<Rightarrow> ptr \<Rightarrow> ptr option option" where
  "wait_queue_next s q w = do {
     kassert (linked (waits s w) \<and> wait_queue (waits s w) = q);
     Some (entry_after w (queues s q)) }"

definition wait_queue_prev :: "ksync \<Rightarrow> qid \<Rightarrow> ptr \<Rightarrow> ptr option option" where
  "wait_queue_prev s q w = do {
     kassert (linked (waits s w) \<and> wait_queue (waits s w) = q);
     Some (entry_after w (rev (queues s q))) }"

definition wait_queue_first :: "ksync \<Rightarrow> qid \<Rightarrow> ptr option" where
  "wait_queue_first s q = (case queues s q of [] \<Rightarrow> None | w # _ \<Rightarrow> Some w)"

definition wait_queue_last :: "ksync \<Rightarrow> qid \<Rightarrow> ptr option" where
  "wait_queue_last s q = (if queues s q = [] then None else Some (last (queues s q)))"

definition wait_queue_empty :: "ksync \<Rightarrow> qid \<Rightarrow> bool" where
  "wait_queue_empty s q = (queues s q = [])"

definition wait_in_queue :: "ksync \<Rightarrow> ptr \<Rightarrow> bool" where
  "wait_in_queue s w = linked (waits s w)"

definition wakeup_wait :: "sched_class \<Rightarrow> ksync \<Rightarrow> qid \<Rightarrow> ptr \<Rightarrow> u32 \<Rightarrow> bool \<Rightarrow> ksync option" where
  "wakeup_wait C s q w fl del = do {
     s \<leftarrow> (if del then wait_queue_del s q w else Some s);
     let s = upd_wait w (\<lambda>x. x\<lparr>wakeup_flags := fl\<rparr>) s;
     k \<leftarrow> wakeup_proc C (kst s) (wproc (waits s w));
     Some (s\<lparr>kst := k\<rparr>) }"

definition wakeup_first :: "sched_class \<Rightarrow> ksync \<Rightarrow> qid \<Rightarrow> u32 \<Rightarrow> bool \<Rightarrow> ksync option" where
  "wakeup_first C s q fl del =
     (case wait_queue_first s q of None \<Rightarrow> Some s | Some w \<Rightarrow> wakeup_wait C s q w fl del)"

text \<open>The loops of \<^verbatim>\<open>wakeup_queue\<close>, over the entries the queue holds when it is called.\<close>

fun wakeup_list :: "sched_class \<Rightarrow> ksync \<Rightarrow> qid \<Rightarrow> ptr list \<Rightarrow> u32 \<Rightarrow> bool \<Rightarrow> ksync option" where
  "wakeup_list C s q [] fl del = Some s"
| "wakeup_list C s q (w # ws) fl del = do {
     s \<leftarrow> wakeup_wait C s q w fl del;
     wakeup_list C s q ws fl del }"

definition wakeup_queue :: "sched_class \<Rightarrow> ksync \<Rightarrow> qid \<Rightarrow> u32 \<Rightarrow> bool \<Rightarrow> ksync option" where
  "wakeup_queue C s q fl del = wakeup_list C s q (queues s q) fl del"

definition wait_current_set :: "ksync \<Rightarrow> qid \<Rightarrow> ptr \<Rightarrow> u32 \<Rightarrow> ksync option" where
  "wait_current_set s q w ws = do {
     let c = current (kst s);
     let s = wait_init s w c;
     let s = s\<lparr>kst := upd_proc c (\<lambda>p. p\<lparr>state := PROC_SLEEPING, wait_state := ws\<rparr>) (kst s)\<rparr>;
     wait_queue_add s q w }"

definition wait_current_del :: "ksync \<Rightarrow> qid \<Rightarrow> ptr \<Rightarrow> ksync option" where
  "wait_current_del s q w = (if wait_in_queue s w then wait_queue_del s q w else Some s)"

subsection \<open>Semaphores (sem.c)\<close>

definition sem_init :: "ksync \<Rightarrow> qid \<Rightarrow> int \<Rightarrow> ksync" where
  "sem_init s q v = wait_queue_init (set_svalue q v s) q"

definition up_sem :: "sched_class \<Rightarrow> ksync \<Rightarrow> qid \<Rightarrow> u32 \<Rightarrow> ksync option" where
  "up_sem C s q ws =
     (case wait_queue_first s q of
        None \<Rightarrow> Some (set_svalue q (svalue s q + 1) s)
      | Some w \<Rightarrow> do {
          kassert (wait_state (procs (kst s) (wproc (waits s w))) = ws);
          wakeup_wait C s q w ws True })"

text \<open>\<open>True\<close>: the value was positive and the call returns 0 at once.\<close>

definition down_begin :: "sched_class \<Rightarrow> ksync \<Rightarrow> qid \<Rightarrow> u32 \<Rightarrow> (bool \<times> ksync) option" where
  "down_begin C s q ws =
     (if svalue s q > 0 then Some (True, set_svalue q (svalue s q - 1) s)
      else do {
        s \<leftarrow> wait_current_set s q (current (kst s)) ws;
        k \<leftarrow> schedule C (kst s);
        Some (False, s\<lparr>kst := k\<rparr>) })"

definition down_end :: "ksync \<Rightarrow> qid \<Rightarrow> ptr \<Rightarrow> u32 \<Rightarrow> (u32 \<times> ksync) option" where
  "down_end s q w ws = do {
     s \<leftarrow> wait_current_del s q w;
     Some (if wakeup_flags (waits s w) \<noteq> ws then wakeup_flags (waits s w) else 0, s) }"

definition up :: "sched_class \<Rightarrow> ksync \<Rightarrow> qid \<Rightarrow> ksync option" where
  "up C s q = up_sem C s q WT_KSEM"

definition down_start :: "sched_class \<Rightarrow> ksync \<Rightarrow> qid \<Rightarrow> (bool \<times> ksync) option" where
  "down_start C s q = down_begin C s q WT_KSEM"

definition down_finish :: "ksync \<Rightarrow> qid \<Rightarrow> ptr \<Rightarrow> ksync option" where
  "down_finish s q w = do {
     (fl, s) \<leftarrow> down_end s q w WT_KSEM;
     kassert (fl = 0);
     Some s }"

definition try_down :: "ksync \<Rightarrow> qid \<Rightarrow> bool \<times> ksync" where
  "try_down s q = (if svalue s q > 0 then (True, set_svalue q (svalue s q - 1) s) else (False, s))"

subsection \<open>Monitors (monitor.c)\<close>

text \<open>
  A monitor's semaphores \<^verbatim>\<open>mutex\<close>, \<^verbatim>\<open>next\<close> and those of its condition variables are named by the
  queue ids of the record; each operation is cut at its blocking call.
\<close>

record condvar =
  csem :: qid
  ccount :: int

record monitor =
  mutex :: qid
  nextsem :: qid
  next_count :: int
  cv :: "condvar list"

definition monitor_init :: "ksync \<Rightarrow> qid \<Rightarrow> qid \<Rightarrow> qid list \<Rightarrow> (monitor \<times> ksync) option" where
  "monitor_init s mx nx sems = do {
     kassert (length sems > 0);
     let s = sem_init s mx 1;
     let s = sem_init s nx 0;
     Some (\<lparr>mutex = mx, nextsem = nx, next_count = 0, cv = map (\<lambda>q. \<lparr>csem = q, ccount = 0\<rparr>) sems\<rparr>,
           fold (\<lambda>q s. sem_init s q 0) sems s) }"

definition upd_count :: "nat \<Rightarrow> int \<Rightarrow> monitor \<Rightarrow> monitor" where
  "upd_count i d m = m\<lparr>cv := (cv m)[i := (cv m ! i)\<lparr>ccount := ccount (cv m ! i) + d\<rparr>]\<rparr>"

definition cond_signal_begin :: "sched_class \<Rightarrow> ksync \<Rightarrow> monitor \<Rightarrow> nat \<Rightarrow> (bool \<times> monitor \<times> ksync) option" where
  "cond_signal_begin C s m i =
     (if ccount (cv m ! i) > 0 then do {
        let m = m\<lparr>next_count := next_count m + 1\<rparr>;
        s \<leftarrow> up C s (csem (cv m ! i));
        (r, s) \<leftarrow> down_start C s (nextsem m);
        Some (r, m, s) }
      else Some (True, m, s))"

definition cond_signal_end :: "monitor \<Rightarrow> monitor" where
  "cond_signal_end m = m\<lparr>next_count := next_count m - 1\<rparr>"

definition cond_wait_begin :: "sched_class \<Rightarrow> ksync \<Rightarrow> monitor \<Rightarrow> nat \<Rightarrow> (bool \<times> monitor \<times> ksync) option" where
  "cond_wait_begin C s m i = do {
     let m = upd_count i 1 m;
     s \<leftarrow> (if next_count m > 0 then up C s (nextsem m) else up C s (mutex m));
     (r, s) \<leftarrow> down_start C s (csem (cv m ! i));
     Some (r, m, s) }"

definition cond_wait_end :: "monitor \<Rightarrow> nat \<Rightarrow> monitor" where
  "cond_wait_end m i = upd_count i (- 1) m"

subsection \<open>Interleavings\<close>

text \<open>
  A system state: the kernel, for each process the semaphore in whose \<^verbatim>\<open>down\<close> it is (if any),
  and for each semaphore the processes to which it is granted (a history variable: granted by a
  \<^verbatim>\<open>down\<close> that found the value positive, or handed over by \<^verbatim>\<open>up\<close>).
\<close>

record sem_sys =
  sy :: ksync
  blocked :: "ptr \<Rightarrow> qid option"
  granted :: "qid \<Rightarrow> ptr list"

inductive sem_step :: "sched_class \<Rightarrow> sem_sys \<Rightarrow> sem_sys \<Rightarrow> bool" for C where
  Down_fast: "c = current (kst (sy x)) \<Longrightarrow> blocked x c = None \<Longrightarrow> down_start C (sy x) q = Some (True, s') \<Longrightarrow>
    sem_step C x (x\<lparr>sy := s', granted := (granted x)(q := c # granted x q)\<rparr>)"
| Down_block: "c = current (kst (sy x)) \<Longrightarrow> blocked x c = None \<Longrightarrow> c \<noteq> idleproc (kst (sy x)) \<Longrightarrow>
    down_start C (sy x) q = Some (False, s') \<Longrightarrow>
    sem_step C x (x\<lparr>sy := s', blocked := (blocked x)(c := Some q)\<rparr>)"
| Down_resume: "c = current (kst (sy x)) \<Longrightarrow> blocked x c = Some q \<Longrightarrow> down_finish (sy x) q c = Some s' \<Longrightarrow>
    sem_step C x (x\<lparr>sy := s', blocked := (blocked x)(c := None)\<rparr>)"
| Up: "c = current (kst (sy x)) \<Longrightarrow> blocked x c = None \<Longrightarrow> c \<in> set (granted x q) \<Longrightarrow>
    up C (sy x) q = Some s' \<Longrightarrow>
    sem_step C x (x\<lparr>sy := s', granted := (granted x)(q := remove1 c (granted x q) @ take 1 (queues (sy x) q))\<rparr>)"
| Preempt: "schedule C (kst (sy x)) = Some k' \<Longrightarrow> sem_step C x (x\<lparr>sy := (sy x)\<lparr>kst := k'\<rparr>\<rparr>)"

definition sem_inv :: "(kstate \<Rightarrow> bool) \<Rightarrow> (kstate \<Rightarrow> ptr set) \<Rightarrow> (qid \<Rightarrow> int) \<Rightarrow> sem_sys \<Rightarrow> bool" where
  "sem_inv ci Q I x \<longleftrightarrow> ci (kst (sy x)) \<and> runnable_ok (Q (kst (sy x))) {} (kst (sy x)) \<and>
     (current (kst (sy x)) = idleproc (kst (sy x)) \<or>
        state (procs (kst (sy x)) (current (kst (sy x)))) = PROC_RUNNABLE) \<and>
     blocked x (idleproc (kst (sy x))) = None \<and>
     (\<forall>q. distinct (queues (sy x) q) \<and> 0 \<le> svalue (sy x) q \<and>
        (0 < svalue (sy x) q \<longrightarrow> queues (sy x) q = []) \<and>
        svalue (sy x) q + int (length (granted x q)) = I q) \<and>
     (\<forall>q. \<forall>w \<in> set (queues (sy x) q). blocked x w = Some q) \<and>
     (\<forall>w q. blocked x w = Some q \<longrightarrow>
        (if w \<in> set (queues (sy x) q)
         then linked (waits (sy x) w) \<and> wait_queue (waits (sy x) w) = q \<and> wproc (waits (sy x) w) = w \<and>
           state (procs (kst (sy x)) w) = PROC_SLEEPING \<and> wait_state (procs (kst (sy x)) w) = WT_KSEM
         else \<not> linked (waits (sy x) w) \<and> wakeup_flags (waits (sy x) w) = WT_KSEM \<and>
           state (procs (kst (sy x)) w) = PROC_RUNNABLE \<and> w \<in> set (granted x q)))"

lemma sem_invI:
  assumes "ci (kst (sy x))" "runnable_ok (Q (kst (sy x))) {} (kst (sy x))"
    "current (kst (sy x)) = idleproc (kst (sy x)) \<or>
        state (procs (kst (sy x)) (current (kst (sy x)))) = PROC_RUNNABLE"
    "blocked x (idleproc (kst (sy x))) = None"
    "\<And>q. distinct (queues (sy x) q)" "\<And>q. 0 \<le> svalue (sy x) q"
    "\<And>q. 0 < svalue (sy x) q \<Longrightarrow> queues (sy x) q = []"
    "\<And>q. svalue (sy x) q + int (length (granted x q)) = I q"
    "\<And>q w. w \<in> set (queues (sy x) q) \<Longrightarrow> blocked x w = Some q \<and> linked (waits (sy x) w) \<and>
       wait_queue (waits (sy x) w) = q \<and> wproc (waits (sy x) w) = w \<and>
       state (procs (kst (sy x)) w) = PROC_SLEEPING \<and> wait_state (procs (kst (sy x)) w) = WT_KSEM"
    "\<And>q w. blocked x w = Some q \<Longrightarrow> w \<notin> set (queues (sy x) q) \<Longrightarrow> \<not> linked (waits (sy x) w) \<and>
       wakeup_flags (waits (sy x) w) = WT_KSEM \<and> state (procs (kst (sy x)) w) = PROC_RUNNABLE \<and> w \<in> set (granted x q)"
  shows "sem_inv ci Q I x"
  using assms unfolding sem_inv_def by simp

lemma sem_invD:
  assumes "sem_inv ci Q I x"
  shows "ci (kst (sy x))" "runnable_ok (Q (kst (sy x))) {} (kst (sy x))"
    "current (kst (sy x)) = idleproc (kst (sy x)) \<or>
        state (procs (kst (sy x)) (current (kst (sy x)))) = PROC_RUNNABLE"
    "blocked x (idleproc (kst (sy x))) = None"
    "distinct (queues (sy x) q)" "0 \<le> svalue (sy x) q" "0 < svalue (sy x) q \<Longrightarrow> queues (sy x) q = []"
    "svalue (sy x) q + int (length (granted x q)) = I q"
    "w \<in> set (queues (sy x) q) \<Longrightarrow> blocked x w = Some q \<and> linked (waits (sy x) w) \<and>
       wait_queue (waits (sy x) w) = q \<and> wproc (waits (sy x) w) = w \<and>
       state (procs (kst (sy x)) w) = PROC_SLEEPING \<and> wait_state (procs (kst (sy x)) w) = WT_KSEM"
    "blocked x w = Some q \<Longrightarrow> w \<notin> set (queues (sy x) q) \<Longrightarrow> \<not> linked (waits (sy x) w) \<and>
       wakeup_flags (waits (sy x) w) = WT_KSEM \<and> state (procs (kst (sy x)) w) = PROC_RUNNABLE \<and> w \<in> set (granted x q)"
  using assms unfolding sem_inv_def by (auto split: if_splits)

lemma sync_upd_sel [simp]:
  "kst (upd_wait w f s) = kst s" "queues (upd_wait w f s) = queues s" "svalue (upd_wait w f s) = svalue s"
  "waits (upd_wait w f s) u = (if u = w then f (waits s w) else waits s u)"
  "kst (set_queue q l s) = kst s" "waits (set_queue q l s) = waits s" "svalue (set_queue q l s) = svalue s"
  "queues (set_queue q l s) r = (if r = q then l else queues s r)"
  "kst (set_svalue q v s) = kst s" "waits (set_svalue q v s) = waits s" "queues (set_svalue q v s) = queues s"
  "svalue (set_svalue q v s) r = (if r = q then v else svalue s r)"
  by (simp_all add: upd_wait_def set_queue_def set_svalue_def)

context sched_ok
begin

abbreviation sinv :: "(qid \<Rightarrow> int) \<Rightarrow> sem_sys \<Rightarrow> bool" where
  "sinv I x \<equiv> sem_inv cinv Q I x"

lemma preempt_inv:
  assumes "sinv I x" "schedule C (kst (sy x)) = Some k'"
  shows "sinv I (x\<lparr>sy := (sy x)\<lparr>kst := k'\<rparr>\<rparr>)"
proof -
  note D = sem_invD[OF assms(1)]
  from schedule_ok[OF D(1,2)] assms(2) have k': "cinv k'" "runnable_ok (Q k') {} k'"
    "current k' = idleproc k' \<or> state (procs k' (current k')) = PROC_RUNNABLE" "idleproc k' = idleproc (kst (sy x))"
    "\<And>p. state (procs k' p) = state (procs (kst (sy x)) p)"
    "\<And>p. wait_state (procs k' p) = wait_state (procs (kst (sy x)) p)" by auto
  show ?thesis using D(4-) k' by (intro sem_invI) simp_all
qed

lemma down_fast_inv:
  assumes "sinv I x" "down_start C (sy x) q = Some (True, s')" "blocked x (current (kst (sy x))) = None"
  shows "sinv I (x\<lparr>sy := s', granted := (granted x)(q := current (kst (sy x)) # granted x q)\<rparr>)"
proof -
  note D = sem_invD[OF assms(1)]
  from assms(2) have s': "s' = set_svalue q (svalue (sy x) q - 1) (sy x)" "0 < svalue (sy x) q"
    by (auto simp: down_start_def down_begin_def bind_eq_Some_conv split: if_splits)
  have I: "svalue (sy x) r + int (length (granted x r)) = I r" for r using D(8) .
  show ?thesis using D(1-7) s'(2) I D(9,10) unfolding s'(1)
    by (intro sem_invI) (auto simp: fun_upd_apply algebra_simps split: if_splits)
qed

lemma resume_inv:
  assumes "sinv I x" "blocked x (current (kst (sy x))) = Some q"
  shows "\<exists>s'. down_finish (sy x) q (current (kst (sy x))) = Some s' \<and>
    sinv I (x\<lparr>sy := s', blocked := (blocked x)(current (kst (sy x)) := None)\<rparr>)"
proof -
  note D = sem_invD[OF assms(1)]
  let ?c = "current (kst (sy x))"
  have "?c \<noteq> idleproc (kst (sy x))" using assms(2) D(4) by auto
  then have "state (procs (kst (sy x)) ?c) = PROC_RUNNABLE" using D(3) by simp
  then have c: "?c \<notin> set (queues (sy x) q)" using D(9)[of ?c q] by auto
  with D(10)[OF assms(2)] have "down_finish (sy x) q ?c = Some (sy x)"
    by (simp add: down_finish_def down_end_def wait_current_del_def wait_in_queue_def)
  moreover have "?c \<notin> set (queues (sy x) r)" for r using D(9)[of ?c r] assms(2) c by auto
  then have "sinv I (x\<lparr>blocked := (blocked x)(?c := None)\<rparr>)"
    using D \<open>?c \<noteq> idleproc (kst (sy x))\<close> by (intro sem_invI) (auto split: if_splits)
  ultimately show ?thesis by simp
qed

lemma down_block_inv:
  assumes "sinv I x" "blocked x (current (kst (sy x))) = None" "current (kst (sy x)) \<noteq> idleproc (kst (sy x))"
    "\<not> 0 < svalue (sy x) q"
  shows "\<exists>s'. down_start C (sy x) q = Some (False, s') \<and>
    sinv I (x\<lparr>sy := s', blocked := (blocked x)(current (kst (sy x)) := Some q)\<rparr>)"
proof -
  note D = sem_invD[OF assms(1)]
  let ?c = "current (kst (sy x))"
  let ?k1 = "upd_proc ?c (\<lambda>p. p\<lparr>state := PROC_SLEEPING, wait_state := WT_KSEM\<rparr>) (kst (sy x))"
  let ?s1 = "set_queue q (queues (sy x) q @ [?c]) (upd_wait ?c (\<lambda>y. y\<lparr>wproc := ?c,
     wakeup_flags := WT_INTERRUPTED, wait_queue := q, linked := True\<rparr>) ((sy x)\<lparr>kst := ?k1\<rparr>))"
  have nq: "?c \<notin> set (queues (sy x) r)" for r using D(9)[of ?c r] assms(2) by auto
  have set1: "wait_current_set (sy x) q ?c WT_KSEM = Some ?s1"
    by (simp add: wait_current_set_def wait_queue_add_def wait_init_def Let_def upd_wait_def set_queue_def)
  have k1: "cinv ?k1" "runnable_ok (Q ?k1) {} ?k1"
    using D(1,2) by (auto simp: upd_proc_ok runnable_ok_def)
  from schedule_ok[OF k1] obtain k' where k': "schedule C ?k1 = Some k'" "cinv k'" "runnable_ok (Q k') {} k'"
    "current k' = idleproc (kst (sy x)) \<or> state (procs k' (current k')) = PROC_RUNNABLE"
    "\<And>p. state (procs k' p) = state (procs ?k1 p)" "\<And>p. wait_state (procs k' p) = wait_state (procs ?k1 p)"
    "idleproc k' = idleproc (kst (sy x))" by auto
  have e: "down_start C (sy x) q = Some (False, ?s1\<lparr>kst := k'\<rparr>)"
    using set1 assms(4) k'(1) by (simp add: down_start_def down_begin_def)
  have "sinv I (x\<lparr>sy := ?s1\<lparr>kst := k'\<rparr>, blocked := (blocked x)(?c := Some q)\<rparr>)"
  proof (rule sem_invI)
    fix r w
    let ?y = "x\<lparr>sy := ?s1\<lparr>kst := k'\<rparr>, blocked := (blocked x)(?c := Some q)\<rparr>"
    show "w \<in> set (queues (sy ?y) r) \<Longrightarrow> blocked ?y w = Some r \<and> linked (waits (sy ?y) w) \<and>
       wait_queue (waits (sy ?y) w) = r \<and> wproc (waits (sy ?y) w) = w \<and>
       state (procs (kst (sy ?y)) w) = PROC_SLEEPING \<and> wait_state (procs (kst (sy ?y)) w) = WT_KSEM"
      using D(9)[of w r] nq[of r] by (auto simp: k'(5,6) split: if_splits)
    show "blocked ?y w = Some r \<Longrightarrow> w \<notin> set (queues (sy ?y) r) \<Longrightarrow> \<not> linked (waits (sy ?y) w) \<and>
       wakeup_flags (waits (sy ?y) w) = WT_KSEM \<and> state (procs (kst (sy ?y)) w) = PROC_RUNNABLE \<and> w \<in> set (granted ?y r)"
      using D(10)[of w r] by (auto simp: k'(5) split: if_splits)
    show "0 < svalue (sy ?y) r \<Longrightarrow> queues (sy ?y) r = []" using D(7)[of r] assms(4) by (auto split: if_splits)
    show "distinct (queues (sy ?y) r)" using D(5)[of r] nq[of r] by auto
  qed (use D(4,6,8) k' assms(3) in simp_all)
  with e show ?thesis by blast
qed

lemma up_empty_inv:
  assumes "sinv I x" "current (kst (sy x)) \<in> set (granted x q)" "blocked x (current (kst (sy x))) = None"
    "queues (sy x) q = []"
  shows "\<exists>s'. up C (sy x) q = Some s' \<and>
    sinv I (x\<lparr>sy := s', granted := (granted x)(q := remove1 (current (kst (sy x))) (granted x q))\<rparr>)"
proof -
  note D = sem_invD[OF assms(1)]
  let ?c = "current (kst (sy x))"
  have e: "up C (sy x) q = Some (set_svalue q (svalue (sy x) q + 1) (sy x))"
    using assms(4) by (simp add: up_def up_sem_def wait_queue_first_def)
  have len: "int (length (remove1 ?c (granted x q))) = int (length (granted x q)) - 1"
    using int_length_remove1[OF assms(2)] .
  have keep: "w \<in> set (remove1 ?c (granted x q))" if "blocked x w = Some q" "w \<notin> set (queues (sy x) q)" for w
    using D(10)[OF that] that(1) assms(3) by (cases "w = ?c") auto
  have "sinv I (x\<lparr>sy := set_svalue q (svalue (sy x) q + 1) (sy x),
      granted := (granted x)(q := remove1 ?c (granted x q))\<rparr>)" (is "sinv I ?y")
  proof (rule sem_invI)
    fix r w
    show "svalue (sy ?y) r + int (length (granted ?y r)) = I r" using D(8)[of r] len by auto
    show "blocked ?y w = Some r \<Longrightarrow> w \<notin> set (queues (sy ?y) r) \<Longrightarrow> \<not> linked (waits (sy ?y) w) \<and>
       wakeup_flags (waits (sy ?y) w) = WT_KSEM \<and> state (procs (kst (sy ?y)) w) = PROC_RUNNABLE \<and> w \<in> set (granted ?y r)"
      using D(10)[of w r] keep[of w] by auto
    show "0 < svalue (sy ?y) r \<Longrightarrow> queues (sy ?y) r = []" using D(7)[of r] assms(4) by (auto split: if_splits)
    show "0 \<le> svalue (sy ?y) r" using D(6)[of r] D(6)[of q] by simp
  qed (use D(1-5,9) in simp_all)
  with e show ?thesis by blast
qed

lemma up_handoff_inv:
  assumes "sinv I x" "current (kst (sy x)) \<in> set (granted x q)" "blocked x (current (kst (sy x))) = None"
    "queues (sy x) q = w0 # ws"
  shows "\<exists>s'. up C (sy x) q = Some s' \<and>
    sinv I (x\<lparr>sy := s', granted := (granted x)(q := remove1 (current (kst (sy x))) (granted x q) @ [w0])\<rparr>)"
proof -
  note D = sem_invD[OF assms(1)]
  let ?c = "current (kst (sy x))"
  have w0: "blocked x w0 = Some q" "linked (waits (sy x) w0)" "wait_queue (waits (sy x) w0) = q"
    "wproc (waits (sy x) w0) = w0" "state (procs (kst (sy x)) w0) = PROC_SLEEPING"
    "wait_state (procs (kst (sy x)) w0) = WT_KSEM" using D(9)[of w0 q] assms(4) by auto
  have dq: "w0 \<notin> set ws" using D(5)[of q] assms(4) by simp
  have other: "w0 \<notin> set (queues (sy x) r)" if "r \<noteq> q" for r using D(9)[of w0 r] w0(1) that by auto
  from wakeup_proc_ok[OF D(1,2), of w0] w0(5) obtain k' where k': "wakeup_proc C (kst (sy x)) w0 = Some k'"
    "cinv k'" "runnable_ok (Q k') {} k'" "state (procs k' w0) = PROC_RUNNABLE" "current k' = ?c" by auto
  note F = wakeup_proc_frame[OF D(1,2) k'(1)]
  let ?s1 = "upd_wait w0 (\<lambda>y. y\<lparr>wakeup_flags := WT_KSEM\<rparr>)
     (set_queue q ws (upd_wait w0 (\<lambda>y. y\<lparr>linked := False\<rparr>) (sy x)))"
  have e: "up C (sy x) q = Some (?s1\<lparr>kst := k'\<rparr>)"
    using assms(4) w0 k'(1)
    by (simp add: up_def up_sem_def wait_queue_first_def wakeup_wait_def wait_queue_del_def
        upd_wait_def set_queue_def Let_def)
  have len: "int (length (remove1 ?c (granted x q))) = int (length (granted x q)) - 1"
    using int_length_remove1[OF assms(2)] .
  have keep: "w \<in> set (remove1 ?c (granted x q))" if "blocked x w = Some q" "w \<notin> set (queues (sy x) q)" for w
    using D(10)[OF that] that(1) assms(3) by (cases "w = ?c") auto
  have st: "state (procs k' w) = (if w = w0 then PROC_RUNNABLE else state (procs (kst (sy x)) w))" for w
    using F(4) k'(4) by simp
  have "sinv I (x\<lparr>sy := ?s1\<lparr>kst := k'\<rparr>, granted := (granted x)(q := remove1 ?c (granted x q) @ [w0])\<rparr>)"
    (is "sinv I ?y")
  proof (rule sem_invI)
    fix r w
    have ne: "w \<noteq> w0" "w \<in> set (queues (sy x) r)" if "w \<in> set (queues (sy ?y) r)"
      using that dq other[of r] assms(4) by (auto split: if_splits)
    show "w \<in> set (queues (sy ?y) r) \<Longrightarrow> blocked ?y w = Some r \<and> linked (waits (sy ?y) w) \<and>
       wait_queue (waits (sy ?y) w) = r \<and> wproc (waits (sy ?y) w) = w \<and>
       state (procs (kst (sy ?y)) w) = PROC_SLEEPING \<and> wait_state (procs (kst (sy ?y)) w) = WT_KSEM"
      using D(9)[of w r] ne F(4,5)[of w] by simp
    show "blocked ?y w = Some r \<Longrightarrow> w \<notin> set (queues (sy ?y) r) \<Longrightarrow> \<not> linked (waits (sy ?y) w) \<and>
       wakeup_flags (waits (sy ?y) w) = WT_KSEM \<and> state (procs (kst (sy ?y)) w) = PROC_RUNNABLE \<and> w \<in> set (granted ?y r)"
      using D(10)[of w r] keep[of w] assms(4) w0(1) by (auto simp: st split: if_splits)
    show "svalue (sy ?y) r + int (length (granted ?y r)) = I r" using D(8)[of r] len by auto
    show "0 < svalue (sy ?y) r \<Longrightarrow> queues (sy ?y) r = []" using D(7)[of r] assms(4) by (auto split: if_splits)
    show "distinct (queues (sy ?y) r)" using D(5)[of r] assms(4) by auto
    show "current (kst (sy ?y)) = idleproc (kst (sy ?y)) \<or>
        state (procs (kst (sy ?y)) (current (kst (sy ?y)))) = PROC_RUNNABLE"
      using D(3) F(2) k'(5) by (simp add: st)
  qed (use D(4,6) k' F(2) in simp_all)
  with e show ?thesis by blast
qed

lemma up_inv:
  assumes "sinv I x" "current (kst (sy x)) \<in> set (granted x q)" "blocked x (current (kst (sy x))) = None"
  shows "\<exists>s'. up C (sy x) q = Some s' \<and> sinv I (x\<lparr>sy := s',
    granted := (granted x)(q := remove1 (current (kst (sy x))) (granted x q) @ take 1 (queues (sy x) q))\<rparr>)"
proof (cases "queues (sy x) q")
  case Nil
  with up_empty_inv[OF assms Nil] show ?thesis by simp
next
  case (Cons w ws)
  with up_handoff_inv[OF assms Cons] show ?thesis by simp
qed

lemma sem_step_inv:
  assumes "sem_step C x y" "sinv I x"
  shows "sinv I y"
  using assms(1)
proof cases
  case (Down_fast c q s')
  with down_fast_inv[OF assms(2)] show ?thesis by auto
next
  case (Down_block c q s')
  then have "\<not> 0 < svalue (sy x) q"
    by (auto simp: down_start_def down_begin_def split: if_splits)
  with down_block_inv[OF assms(2)] Down_block show ?thesis by fastforce
next
  case (Down_resume c q s')
  with resume_inv[OF assms(2)] show ?thesis by fastforce
next
  case (Up c q s')
  with up_inv[OF assms(2), of q] show ?thesis by auto
next
  case (Preempt k')
  with preempt_inv[OF assms(2)] show ?thesis by simp
qed

lemma sem_reach_inv: "(sem_step C)\<^sup>*\<^sup>* x y \<Longrightarrow> sinv I x \<Longrightarrow> sinv I y"
  by (induction rule: rtranclp_induct) (auto intro: sem_step_inv)

lemma sem_no_panic:
  assumes "sinv I x"
  defines "c \<equiv> current (kst (sy x))"
  shows "schedule C (kst (sy x)) \<noteq> None"
    "blocked x c = None \<Longrightarrow> c \<noteq> idleproc (kst (sy x)) \<Longrightarrow> down_start C (sy x) q \<noteq> None"
    "blocked x c = Some q \<Longrightarrow> down_finish (sy x) q c \<noteq> None"
    "blocked x c = None \<Longrightarrow> c \<in> set (granted x q) \<Longrightarrow> up C (sy x) q \<noteq> None"
proof -
  note D = sem_invD[OF assms(1)]
  show "schedule C (kst (sy x)) \<noteq> None" using schedule_ok[OF D(1,2)] by auto
  show "down_start C (sy x) q \<noteq> None" if "blocked x c = None" "c \<noteq> idleproc (kst (sy x))"
    using down_block_inv[OF assms(1), of q] that unfolding c_def
    by (cases "0 < svalue (sy x) q") (auto simp: down_start_def down_begin_def)
  show "down_finish (sy x) q c \<noteq> None" if "blocked x c = Some q"
    using resume_inv[OF assms(1)] that unfolding c_def by auto
  show "up C (sy x) q \<noteq> None" if "blocked x c = None" "c \<in> set (granted x q)"
    using up_inv[OF assms(1), of q] that unfolding c_def by auto
qed

end

subsection \<open>Properties\<close>

definition demo_sys :: sem_sys where
  "demo_sys = \<lparr>sy = \<lparr>kst = demo_kstate RR [2, 3] Leaf [1, 2, 3] 1,
       waits = (\<lambda>_. \<lparr>wproc = 0, wakeup_flags = 0, wait_queue = 0, linked = False\<rparr>),
       queues = (\<lambda>_. []), svalue = (\<lambda>_. 1)\<rparr>,
     blocked = (\<lambda>_. None), granted = (\<lambda>_. [])\<rparr>"

lemma demo_sys_inv: "sem_inv (class_inv RR) (queued RR) (\<lambda>_. 1) demo_sys"
  by (rule sem_invI) (auto simp: demo_sys_def demo_defs list_inv_def runnable_ok_def)





end
