(* ===== verification/Proc_Pid.thy ===== *)
theory Proc_Pid
  imports Sched
begin

text \<open>
  The process tables of \<^verbatim>\<open>kern/process/proc.c\<close>: process identifiers (\<^verbatim>\<open>get_pid\<close>, which scans
  the process list and may restart), the hash table (\<^verbatim>\<open>hash_proc\<close>, \<^verbatim>\<open>unhash_proc\<close>,
  \<^verbatim>\<open>find_proc\<close>).
\<close>

subsection \<open>The hash table\<close>

definition HASH_SHIFT :: nat where "HASH_SHIFT = 10"

definition pid_hashfn :: "int \<Rightarrow> nat" where
  "pid_hashfn x = unat (hash32 (word_of_int x) HASH_SHIFT)"

definition hash_proc :: "ptr \<Rightarrow> kstate \<Rightarrow> kstate" where
  "hash_proc p k = (let h = pid_hashfn (pid (procs k p))
     in k\<lparr>hash_list := (hash_list k)(h := p # hash_list k h)\<rparr>)"

definition unhash_proc :: "ptr \<Rightarrow> kstate \<Rightarrow> kstate" where
  "unhash_proc p k = k\<lparr>hash_list := (\<lambda>h. remove1 p (hash_list k h))\<rparr>"

definition find_proc :: "int \<Rightarrow> kstate \<Rightarrow> ptr option" where
  "find_proc i k =
     (if 0 < i \<and> i < MAX_PID then find (\<lambda>p. pid (procs k p) = i) (hash_list k (pid_hashfn i)) else None)"

subsection \<open>get_pid\<close>

text \<open>
  One pass over the list: \<open>Inl\<close> is the jump to \<^verbatim>\<open>repeat\<close> with the given \<^verbatim>\<open>last_pid\<close>, \<open>Inr\<close> a
  completed pass with \<^verbatim>\<open>last_pid\<close> and \<^verbatim>\<open>next_safe\<close>.
\<close>

fun pid_scan :: "int list \<Rightarrow> int \<Rightarrow> int \<Rightarrow> int + int \<times> int" where
  "pid_scan [] lp ns = Inr (lp, ns)"
| "pid_scan (q # qs) lp ns =
     (if q = lp then
        (if lp + 1 \<ge> ns then Inl (if lp + 1 \<ge> MAX_PID then 1 else lp + 1)
         else pid_scan qs (lp + 1) ns)
      else if q > lp \<and> ns > q then pid_scan qs lp q
      else pid_scan qs lp ns)"

partial_function (option) pid_repeat :: "int list \<Rightarrow> int \<Rightarrow> (int \<times> int) option" where
  "pid_repeat qs lp =
     (case pid_scan qs lp MAX_PID of Inl lp' \<Rightarrow> pid_repeat qs lp' | Inr r \<Rightarrow> Some r)"

definition get_pid :: "kstate \<Rightarrow> (int \<times> kstate) option" where
  "get_pid k = do {
     let qs = map (\<lambda>p. pid (procs k p)) (proc_list k);
     let lp = last_pid k + 1;
     (lp, ns) \<leftarrow> (if lp \<ge> MAX_PID then pid_repeat qs 1
                   else if lp \<ge> next_safe k then pid_repeat qs lp
                   else Some (lp, next_safe k));
     Some (lp, k\<lparr>last_pid := lp, next_safe := ns\<rparr>) }"

definition pid_inv :: "kstate \<Rightarrow> bool" where
  "pid_inv k \<longleftrightarrow> last_pid k = MAX_PID \<or> (1 \<le> last_pid k \<and> last_pid k < next_safe k \<and> next_safe k \<le> MAX_PID \<and>
     (\<forall>p \<in> set (proc_list k). \<not> (last_pid k < pid (procs k p) \<and> pid (procs k p) < next_safe k)))"

lemma pid_scan_Inl:
  "pid_scan qs lp ns = Inl lp' \<Longrightarrow> \<exists>m \<ge> lp. {lp..m} \<subseteq> set qs \<and> lp' = (if m + 1 \<ge> MAX_PID then 1 else m + 1)"
proof (induction qs arbitrary: lp ns)
  case (Cons q qs)
  show ?case
  proof (cases "q = lp")
    case True
    show ?thesis
    proof (cases "lp + 1 \<ge> ns")
      case True
      with \<open>q = lp\<close> Cons.prems show ?thesis by (intro exI[of _ lp]) auto
    next
      case False
      with True Cons.prems have "pid_scan qs (lp + 1) ns = Inl lp'" by simp
      from Cons.IH[OF this] obtain m where m: "m \<ge> lp + 1" "{lp + 1..m} \<subseteq> set qs"
        "lp' = (if m + 1 \<ge> MAX_PID then 1 else m + 1)" by blast
      moreover have "{lp..m} \<subseteq> insert lp {lp + 1..m}" by auto
      ultimately have "{lp..m} \<subseteq> set (q # qs)" using True by fastforce
      with m show ?thesis by (intro exI[of _ m]) auto
    qed
  next
    case False
    with Cons.prems obtain ns2 where "pid_scan qs lp ns2 = Inl lp'" by (auto split: if_splits)
    from Cons.IH[OF this] show ?thesis by fastforce
  qed
qed simp

lemma pid_scan_Inr:
  assumes "pid_scan qs lp ns = Inr (lp', ns')" "lp < ns" "\<forall>q \<in> S. q < lp \<or> ns \<le> q"
  shows "lp \<le> lp' \<and> lp' < ns' \<and> ns' \<le> ns \<and> (\<forall>q \<in> S \<union> set qs. q < lp' \<or> ns' \<le> q)"
  using assms
proof (induction qs arbitrary: lp ns S)
  case (Cons q qs)
  have "S \<union> set (q # qs) = insert q S \<union> set qs" by simp
  moreover consider "q = lp" "lp + 1 < ns" | "q \<noteq> lp" "q > lp \<and> ns > q" | "q \<noteq> lp" "\<not> (q > lp \<and> ns > q)"
    using Cons.prems(1) by (cases "q = lp"; cases "lp + 1 < ns") auto
  then have "lp \<le> lp' \<and> lp' < ns' \<and> ns' \<le> ns \<and> (\<forall>r \<in> insert q S \<union> set qs. r < lp' \<or> ns' \<le> r)"
  proof cases
    case 1
    with Cons.IH[of "lp + 1" ns "insert q S"] Cons.prems show ?thesis by force
  next
    case 2
    with Cons.IH[of lp q "insert q S"] Cons.prems show ?thesis by force
  next
    case 3
    with Cons.IH[of lp ns "insert q S"] Cons.prems show ?thesis by force
  qed
  ultimately show ?case by simp
qed auto

text \<open>The loop ends because it never passes a free identifier.\<close>

definition pid_dist :: "int \<Rightarrow> int \<Rightarrow> nat" where
  "pid_dist f lp = nat (if lp \<le> f then f - lp else f - lp + MAX_PID)"

lemma pid_repeat_ok:
  assumes "1 \<le> lp" "lp < MAX_PID" "f \<notin> set qs" "1 \<le> f" "f < MAX_PID"
  shows "\<exists>lp' ns'. pid_repeat qs lp = Some (lp', ns') \<and> 1 \<le> lp' \<and> lp' < ns' \<and> ns' \<le> MAX_PID \<and>
    (\<forall>q \<in> set qs. q < lp' \<or> ns' \<le> q)"
  using assms(1,2)
proof (induction "pid_dist f lp" arbitrary: lp rule: less_induct)
  case less
  show ?case
  proof (cases "pid_scan qs lp MAX_PID")
    case (Inl lp')
    from pid_scan_Inl[OF this] obtain m where m: "m \<ge> lp" "{lp..m} \<subseteq> set qs"
      "lp' = (if m + 1 \<ge> MAX_PID then 1 else m + 1)" by blast
    have "\<not> (lp \<le> f \<and> f \<le> m)" using m(2) assms(3) by auto
    then have "pid_dist f lp' < pid_dist f lp" "1 \<le> lp'" "lp' < MAX_PID"
      using m less.prems assms(4,5) by (auto simp: pid_dist_def MAX_PID_def)
    from less.hyps[OF this] show ?thesis by (subst pid_repeat.simps) (simp add: Inl)
  next
    case (Inr r)
    obtain lp' ns' where r: "r = (lp', ns')" by (cases r)
    with pid_scan_Inr[of qs lp MAX_PID lp' ns' "{}"] Inr less.prems
    show ?thesis by (subst pid_repeat.simps) (auto simp: Inr)
  qed
qed

lemma free_pid:
  assumes "int (length qs) < MAX_PID - 1"
  shows "\<exists>f. f \<notin> set qs \<and> 1 \<le> f \<and> f < MAX_PID"
proof (rule ccontr)
  assume "\<not> ?thesis"
  then have "{1..<MAX_PID} \<subseteq> set qs" by auto
  from card_mono[OF _ this] card_length[of qs] assms show False by (simp add: MAX_PID_def)
qed

lemma get_pid_ok:
  assumes inv: "pid_inv k" and len: "int (length (proc_list k)) < MAX_PID - 1"
  shows "\<exists>i ns. get_pid k = Some (i, k\<lparr>last_pid := i, next_safe := ns\<rparr>) \<and> 1 \<le> i \<and> i < ns \<and> ns \<le> MAX_PID \<and>
    (\<forall>p \<in> set (proc_list k). pid (procs k p) < i \<or> ns \<le> pid (procs k p))"
proof -
  let ?qs = "map (\<lambda>p. pid (procs k p)) (proc_list k)"
  from len have "int (length ?qs) < MAX_PID - 1" by simp
  from free_pid[OF this] obtain f where f: "f \<notin> set ?qs" "1 \<le> f" "f < MAX_PID" by blast
  note R = pid_repeat_ok[OF _ _ f]
  show ?thesis
  proof (cases "last_pid k + 1 \<ge> MAX_PID")
    case True
    with R[of 1] show ?thesis by (auto simp: get_pid_def Let_def MAX_PID_def)
  next
    case no_wrap: False
    then have I: "1 \<le> last_pid k" "last_pid k < next_safe k" "next_safe k \<le> MAX_PID"
      "\<forall>p \<in> set (proc_list k). \<not> (last_pid k < pid (procs k p) \<and> pid (procs k p) < next_safe k)"
      using inv by (auto simp: pid_inv_def)
    show ?thesis
    proof (cases "last_pid k + 1 \<ge> next_safe k")
      case True
      with no_wrap I R[of "last_pid k + 1"] show ?thesis by (auto simp: get_pid_def Let_def)
    next
      case False
      have "\<forall>p \<in> set (proc_list k). pid (procs k p) < last_pid k + 1 \<or> next_safe k \<le> pid (procs k p)"
        using I(4) by force
      moreover have "get_pid k = Some (last_pid k + 1, k\<lparr>last_pid := last_pid k + 1, next_safe := next_safe k\<rparr>)"
        using False no_wrap unfolding get_pid_def Let_def by (simp only: if_False not_le split: if_splits) simp
      ultimately show ?thesis using I(1-3) False
        by (intro exI[of _ "last_pid k + 1"] exI[of _ "next_safe k"] conjI) linarith+
    qed
  qed
qed

subsection \<open>The hash table as a map\<close>

text \<open>The processes of \<open>T\<close>, and no others, are in the table, each in the list of its identifier.\<close>

definition hash_inv :: "ptr set \<Rightarrow> kstate \<Rightarrow> bool" where
  "hash_inv T k \<longleftrightarrow> inj_on (\<lambda>p. pid (procs k p)) T \<and>
     (\<forall>h. distinct (hash_list k h) \<and> set (hash_list k h) = {p \<in> T. pid_hashfn (pid (procs k p)) = h})"

lemma hash_inv_hash:
  assumes "hash_inv T k" "p \<notin> T" "\<forall>q \<in> T. pid (procs k q) \<noteq> pid (procs k p)"
  shows "hash_inv (insert p T) (hash_proc p k)"
  using assms by (auto simp: hash_inv_def hash_proc_def Let_def inj_on_def)

lemma hash_inv_unhash:
  assumes "hash_inv T k"
  shows "hash_inv (T - {p}) (unhash_proc p k)"
  using assms by (auto simp: hash_inv_def unhash_proc_def inj_on_def)

lemma hash_proc_sel [simp]:
  "procs (hash_proc p k) = procs k" "procs (unhash_proc p k) = procs k"
  "proc_list (hash_proc p k) = proc_list k" "proc_list (unhash_proc p k) = proc_list k"
  "nr_process (hash_proc p k) = nr_process k" "nr_process (unhash_proc p k) = nr_process k"
  "rq (hash_proc p k) = rq k" "rq (unhash_proc p k) = rq k"
  "current (hash_proc p k) = current k" "current (unhash_proc p k) = current k"
  "idleproc (hash_proc p k) = idleproc k" "idleproc (unhash_proc p k) = idleproc k"
  "initproc (hash_proc p k) = initproc k" "initproc (unhash_proc p k) = initproc k"
  by (simp_all add: hash_proc_def unhash_proc_def Let_def)

lemma find_proc_iff:
  assumes "hash_inv T k" "0 < i" "i < MAX_PID"
  shows "find_proc i k = Some p \<longleftrightarrow> p \<in> T \<and> pid (procs k p) = i"
proof
  assume "find_proc i k = Some p"
  then have "p \<in> set (hash_list k (pid_hashfn i))" "pid (procs k p) = i"
    using assms(2,3) by (auto simp: find_proc_def find_Some_iff)
  then show "p \<in> T \<and> pid (procs k p) = i" using assms(1) by (simp add: hash_inv_def)
next
  assume p: "p \<in> T \<and> pid (procs k p) = i"
  let ?l = "hash_list k (pid_hashfn i)"
  have "p \<in> set ?l" using p assms(1) by (simp add: hash_inv_def)
  then have "find (\<lambda>p. pid (procs k p) = i) ?l \<noteq> None" using p by (auto simp: find_None_iff)
  then obtain q where q: "find (\<lambda>p. pid (procs k p) = i) ?l = Some q" by blast
  then have "q \<in> set ?l" "pid (procs k q) = i" by (auto simp: find_Some_iff)
  then have "q \<in> T" using assms(1) by (simp add: hash_inv_def)
  with p \<open>pid (procs k q) = i\<close> assms(1) have "q = p" by (auto simp: hash_inv_def dest: inj_onD)
  with q assms(2,3) show "find_proc i k = Some p" by (simp add: find_proc_def)
qed

lemma drop_bit_bound: "n \<le> 32 \<Longrightarrow> unat (drop_bit (32 - n) (w :: u32)) < 2 ^ n"
proof -
  assume n: "n \<le> 32"
  have "unat (drop_bit (32 - n) w) = unat w div 2 ^ (32 - n)"
    unfolding unat_drop_bit_eq by (rule drop_bit_eq_div)
  moreover have "unat w < 2 ^ n * 2 ^ (32 - n)"
    using unsigned_less[of w] n by (simp flip: power_add)
  ultimately show ?thesis by (simp add: less_mult_imp_div_less)
qed

subsection \<open>Properties\<close>



text \<open>
  C20. The hash table is a map from identifiers to processes: after \<^verbatim>\<open>hash_proc\<close> of a process with a
  new identifier \<^verbatim>\<open>find_proc\<close> finds it, after \<^verbatim>\<open>unhash_proc\<close> it does not, and neither changes the
  result for another identifier; bucket numbers stay below the size of the table.
\<close>

theorem hash_table_is_map:
  assumes "hash_inv T k" "p \<notin> T" "\<forall>q \<in> T. pid (procs k q) \<noteq> pid (procs k p)" "0 < pid (procs k p)"
    "pid (procs k p) < MAX_PID"
  shows "find_proc (pid (procs k p)) (hash_proc p k) = Some p \<and>
    find_proc (pid (procs k p)) (unhash_proc p (hash_proc p k)) = None \<and>
    (\<forall>i. i \<noteq> pid (procs k p) \<longrightarrow> find_proc i (hash_proc p k) = find_proc i k \<and>
       find_proc i (unhash_proc p (hash_proc p k)) = find_proc i k) \<and>
    pid_hashfn (pid (procs k p)) < 2 ^ HASH_SHIFT"
proof -
  note H = hash_inv_hash[OF assms(1-3)] and U = hash_inv_unhash[OF hash_inv_hash[OF assms(1-3)], of p]
  have some: "find_proc (pid (procs k p)) (hash_proc p k) = Some p"
    using find_proc_iff[OF H assms(4,5)] by simp
  have none: "find_proc (pid (procs k p)) (unhash_proc p (hash_proc p k)) = None"
  proof (rule ccontr)
    assume "find_proc (pid (procs k p)) (unhash_proc p (hash_proc p k)) \<noteq> None"
    then obtain q where "find_proc (pid (procs k p)) (unhash_proc p (hash_proc p k)) = Some q" by blast
    with find_proc_iff[OF U assms(4,5), of q] assms(2,3) show False by auto
  qed
  have other: "find_proc i (hash_proc p k) = find_proc i k \<and>
      find_proc i (unhash_proc p (hash_proc p k)) = find_proc i k" if "i \<noteq> pid (procs k p)" for i
  proof (cases "0 < i \<and> i < MAX_PID")
    case True
    have "find_proc i (hash_proc p k) = Some q \<longleftrightarrow> find_proc i k = Some q"
      "find_proc i (unhash_proc p (hash_proc p k)) = Some q \<longleftrightarrow> find_proc i k = Some q" for q
      using find_proc_iff[OF H, of i q] find_proc_iff[OF U, of i q] find_proc_iff[OF assms(1), of i q] True that
        assms(2) by auto
    then show ?thesis by (metis option.exhaust)
  qed (auto simp: find_proc_def)
  have "pid_hashfn (pid (procs k p)) < 2 ^ HASH_SHIFT"
    unfolding pid_hashfn_def hash32_def Let_def by (rule drop_bit_bound) (simp add: HASH_SHIFT_def)
  with some none other show ?thesis by blast
qed

theorem hash_table_is_map_witness:
  "find_proc 3 (hash_proc 3 (demo_kstate RR [2, 3] Leaf [1, 2, 3] 1)) = Some 3"
proof -
  let ?k = "demo_kstate RR [2, 3] Leaf [1, 2, 3] 1"
  have "hash_inv {} ?k" "0 < pid (procs ?k 3)" "pid (procs ?k 3) < MAX_PID" "pid (procs ?k 3) = 3"
    by (simp_all add: demo_defs hash_inv_def MAX_PID_def)
  with hash_table_is_map[of "{}" ?k 3] show ?thesis by simp
qed

end
