(* ===== verification/Timer.thy ===== *)
theory Timer
  imports Sched
begin

unbundle bit_operations_syntax

text \<open>
  The kernel timers of \<^verbatim>\<open>kern/schedule/sched.c\<close>: \<^verbatim>\<open>add_timer\<close>, \<^verbatim>\<open>del_timer\<close>, \<^verbatim>\<open>run_timer_list\<close>,
  and the exchange sort of the queue listing. A timer on the list stores the ticks after its
  predecessor; the abstract state is the set of absolute deadlines, on which the three operations
  are insertion, removal and subtraction of one. Expiries are 32-bit words.
\<close>

definition timer_init :: "ptr \<Rightarrow> ptr \<Rightarrow> int \<Rightarrow> timer" where
  "timer_init t p e = \<lparr>tid = t, expires = word_of_int e, tproc = p\<rparr>"

fun timer_insert :: "timer \<Rightarrow> timer list \<Rightarrow> timer list" where
  "timer_insert t [] = [t]"
| "timer_insert t (n # ns) =
     (if expires t < expires n then t # n\<lparr>expires := expires n - expires t\<rparr> # ns
      else n # timer_insert (t\<lparr>expires := expires t - expires n\<rparr>) ns)"

definition add_timer :: "kstate \<Rightarrow> timer \<Rightarrow> kstate option" where
  "add_timer k t = do {
     kassert (expires t > 0);
     kassert (tid t \<notin> tid ` set (timer_list k));
     Some (k\<lparr>timer_list := timer_insert t (timer_list k)\<rparr>) }"

fun timer_remove :: "ptr \<Rightarrow> timer list \<Rightarrow> timer list" where
  "timer_remove i [] = []"
| "timer_remove i (t # ts) =
     (if tid t = i then
        (case ts of [] \<Rightarrow> []
         | n # ns \<Rightarrow> (if expires t \<noteq> 0 then n\<lparr>expires := expires n + expires t\<rparr> else n) # ns)
      else t # timer_remove i ts)"

definition del_timer :: "kstate \<Rightarrow> ptr \<Rightarrow> kstate" where
  "del_timer k i = k\<lparr>timer_list := timer_remove i (timer_list k)\<rparr>"

text \<open>The loop of \<^verbatim>\<open>run_timer_list\<close>; its second argument is the list from \<^verbatim>\<open>timer\<close> on.\<close>

fun expire_timers :: "sched_class \<Rightarrow> kstate \<Rightarrow> timer list \<Rightarrow> kstate option" where
  "expire_timers C k [] = Some k"
| "expire_timers C k (t # ts) =
     (if expires t = 0 then do {
        kassert (wait_state (procs k (tproc t)) \<noteq> 0 \<longrightarrow> wait_state (procs k (tproc t)) AND WT_INTERRUPTED \<noteq> 0);
        k \<leftarrow> wakeup_proc C k (tproc t);
        expire_timers C (del_timer k (tid t)) ts }
      else Some k)"

definition run_timer_list :: "sched_class \<Rightarrow> kstate \<Rightarrow> kstate option" where
  "run_timer_list C k = do {
     k \<leftarrow> (case timer_list k of [] \<Rightarrow> Some k
       | t # ts \<Rightarrow> do {
           kassert (expires t \<noteq> 0);
           let l = t\<lparr>expires := expires t - 1\<rparr> # ts;
           expire_timers C (k\<lparr>timer_list := l\<rparr>) l });
     Some (sched_class_proc_tick C k (current k)) }"

subsection \<open>Absolute deadlines\<close>

fun deadlines :: "nat \<Rightarrow> timer list \<Rightarrow> (ptr \<times> nat) list" where
  "deadlines a [] = []"
| "deadlines a (t # ts) = (tid t, a + unat (expires t)) # deadlines (a + unat (expires t)) ts"

definition horizon :: "timer list \<Rightarrow> nat" where
  "horizon ts = (\<Sum>t\<leftarrow>ts. unat (expires t))"

definition timer_inv :: "timer list \<Rightarrow> bool" where
  "timer_inv ts \<longleftrightarrow> distinct (map tid ts) \<and> horizon ts < 2 ^ 32 \<and> (ts \<noteq> [] \<longrightarrow> expires (hd ts) \<noteq> 0)"

lemma horizon_simps [simp]:
  "horizon [] = 0" "horizon (t # ts) = unat (expires t) + horizon ts"
  by (simp_all add: horizon_def)

lemma unat_diff_less: "a < b \<Longrightarrow> unat (b - a) = unat b - unat a" for a b :: u32
  by (rule unat_sub) simp

lemma unat_diff_le: "\<not> b < a \<Longrightarrow> unat (b - a) = unat b - unat a" for a b :: u32
  by (rule unat_sub) (simp add: not_less)

lemma deadlines_insert:
  "set (deadlines a (timer_insert t ts)) = insert (tid t, a + unat (expires t)) (set (deadlines a ts))"
proof (induction t ts arbitrary: a rule: timer_insert.induct)
  case (2 t n ns)
  show ?case
  proof (cases "expires t < expires n")
    case True
    then show ?thesis by (auto simp: unat_diff_less word_less_nat_alt)
  next
    case False
    then show ?thesis using 2 by (auto simp: unat_diff_le word_less_nat_alt)
  qed
qed simp

lemma horizon_insert: "horizon (timer_insert t ts) = max (unat (expires t)) (horizon ts)"
proof (induction t ts rule: timer_insert.induct)
  case (2 t n ns)
  show ?case
  proof (cases "expires t < expires n")
    case True
    then show ?thesis by (simp add: unat_diff_less word_less_nat_alt)
  next
    case False
    then show ?thesis using 2 by (simp add: unat_diff_le word_less_nat_alt)
  qed
qed simp

lemma set_tid_insert [simp]: "tid ` set (timer_insert t ts) = insert (tid t) (tid ` set ts)"
  by (induction t ts rule: timer_insert.induct) auto

lemma distinct_insert [simp]:
  "distinct (map tid (timer_insert t ts)) \<longleftrightarrow> tid t \<notin> tid ` set ts \<and> distinct (map tid ts)"
  by (induction t ts rule: timer_insert.induct) auto

lemma hd_insert:
  assumes "expires t \<noteq> 0" "ts \<noteq> [] \<longrightarrow> expires (hd ts) \<noteq> 0"
  shows "expires (hd (timer_insert t ts)) \<noteq> 0"
  using assms by (cases ts) auto

lemma timer_inv_insert:
  assumes "timer_inv ts" "expires t \<noteq> 0" "tid t \<notin> tid ` set ts"
  shows "timer_inv (timer_insert t ts)"
proof -
  have "unat (expires t) < 2 ^ 32" using unsigned_less[of "expires t"] by simp
  with assms hd_insert[of t ts] show ?thesis by (simp add: timer_inv_def horizon_insert)
qed

lemma tid_remove: "map tid (timer_remove i ts) = remove1 i (map tid ts)"
  by (induction ts) (auto split: list.splits)

lemma deadlines_tid: "fst ` set (deadlines a ts) = tid ` set ts"
  by (induction a ts rule: deadlines.induct) auto

lemma unat_add_horizon: "unat x + unat y + h < 2 ^ 32 \<Longrightarrow> unat (x + y) = unat x + unat y" for x y :: u32
  by (rule unat_add_lem[THEN iffD1]) simp

lemma deadlines_remove:
  assumes "distinct (map tid ts)" "horizon ts < 2 ^ 32"
  shows "set (deadlines a (timer_remove i ts)) = {(j, d) \<in> set (deadlines a ts). j \<noteq> i}"
  using assms
proof (induction i ts arbitrary: a rule: timer_remove.induct)
  case (2 i t ts)
  show ?case
  proof (cases "tid t = i")
    case False
    with 2 show ?thesis by auto
  next
    case True
    then have "i \<notin> fst ` set (deadlines b ts)" for b using 2(2) by (auto simp: deadlines_tid)
    then have "{(j, d). (j, d) \<in> set (deadlines b ts) \<and> j \<noteq> i} = set (deadlines b ts)" for b by force
    moreover have "set (deadlines a (timer_remove i (t # ts))) = set (deadlines (a + unat (expires t)) ts)"
    proof (cases ts)
      case (Cons n ns)
      with True 2(3) show ?thesis
        by (simp add: unat_add_horizon[of _ _ "horizon ns"] ac_simps)
    qed (use True in simp)
    ultimately show ?thesis using True by auto
  qed
qed simp

lemma horizon_remove:
  assumes "horizon ts < 2 ^ 32"
  shows "horizon (timer_remove i ts) \<le> horizon ts"
  using assms
proof (induction i ts rule: timer_remove.induct)
  case (2 i t ts)
  show ?case
  proof (cases ts)
    case (Cons n ns)
    with 2 show ?thesis by (auto simp: unat_add_horizon[of _ _ "horizon ns"] ac_simps)
  qed simp
qed simp

lemma timer_inv_remove:
  assumes "timer_inv ts"
  shows "timer_inv (timer_remove i ts)"
proof -
  have "timer_remove i ts \<noteq> [] \<longrightarrow> expires (hd (timer_remove i ts)) \<noteq> 0"
  proof (cases ts)
    case [simp]: (Cons t us)
    show ?thesis
    proof (cases us)
      case [simp]: (Cons n ns)
      have "unat (expires n + expires t) = unat (expires n) + unat (expires t)"
        using assms by (intro unat_add_horizon[of _ _ "horizon ns"]) (simp add: timer_inv_def)
      moreover have "unat (expires t) \<noteq> 0" using assms by (simp add: timer_inv_def unat_eq_zero)
      ultimately have "expires n + expires t \<noteq> 0" by force
      with assms show ?thesis by (simp add: timer_inv_def)
    qed (use assms in \<open>simp add: timer_inv_def\<close>)
  qed simp
  with assms horizon_remove[of ts i] show ?thesis
    by (auto simp: timer_inv_def tid_remove)
qed

subsection \<open>One tick\<close>

text \<open>The list without its leading expired timers.\<close>

definition live_timers :: "timer list \<Rightarrow> timer list" where
  "live_timers ts = dropWhile (\<lambda>t. expires t = 0) ts"

definition tick_head :: "timer list \<Rightarrow> timer list" where
  "tick_head ts = (case ts of [] \<Rightarrow> [] | t # us \<Rightarrow> t\<lparr>expires := expires t - 1\<rparr> # us)"

lemma del_head_timer:
  assumes "timer_list k = t # ts" "expires t = 0"
  shows "timer_list (del_timer k (tid t)) = ts"
  using assms by (cases ts) (simp_all add: del_timer_def)

lemma del_timer_sel [simp]:
  "procs (del_timer k i) = procs k" "current (del_timer k i) = current k"
  "idleproc (del_timer k i) = idleproc k" "rq (del_timer k i) = rq k"
  by (simp_all add: del_timer_def)

lemma runnable_ok_del_timer [simp]: "runnable_ok R A (del_timer k i) = runnable_ok R A k"
  by (simp add: runnable_ok_def)

text \<open>
  The condition of the loop's assertion: the processes of the expiring timers are not zombies, and a
  process that waits does so interruptibly.
\<close>

definition timers_wakeable :: "kstate \<Rightarrow> timer list \<Rightarrow> bool" where
  "timers_wakeable k ts \<longleftrightarrow> (\<forall>t \<in> set ts. state (procs k (tproc t)) \<noteq> PROC_ZOMBIE \<and>
     (wait_state (procs k (tproc t)) \<noteq> 0 \<longrightarrow> wait_state (procs k (tproc t)) AND WT_INTERRUPTED \<noteq> 0))"

context sched_ok
begin

lemma expire_timers_ok:
  assumes "cinv k" "runnable_ok (Q k) A k" "timer_list k = ts" "timers_wakeable k ts"
  shows "\<exists>k'. expire_timers C k ts = Some k' \<and> cinv k' \<and> runnable_ok (Q k') A k' \<and>
     timer_list k' = live_timers ts \<and> idleproc k' = idleproc k \<and> current k' = current k \<and>
     (\<forall>p. state (procs k p) = PROC_RUNNABLE \<longrightarrow> state (procs k' p) = PROC_RUNNABLE) \<and>
     (\<forall>t \<in> set (takeWhile (\<lambda>t. expires t = 0) ts). state (procs k' (tproc t)) = PROC_RUNNABLE)"
  using assms
proof (induction ts arbitrary: k)
  case (Cons t ts)
  show ?case
  proof (cases "expires t = 0")
    case True
    from Cons.prems(4) have z: "state (procs k (tproc t)) \<noteq> PROC_ZOMBIE"
      "wait_state (procs k (tproc t)) \<noteq> 0 \<longrightarrow> wait_state (procs k (tproc t)) AND WT_INTERRUPTED \<noteq> 0"
      by (auto simp: timers_wakeable_def)
    from wakeup_proc_ok[OF Cons.prems(1,2) z(1)] obtain k1 where k1: "wakeup_proc C k (tproc t) = Some k1"
      "cinv k1" "runnable_ok (Q k1) A k1" "state (procs k1 (tproc t)) = PROC_RUNNABLE" "current k1 = current k"
      by blast
    note fr = wakeup_proc_frame[OF Cons.prems(1,2) k1(1)]
    let ?k = "del_timer k1 (tid t)"
    have tl: "timer_list ?k = ts" using del_head_timer[of k1 t ts] fr(1) Cons.prems(3) True by simp
    have cq: "cinv ?k" "Q ?k = Q k1"
      using inv_cong[of ?k k1] Q_cong[of ?k k1] k1(2) by simp_all
    have st: "state (procs k1 p) = (if p = tproc t then PROC_RUNNABLE else state (procs k p))" for p
      using fr(4) k1(4) by simp
    have w: "timers_wakeable ?k ts"
      using Cons.prems(4) fr(5,6) st by (auto simp: timers_wakeable_def split: if_splits)
    have "runnable_ok (Q ?k) A ?k" using k1(3) cq(2) by simp
    from Cons.IH[OF cq(1) this tl w] obtain k' where "expire_timers C ?k ts = Some k'" "cinv k'"
      "runnable_ok (Q k') A k'" "timer_list k' = live_timers ts" "idleproc k' = idleproc k1"
      "current k' = current k1"
      "\<forall>p. state (procs k1 p) = PROC_RUNNABLE \<longrightarrow> state (procs k' p) = PROC_RUNNABLE"
      "\<forall>t \<in> set (takeWhile (\<lambda>t. expires t = 0) ts). state (procs k' (tproc t)) = PROC_RUNNABLE" by auto
    with True z(2) k1(1,5) st fr(2) show ?thesis by (auto simp: live_timers_def)
  qed (use Cons.prems in \<open>auto simp: live_timers_def\<close>)
qed (simp add: live_timers_def)

lemma run_timer_list_ok:
  assumes "cinv k" "runnable_ok (Q k) A k" "timer_inv (timer_list k)" "timers_wakeable k (timer_list k)"
  shows "\<exists>k'. run_timer_list C k = Some k' \<and> cinv k' \<and> runnable_ok (Q k') A k' \<and>
     timer_list k' = live_timers (tick_head (timer_list k)) \<and>
     (\<forall>t \<in> set (takeWhile (\<lambda>t. expires t = 0) (tick_head (timer_list k))).
        state (procs k' (tproc t)) = PROC_RUNNABLE)"
proof -
  let ?l = "tick_head (timer_list k)" and ?k = "k\<lparr>timer_list := tick_head (timer_list k)\<rparr>"
  have "cinv ?k" "runnable_ok (Q ?k) A ?k" "timer_list ?k = ?l" "timers_wakeable ?k ?l"
    using assms inv_cong[of ?k k] Q_cong[of ?k k]
    by (simp_all add: runnable_ok_def timers_wakeable_def tick_head_def split: list.splits)
  from expire_timers_ok[OF this] obtain k' where k': "expire_timers C ?k ?l = Some k'" "cinv k'"
    "runnable_ok (Q k') A k'" "timer_list k' = live_timers ?l"
    "\<forall>t \<in> set (takeWhile (\<lambda>t. expires t = 0) ?l). state (procs k' (tproc t)) = PROC_RUNNABLE" by auto
  let ?k' = "sched_class_proc_tick C k' (current k')"
  note fr = tick_frameD[OF proc_tick_ok[of k' "current k'"]]
  have "run_timer_list C k = Some ?k'"
  proof (cases "timer_list k")
    case Nil
    then have "k\<lparr>timer_list := []\<rparr> = k" by simp
    with k'(1) Nil have "k' = k" by (simp add: tick_head_def)
    with Nil show ?thesis by (simp add: run_timer_list_def)
  qed (use k'(1) assms(3) in \<open>simp add: run_timer_list_def tick_head_def timer_inv_def\<close>)
  moreover have "cinv ?k'" "Q ?k' = Q k'" using inv_cong[of ?k' k'] Q_cong[of ?k' k'] fr k'(2) by simp_all
  moreover have "runnable_ok (Q ?k') A ?k'" using k'(3) fr \<open>Q ?k' = Q k'\<close> by (simp add: runnable_ok_def)
  ultimately show ?thesis using k'(4,5) fr by auto
qed

end

lemma deadlines_shift: "deadlines (a + c) ts = map (\<lambda>(j, d). (j, d + c)) (deadlines a ts)"
  by (induction a ts rule: deadlines.induct) (simp_all add: ac_simps)

lemma deadlines_ge: "(j, d) \<in> set (deadlines a ts) \<Longrightarrow> a \<le> d"
  by (induction a ts rule: deadlines.induct) auto

lemma deadlines_live: "set (deadlines 0 (live_timers ts)) = {(j, d) \<in> set (deadlines 0 ts). 0 < d}"
proof (induction ts)
  case (Cons t ts)
  show ?case
  proof (cases "expires t = 0")
    case False
    then have "0 < unat (expires t)" by (simp add: unat_gt_0)
    with False deadlines_ge[of _ _ "unat (expires t)" ts] show ?thesis
      by (fastforce simp: live_timers_def)
  qed (use Cons in \<open>auto simp: live_timers_def\<close>)
qed (simp add: live_timers_def)

lemma deadlines_tick:
  assumes "timer_inv ts"
  shows "deadlines 0 ts = map (\<lambda>(j, d). (j, d + 1)) (deadlines 0 (tick_head ts))"
proof (cases ts)
  case (Cons t us)
  with assms have "unat (expires t) = unat (expires t - 1) + 1"
    by (simp add: timer_inv_def unat_minus_one unat_gt_0)
  with Cons show ?thesis using deadlines_shift[of "unat (expires t - 1)" 1 us]
    by (simp add: tick_head_def)
qed (simp add: tick_head_def)

lemma horizon_dropWhile: "horizon (dropWhile P ts) \<le> horizon ts"
  by (induction ts) auto

lemma distinct_dropWhile_map: "distinct (map f ts) \<Longrightarrow> distinct (map f (dropWhile P ts))"
  by (induction ts) auto

lemma timer_inv_tick:
  assumes "timer_inv ts"
  shows "timer_inv (live_timers (tick_head ts))"
proof -
  let ?h = "tick_head ts" and ?P = "\<lambda>t. expires t = 0"
  have "horizon ?h \<le> horizon ts" "distinct (map tid ?h)" "horizon ts < 2 ^ 32"
    using assms by (cases ts; auto simp: tick_head_def timer_inv_def unat_minus_one)+
  then have "horizon (dropWhile ?P ?h) < 2 ^ 32" "distinct (map tid (dropWhile ?P ?h))"
    using horizon_dropWhile[of ?P ?h] by (simp, blast intro: distinct_dropWhile_map)
  then show ?thesis using hd_dropWhile[of ?P ?h] by (simp add: timer_inv_def live_timers_def)
qed

lemma deadline_0_expired:
  "(j, 0) \<in> set (deadlines 0 ts) \<Longrightarrow> j \<in> tid ` set (takeWhile (\<lambda>t. expires t = 0) ts)"
proof (induction ts)
  case (Cons t ts)
  show ?case
  proof (cases "expires t = 0")
    case False
    then have "0 < unat (expires t)" by (simp add: unat_gt_0)
    with Cons.prems deadlines_ge[of j 0 "unat (expires t)" ts] show ?thesis by auto
  qed (use Cons in auto)
qed simp

lemma due_expired:
  assumes "timer_inv ts" "t \<in> set ts" "(tid t, 1) \<in> set (deadlines 0 ts)"
  shows "\<exists>u \<in> set (takeWhile (\<lambda>t. expires t = 0) (tick_head ts)). tproc u = tproc t"
proof -
  from assms(3) have "(tid t, 0) \<in> set (deadlines 0 (tick_head ts))"
    by (auto simp: deadlines_tick[OF assms(1)])
  from deadline_0_expired[OF this] obtain u where u: "u \<in> set (takeWhile (\<lambda>t. expires t = 0) (tick_head ts))"
    "tid u = tid t" by auto
  then have "u \<in> set (tick_head ts)" by (blast dest: set_takeWhileD)
  then have "\<exists>v \<in> set ts. tid v = tid u \<and> tproc v = tproc u"
    by (cases ts) (auto simp: tick_head_def)
  then obtain v where "v \<in> set ts" "tid v = tid u" "tproc v = tproc u" by blast
  moreover have "inj_on tid (set ts)" using assms(1) by (simp add: timer_inv_def distinct_map)
  ultimately have "v = t" using assms(2) u(2) by (auto dest: inj_onD)
  with u \<open>tproc v = tproc u\<close> show ?thesis by auto
qed

subsection \<open>The sorted listing of the pool\<close>

record stride_entry =
  epid :: int
  estride :: int
  epriority :: int

text \<open>\<^verbatim>\<open>inorder\<close> lists a node before its subtrees; the words are stored to \<^verbatim>\<open>int\<close> fields.\<close>

fun pool_listing :: "kstate \<Rightarrow> ptr tree \<Rightarrow> stride_entry list \<Rightarrow> stride_entry list" where
  "pool_listing k Leaf q = q"
| "pool_listing k (Node l p r) q =
     pool_listing k r (pool_listing k l
       (q @ [\<lparr>epid = pid (procs k p), estride = sint (stride (procs k p)),
              epriority = sint (priority (procs k p))\<rparr>]))"

definition sort_step :: "nat \<Rightarrow> nat \<Rightarrow> stride_entry list \<Rightarrow> stride_entry list" where
  "sort_step i j q = (if estride (q ! j) < estride (q ! i) then q[j := q ! i, i := q ! j] else q)"

definition sort_from :: "nat \<Rightarrow> nat \<Rightarrow> stride_entry list \<Rightarrow> stride_entry list" where
  "sort_from n i q = fold (sort_step i) [i + 1..<n] q"

definition stride_sort :: "stride_entry list \<Rightarrow> nat \<Rightarrow> stride_entry list" where
  "stride_sort q n = fold (sort_from n) [0..<n] q"

lemma sort_step_props:
  assumes "i < j" "j < length q"
  shows "length (sort_step i j q) = length q" "mset (sort_step i j q) = mset q"
    "estride (sort_step i j q ! i) \<le> estride (q ! i)"
    "estride (sort_step i j q ! i) \<le> estride (sort_step i j q ! j)"
    "k \<noteq> i \<Longrightarrow> k \<noteq> j \<Longrightarrow> sort_step i j q ! k = q ! k"
  using assms by (auto simp: sort_step_def mset_swap)

lemma sort_from_props:
  assumes "i < m" "m \<le> length q"
  shows "length (sort_from m i q) = length q \<and> mset (sort_from m i q) = mset q \<and>
    (\<forall>k. i \<le> k \<longrightarrow> k < m \<longrightarrow> estride (sort_from m i q ! i) \<le> estride (sort_from m i q ! k)) \<and>
    (\<forall>k. k < i \<or> m \<le> k \<longrightarrow> sort_from m i q ! k = q ! k)"
  using assms
proof (induction m)
  case (Suc m)
  show ?case
  proof (cases "i = m")
    case False
    then have m: "i < m" "m < length q" using Suc.prems by simp_all
    let ?q = "sort_from m i q"
    have step: "sort_from (Suc m) i q = sort_step i m ?q" using m(1) by (simp add: sort_from_def)
    have IH: "length ?q = length q" "mset ?q = mset q"
      "\<And>k. i \<le> k \<Longrightarrow> k < m \<Longrightarrow> estride (?q ! i) \<le> estride (?q ! k)"
      "\<And>k. k < i \<or> m \<le> k \<Longrightarrow> ?q ! k = q ! k" using Suc m by auto
    note P = sort_step_props[of i m ?q, OF m(1)]
    have "estride (sort_step i m ?q ! i) \<le> estride (sort_step i m ?q ! k)" if "i \<le> k" "k < Suc m" for k
      using that P(3,4) P(5)[of k] IH(1) IH(3)[of k] m(2)
      by (cases "k = i"; cases "k = m") (auto intro: order.trans)
    moreover have "sort_step i m ?q ! k = q ! k" if "k < i \<or> Suc m \<le> k" for k
      using that P(5)[of k] IH(1,4) m by auto
    ultimately show ?thesis unfolding step using P(1,2) IH(1,2) m(2) by simp
  qed (auto simp: sort_from_def less_Suc_eq)
qed simp

lemma sort_from_suffix:
  assumes "i < length q" "k < i" "i \<le> b" "b < length q" "\<forall>c. k < c \<longrightarrow> c < length q \<longrightarrow> x \<le> estride (q ! c)"
  shows "x \<le> estride (sort_from (length q) i q ! b)"
proof -
  let ?q = "sort_from (length q) i q"
  have P: "length ?q = length q" "mset ?q = mset q" "\<forall>k. k < i \<longrightarrow> ?q ! k = q ! k"
    using sort_from_props[OF assms(1)] by auto
  have "take i ?q = take i q" using P(1,3) assms(1) by (auto intro: nth_equalityI)
  with P(2) have "mset (drop i ?q) = mset (drop i q)"
    by (metis append_take_drop_id mset_append add_left_imp_eq)
  then have "set (drop i ?q) = set (drop i q)" by (metis set_mset_mset)
  moreover have "?q ! b \<in> set (drop i ?q)" using assms(3,4) P(1) by (auto simp: in_set_conv_nth intro!: exI[of _ "b - i"])
  ultimately have "?q ! b \<in> set (drop i q)" by simp
  then obtain d where "d < length q - i" "?q ! b = q ! (i + d)"
    using assms(1) by (auto simp: in_set_conv_nth)
  then obtain c where "i \<le> c" "c < length q" "?q ! b = q ! c" by (intro that[of "i + d"]) auto
  with assms(2,5) show ?thesis by auto
qed

lemma stride_sort_aux:
  assumes "n \<le> length q"
  shows "length (fold (sort_from (length q)) [0..<n] q) = length q \<and>
    mset (fold (sort_from (length q)) [0..<n] q) = mset q \<and>
    (\<forall>a b. a < n \<longrightarrow> a < b \<longrightarrow> b < length q \<longrightarrow>
       estride (fold (sort_from (length q)) [0..<n] q ! a) \<le> estride (fold (sort_from (length q)) [0..<n] q ! b))"
  using assms
proof (induction n)
  case (Suc n)
  let ?q = "fold (sort_from (length q)) [0..<n] q"
  let ?r = "sort_from (length ?q) n ?q"
  have IH: "length ?q = length q" "mset ?q = mset q"
    "\<And>a b. a < n \<Longrightarrow> a < b \<Longrightarrow> b < length q \<Longrightarrow> estride (?q ! a) \<le> estride (?q ! b)" using Suc by simp_all
  have n: "n < length ?q" using Suc.prems IH(1) by simp
  note P = sort_from_props[OF n order.refl]
  have "estride (?r ! a) \<le> estride (?r ! b)" if "a < Suc n" "a < b" "b < length q" for a b
  proof (cases "a = n")
    case False
    then have a: "a < n" "?r ! a = ?q ! a" using that(1) P by auto
    show ?thesis
    proof (cases "b < n")
      case True
      with a that IH(3) P show ?thesis by auto
    next
      case False
      with a that IH show ?thesis unfolding a(2) by (intro sort_from_suffix[OF n a(1)]) auto
    qed
  qed (use P that IH(1) in auto)
  with P IH show ?case by simp
qed simp

subsection \<open>Properties\<close>



text \<open>
  C5. \<^verbatim>\<open>add_timer\<close> of a timer that is not on the list and has a positive expiry succeeds and adds
  exactly the absolute deadline asked for; every other deadline is unchanged, although the code
  rewrites the relative expiries, and no 32-bit subtraction wraps.
\<close>

theorem add_timer_adds_deadline:
  assumes "timer_inv (timer_list k)" "expires t > 0" "tid t \<notin> tid ` set (timer_list k)"
  shows "\<exists>k'. add_timer k t = Some k' \<and> timer_inv (timer_list k') \<and>
     set (deadlines 0 (timer_list k')) = insert (tid t, unat (expires t)) (set (deadlines 0 (timer_list k)))"
proof -
  have "expires t \<noteq> 0" using assms(2) by auto
  with assms timer_inv_insert deadlines_insert[of 0 t "timer_list k"] show ?thesis
    by (simp add: add_timer_def)
qed

theorem add_timer_adds_deadline_witness:
  "\<exists>k'. add_timer ((demo_kstate RR [] Leaf [1] 1)\<lparr>timer_list := [timer_init 7 2 3]\<rparr>) (timer_init 8 3 5)
       = Some k' \<and> set (deadlines 0 (timer_list k')) = {(8, 5), (7, 3)}"
proof -
  let ?k = "(demo_kstate RR [] Leaf [1] 1)\<lparr>timer_list := [timer_init 7 2 3]\<rparr>"
  have "timer_inv (timer_list ?k)" "expires (timer_init 8 3 5) > 0"
    "tid (timer_init 8 3 5) \<notin> tid ` set (timer_list ?k)"
    by (simp_all add: timer_inv_def timer_init_def)
  from add_timer_adds_deadline[OF this] obtain k' where k': "add_timer ?k (timer_init 8 3 5) = Some k'"
    "set (deadlines 0 (timer_list k')) = insert (8, unat (5 :: u32)) (set (deadlines 0 [timer_init 7 2 3]))"
    by (auto simp: timer_init_def)
  have "insert (8, unat (5 :: u32)) (set (deadlines 0 [timer_init 7 2 3])) = {(8, 5), (7, 3)}"
    by (simp add: timer_init_def)
  with k' show ?thesis by (intro exI[of _ k']) simp
qed

text \<open>
  C6. \<^verbatim>\<open>del_timer\<close> removes the timer's deadline and no other, from any position of the list: the
  expiry given to the successor does not overflow.
\<close>

theorem del_timer_removes_deadline:
  assumes "timer_inv (timer_list k)"
  shows "timer_inv (timer_list (del_timer k i)) \<and>
     set (deadlines 0 (timer_list (del_timer k i))) = {(j, d) \<in> set (deadlines 0 (timer_list k)). j \<noteq> i}"
  using assms timer_inv_remove deadlines_remove[of "timer_list k" 0 i]
  by (simp add: del_timer_def timer_inv_def)

theorem del_timer_removes_deadline_witness:
  "set (deadlines 0 (timer_list (del_timer ((demo_kstate RR [] Leaf [1] 1)
      \<lparr>timer_list := [timer_init 7 2 3, timer_init 8 3 2]\<rparr>) 7))) = {(8, 5)}"
proof -
  let ?k = "(demo_kstate RR [] Leaf [1] 1)\<lparr>timer_list := [timer_init 7 2 3, timer_init 8 3 2]\<rparr>"
  have "timer_inv (timer_list ?k)" by (simp add: timer_inv_def timer_init_def)
  note del_timer_removes_deadline[OF this, of 7]
  moreover have "deadlines 0 (timer_list ?k) = [(7, 3), (8, 5)]" by (simp add: timer_init_def)
  ultimately show ?thesis by fastforce
qed

text \<open>
  C8. The sort of the queue listing orders the entries by stride and neither loses nor duplicates one.
\<close>

theorem stride_sort_sorts:
  "sorted (map estride (stride_sort q (length q))) \<and> mset (stride_sort q (length q)) = mset q"
  using stride_sort_aux[of "length q" q] by (auto simp: stride_sort_def sorted_iff_nth_mono_less)

end
