(* ===== verification/Proc.thy ===== *)
theory Proc
  imports Proc_Pid Timer
begin

text \<open>
  The life of a process in \<^verbatim>\<open>kern/process/proc.c\<close>: family links, \<^verbatim>\<open>do_fork\<close> with its error
  paths, \<^verbatim>\<open>do_exit\<close>, \<^verbatim>\<open>do_wait\<close>, \<^verbatim>\<open>do_kill\<close>, \<^verbatim>\<open>do_yield\<close>, \<^verbatim>\<open>do_sleep\<close>.

  The state adds to the scheduler's the resources a process owns: the allocated process structures,
  kernel stacks, and the reference counts of the address spaces and file tables in use. Whether an
  allocation in another component succeeds, and what it returns, is an argument (record
  \<open>fork_outcome\<close>), so that the theorems cover every combination of successes and failures.
\<close>

unbundle bit_operations_syntax

record kproc =
  pk :: kstate
  proc_mem :: "ptr set"
  kstacks :: "ptr set"
  mm_count :: "ptr \<rightharpoonup> int"
  files_count :: "ptr \<rightharpoonup> int"

definition upd_pk :: "(kstate \<Rightarrow> kstate) \<Rightarrow> kproc \<Rightarrow> kproc" where
  "upd_pk f s = s\<lparr>pk := f (pk s)\<rparr>"

subsection \<open>Family links\<close>

definition set_links :: "ptr \<Rightarrow> kstate \<Rightarrow> kstate option" where
  "set_links p k = do {
     let k = k\<lparr>proc_list := p # proc_list k\<rparr>;
     par \<leftarrow> parent (procs k p);
     let old = cptr (procs k par);
     let k = upd_proc p (\<lambda>q. q\<lparr>yptr := None, optr := old\<rparr>) k;
     let k = (case old of None \<Rightarrow> k | Some ol \<Rightarrow> upd_proc ol (\<lambda>q. q\<lparr>yptr := Some p\<rparr>) k);
     let k = upd_proc par (\<lambda>q. q\<lparr>cptr := Some p\<rparr>) k;
     Some (k\<lparr>nr_process := nr_process k + 1\<rparr>) }"

definition remove_links :: "ptr \<Rightarrow> kstate \<Rightarrow> kstate option" where
  "remove_links p k = do {
     let k = k\<lparr>proc_list := remove1 p (proc_list k)\<rparr>;
     let k = (case optr (procs k p) of None \<Rightarrow> k
              | Some ol \<Rightarrow> upd_proc ol (\<lambda>q. q\<lparr>yptr := yptr (procs k p)\<rparr>) k);
     k \<leftarrow> (case yptr (procs k p) of
            Some y \<Rightarrow> Some (upd_proc y (\<lambda>q. q\<lparr>optr := optr (procs k p)\<rparr>) k)
          | None \<Rightarrow> do {
              par \<leftarrow> parent (procs k p);
              Some (upd_proc par (\<lambda>q. q\<lparr>cptr := optr (procs k p)\<rparr>) k) });
     Some (k\<lparr>nr_process := nr_process k - 1\<rparr>) }"

subsection \<open>do_fork\<close>

definition CLONE_VM :: u32 where "CLONE_VM = 0x00000100"
definition CLONE_FS :: u32 where "CLONE_FS = 0x00000800"

record fork_outcome =
  new_proc :: "(ptr \<times> proc_struct) option"
  new_stack :: "ptr option"
  new_files :: "ptr option"
  dup_files_ret :: int
  new_mm :: "ptr option"
  pgdir_ok :: bool
  dup_mmap_ret :: int

definition put_kstack :: "ptr \<Rightarrow> kproc \<Rightarrow> kproc" where
  "put_kstack p s = s\<lparr>kstacks := kstacks s - set_option (kstack (procs (pk s) p))\<rparr>"

definition free_proc :: "ptr \<Rightarrow> kproc \<Rightarrow> kproc" where
  "free_proc p s = s\<lparr>proc_mem := proc_mem s - {p}\<rparr>"

definition setup_kstack :: "ptr \<Rightarrow> fork_outcome \<Rightarrow> kproc \<Rightarrow> int \<times> kproc" where
  "setup_kstack p oc s =
     (case new_stack oc of
        Some st \<Rightarrow> (0, upd_pk (upd_proc p (\<lambda>q. q\<lparr>kstack := Some st\<rparr>)) (s\<lparr>kstacks := insert st (kstacks s)\<rparr>))
      | None \<Rightarrow> (- E_NO_MEM, s))"

definition files_count_add :: "ptr \<Rightarrow> int \<Rightarrow> kproc \<Rightarrow> kproc" where
  "files_count_add f d s = s\<lparr>files_count := (files_count s)(f := map_option (\<lambda>n. n + d) (files_count s f))\<rparr>"

definition mm_count_add :: "ptr \<Rightarrow> int \<Rightarrow> kproc \<Rightarrow> kproc" where
  "mm_count_add m d s = s\<lparr>mm_count := (mm_count s)(m := map_option (\<lambda>n. n + d) (mm_count s m))\<rparr>"

definition copy_fs :: "u32 \<Rightarrow> ptr \<Rightarrow> fork_outcome \<Rightarrow> kproc \<Rightarrow> (int \<times> kproc) option" where
  "copy_fs fl p oc s = do {
     old \<leftarrow> filesp (procs (pk s) (current (pk s)));
     let good = (\<lambda>f s. Some (0, upd_pk (upd_proc p (\<lambda>q. q\<lparr>filesp := Some f\<rparr>)) (files_count_add f 1 s)));
     if fl AND CLONE_FS \<noteq> 0 then good old s
     else (case new_files oc of None \<Rightarrow> Some (- E_NO_MEM, s)
       | Some f \<Rightarrow>
           (if dup_files_ret oc \<noteq> 0 then Some (dup_files_ret oc, s\<lparr>files_count := (files_count s)(f := None)\<rparr>)
            else good f (s\<lparr>files_count := (files_count s)(f \<mapsto> 0)\<rparr>))) }"

definition put_fs :: "ptr \<Rightarrow> kproc \<Rightarrow> kproc" where
  "put_fs p s =
     (case filesp (procs (pk s) p) of None \<Rightarrow> s
      | Some f \<Rightarrow>
          (let s = files_count_add f (- 1) s
           in if files_count s f = Some 0 then s\<lparr>files_count := (files_count s)(f := None)\<rparr> else s))"

definition copy_mm :: "u32 \<Rightarrow> ptr \<Rightarrow> fork_outcome \<Rightarrow> kproc \<Rightarrow> int \<times> kproc" where
  "copy_mm fl p oc s =
     (case mm (procs (pk s) (current (pk s))) of None \<Rightarrow> (0, s)
      | Some oldmm \<Rightarrow>
         (let good = (\<lambda>m s. (0, upd_pk (upd_proc p (\<lambda>q. q\<lparr>mm := Some m\<rparr>)) (mm_count_add m 1 s)))
          in if fl AND CLONE_VM \<noteq> 0 then good oldmm s
             else (case new_mm oc of None \<Rightarrow> (- E_NO_MEM, s)
               | Some m \<Rightarrow>
                   (let s' = s\<lparr>mm_count := (mm_count s)(m \<mapsto> 0)\<rparr>;
                        destroy = (\<lambda>s. s\<lparr>mm_count := (mm_count s)(m := None)\<rparr>)
                    in if \<not> pgdir_ok oc then (- E_NO_MEM, destroy s')
                       else if dup_mmap_ret oc \<noteq> 0 then (dup_mmap_ret oc, destroy s')
                       else good m s'))))"

definition do_fork :: "sched_class \<Rightarrow> u32 \<Rightarrow> fork_outcome \<Rightarrow> kproc \<Rightarrow> (int \<times> kproc) option" where
  "do_fork C fl oc s =
     (if nr_process (pk s) \<ge> MAX_PROCESS then Some (- E_NO_FREE_PROC, s)
      else (case new_proc oc of None \<Rightarrow> Some (- E_NO_MEM, s)
        | Some (p, raw) \<Rightarrow> do {
            let c = current (pk s);
            let s = s\<lparr>proc_mem := insert p (proc_mem s)\<rparr>;
            let s = upd_pk (upd_proc p (\<lambda>_. (alloc_proc raw)\<lparr>parent := Some c\<rparr>)) s;
            kassert (wait_state (procs (pk s) c) = 0);
            let (r, s) = setup_kstack p oc s;
            if r \<noteq> 0 then Some (- E_NO_MEM, free_proc p s)
            else do {
              (r, s) \<leftarrow> copy_fs fl p oc s;
              if r \<noteq> 0 then Some (- E_NO_MEM, free_proc p (put_kstack p s))
              else do {
                let (r, s) = copy_mm fl p oc s;
                if r \<noteq> 0 then Some (- E_NO_MEM, free_proc p (put_kstack p (put_fs p s)))
                else do {
                  (i, k) \<leftarrow> get_pid (pk s);
                  let k = upd_proc p (\<lambda>q. q\<lparr>pid := i\<rparr>) k;
                  let k = hash_proc p k;
                  k \<leftarrow> set_links p k;
                  k \<leftarrow> wakeup_proc C k p;
                  Some (i, s\<lparr>pk := k\<rparr>) } } } }))"

subsection \<open>do_exit\<close>

text \<open>\<^verbatim>\<open>mm_count_dec(mm) == 0\<close>: the address space is torn down (\<^verbatim>\<open>exit_mmap\<close>, \<^verbatim>\<open>put_pgdir\<close>, \<^verbatim>\<open>mm_destroy\<close>).\<close>

definition drop_mm :: "ptr \<Rightarrow> kproc \<Rightarrow> kproc" where
  "drop_mm m s =
     (let s = mm_count_add m (- 1) s
      in if mm_count s m = Some 0 then s\<lparr>mm_count := (mm_count s)(m := None)\<rparr> else s)"

text \<open>The body of the loop that hands the children of \<open>c\<close> to \<^verbatim>\<open>initproc\<close>, child \<open>p\<close> first.\<close>

definition relink :: "ptr \<Rightarrow> ptr \<Rightarrow> ptr \<Rightarrow> kstate \<Rightarrow> kstate" where
  "relink c ini p k =
     (let k = upd_proc c (\<lambda>q. q\<lparr>cptr := optr (procs k p)\<rparr>) k;
          old = cptr (procs k ini);
          k = upd_proc p (\<lambda>q. q\<lparr>yptr := None, optr := old\<rparr>) k;
          k = (case old of None \<Rightarrow> k | Some ol \<Rightarrow> upd_proc ol (\<lambda>q. q\<lparr>yptr := Some p\<rparr>) k);
          k = upd_proc p (\<lambda>q. q\<lparr>parent := Some ini\<rparr>) k
      in upd_proc ini (\<lambda>q. q\<lparr>cptr := Some p\<rparr>) k)"

definition reparent :: "sched_class \<Rightarrow> ptr \<Rightarrow> ptr \<Rightarrow> ptr \<Rightarrow> kstate \<Rightarrow> kstate option" where
  "reparent C c ini p k =
     (let k = relink c ini p k
      in if state (procs k p) = PROC_ZOMBIE \<and> wait_state (procs k ini) = WT_CHILD
         then wakeup_proc C k ini else Some k)"

partial_function (option) reparent_loop :: "sched_class \<Rightarrow> ptr \<Rightarrow> ptr \<Rightarrow> kstate \<Rightarrow> kstate option" where
  "reparent_loop C c ini k =
     (case cptr (procs k c) of None \<Rightarrow> Some k
      | Some p \<Rightarrow> reparent C c ini p k \<bind> (\<lambda>k. reparent_loop C c ini k))"

text \<open>The state of \<^verbatim>\<open>do_exit\<close> after the process has given up its resources.\<close>

definition exited :: "ptr \<Rightarrow> int \<Rightarrow> kproc \<Rightarrow> kproc" where
  "exited c code s =
     (let s = (case mm (procs (pk s) c) of None \<Rightarrow> s
        | Some m \<Rightarrow> upd_pk (upd_proc c (\<lambda>q. q\<lparr>mm := None\<rparr>)) (drop_mm m s));
          s = put_fs c s
      in upd_pk (upd_proc c (\<lambda>q. q\<lparr>state := PROC_ZOMBIE, exit_code := code\<rparr>)) s)"

definition do_exit :: "sched_class \<Rightarrow> int \<Rightarrow> kproc \<Rightarrow> kproc option" where
  "do_exit C code s = do {
     let c = current (pk s);
     kassert (c \<noteq> idleproc (pk s));
     kassert (Some c \<noteq> initproc (pk s));
     ini \<leftarrow> initproc (pk s);
     let s = exited c code s;
     par \<leftarrow> parent (procs (pk s) c);
     k \<leftarrow> (if wait_state (procs (pk s) par) = WT_CHILD then wakeup_proc C (pk s) par else Some (pk s));
     k \<leftarrow> reparent_loop C c ini k;
     k \<leftarrow> schedule C k;
     Some (s\<lparr>pk := k\<rparr>) }"

subsection \<open>do_wait\<close>

text \<open>The zombie child that \<^verbatim>\<open>do_wait\<close> looks for, and whether there is a child to wait for.\<close>

partial_function (option) scan_children :: "kstate \<Rightarrow> ptr option \<Rightarrow> bool \<Rightarrow> (bool \<times> ptr option) option" where
  "scan_children k pr haskid =
     (case pr of None \<Rightarrow> Some (haskid, None)
      | Some p \<Rightarrow> if state (procs k p) = PROC_ZOMBIE then Some (True, Some p)
                   else scan_children k (optr (procs k p)) True)"

definition wait_target :: "int \<Rightarrow> kstate \<Rightarrow> (bool \<times> ptr option) option" where
  "wait_target i k =
     (if i \<noteq> 0 then
        (case find_proc i k of
           Some p \<Rightarrow> (if parent (procs k p) = Some (current k)
                      then Some (True, if state (procs k p) = PROC_ZOMBIE then Some p else None)
                      else Some (False, None))
         | None \<Rightarrow> Some (False, None))
      else scan_children k (cptr (procs k (current k))) False)"

datatype wait_result = Reaped ptr int | Wait_blocked | Wait_error int | Wait_exited

text \<open>One round of the loop: \<open>Wait_blocked\<close> is the state after \<^verbatim>\<open>schedule\<close>, before the next round.\<close>

definition do_wait_round :: "sched_class \<Rightarrow> int \<Rightarrow> kproc \<Rightarrow> (wait_result \<times> kproc) option" where
  "do_wait_round C i s = do {
     (haskid, z) \<leftarrow> wait_target i (pk s);
     (case z of
        Some p \<Rightarrow> do {
          kassert (p \<noteq> idleproc (pk s) \<and> Some p \<noteq> initproc (pk s));
          let code = exit_code (procs (pk s) p);
          let k = unhash_proc p (pk s);
          k \<leftarrow> remove_links p k;
          Some (Reaped p code, free_proc p (put_kstack p (s\<lparr>pk := k\<rparr>))) }
      | None \<Rightarrow>
          (if haskid then do {
             let k = upd_proc (current (pk s)) (\<lambda>q. q\<lparr>state := PROC_SLEEPING, wait_state := WT_CHILD\<rparr>) (pk s);
             k \<leftarrow> schedule C k;
             Some (Wait_blocked, s\<lparr>pk := k\<rparr>) }
           else Some (Wait_error (- E_BAD_PROC), s))) }"

text \<open>After \<^verbatim>\<open>schedule\<close> a killed caller exits, another starts the next round; \<open>code_ok\<close> is the answer of
  \<^verbatim>\<open>user_mem_check\<close> for the place of the exit code (true if there is none).\<close>

definition do_wait_resume :: "sched_class \<Rightarrow> int \<Rightarrow> kproc \<Rightarrow> (wait_result \<times> kproc) option" where
  "do_wait_resume C i s =
     (if flags (procs (pk s) (current (pk s))) AND PF_EXITING \<noteq> 0
      then map_option (\<lambda>s. (Wait_exited, s)) (do_exit C (- E_KILLED) s)
      else do_wait_round C i s)"

definition do_wait :: "sched_class \<Rightarrow> bool \<Rightarrow> int \<Rightarrow> kproc \<Rightarrow> (wait_result \<times> kproc) option" where
  "do_wait C code_ok i s = (if \<not> code_ok then Some (Wait_error (- E_INVAL), s) else do_wait_round C i s)"

subsection \<open>The other calls\<close>

definition do_yield :: "kstate \<Rightarrow> int \<times> kstate" where
  "do_yield k = (0, upd_proc (current k) (\<lambda>q. q\<lparr>need_resched := True\<rparr>) k)"

text \<open>
  \<^verbatim>\<open>do_kill\<close>: its loop looks at the first entry of the process list only (the \<^verbatim>\<open>break\<close> is
  unconditional) and unlinks it forwards if it is the process to kill.
\<close>

definition do_kill :: "sched_class \<Rightarrow> int \<Rightarrow> kstate \<Rightarrow> (int \<times> kstate) option" where
  "do_kill C i k = do {
     let k = (case proc_list k of [] \<Rightarrow> k
              | q # qs \<Rightarrow> if pid (procs k q) = i then k\<lparr>proc_list := qs\<rparr> else k);
     (case find_proc i k of
        Some p \<Rightarrow>
          (if flags (procs k p) AND PF_EXITING = 0 then do {
             let k = upd_proc p (\<lambda>q. q\<lparr>flags := flags q OR PF_EXITING\<rparr>) k;
             k \<leftarrow> (if wait_state (procs k p) AND WT_INTERRUPTED \<noteq> 0 then wakeup_proc C k p else Some k);
             Some (0, k) }
           else Some (- E_KILLED, k))
      | None \<Rightarrow> Some (- E_INVAL, k)) }"

text \<open>
  The same loop on the links of \<^verbatim>\<open>list.h\<close>, where \<open>h\<close> is the head of the process list and \<open>sel\<close> says
  whether an entry belongs to the process to kill: only the forward link of the head is changed.
\<close>

definition kill_unlink :: "'p list_store \<Rightarrow> 'p \<Rightarrow> ('p \<Rightarrow> bool) \<Rightarrow> 'p list_store" where
  "kill_unlink s h sel =
     (if list_next s h \<noteq> h \<and> sel (list_next s h) then set_next s h (next (s (next (s h)))) else s)"

definition lab6_set_priority :: "u32 \<Rightarrow> kstate \<Rightarrow> kstate" where
  "lab6_set_priority prio k = upd_proc (current k) (\<lambda>q. q\<lparr>priority := if prio = 0 then 1 else prio\<rparr>) k"

text \<open>\<^verbatim>\<open>do_sleep\<close> up to its call of \<^verbatim>\<open>schedule\<close>, and after it; \<open>t\<close> is the timer on its stack.\<close>

definition do_sleep_begin :: "sched_class \<Rightarrow> ptr \<Rightarrow> u32 \<Rightarrow> kstate \<Rightarrow> kstate option" where
  "do_sleep_begin C t time k =
     (if time = 0 then Some k
      else do {
        let c = current k;
        let tm = timer_init t c (sint time);
        let k = upd_proc c (\<lambda>q. q\<lparr>state := PROC_SLEEPING, wait_state := WT_TIMER\<rparr>) k;
        k \<leftarrow> add_timer k tm;
        schedule C k })"

definition do_sleep_end :: "ptr \<Rightarrow> kstate \<Rightarrow> int \<times> kstate" where
  "do_sleep_end t k = (0, del_timer k t)"

definition cpu_idle_step :: "sched_class \<Rightarrow> kstate \<Rightarrow> kstate option" where
  "cpu_idle_step C k = (if need_resched (procs k (current k)) then schedule C k else Some k)"

subsection \<open>The children of a process\<close>

text \<open>
  A segment of the children's list, from the youngest: \<open>y\<close> is the younger neighbour of its first
  element and \<open>e\<close> the pointer after its last.
\<close>

fun sibs :: "(ptr \<Rightarrow> proc_struct) \<Rightarrow> ptr option \<Rightarrow> ptr option \<Rightarrow> ptr list \<Rightarrow> ptr option \<Rightarrow> bool" where
  "sibs P y f [] e \<longleftrightarrow> f = e"
| "sibs P y f (c # cs) e \<longleftrightarrow> f = Some c \<and> yptr (P c) = y \<and> sibs P (Some c) (optr (P c)) cs e"

definition family :: "kstate \<Rightarrow> ptr \<Rightarrow> ptr list \<Rightarrow> bool" where
  "family k p cs \<longleftrightarrow> sibs (procs k) None (cptr (procs k p)) cs None \<and> distinct cs \<and>
     (\<forall>c \<in> set cs. parent (procs k c) = Some p)"

definition last_opt :: "'a option \<Rightarrow> 'a list \<Rightarrow> 'a option" where
  "last_opt y xs = (if xs = [] then y else Some (last xs))"

lemma sibs_append: "sibs P y f (xs @ ys) e \<longleftrightarrow> (\<exists>m. sibs P y f xs m \<and> sibs P (last_opt y xs) m ys e)"
  by (induction xs arbitrary: y f) (auto simp: last_opt_def)

lemma sibs_cong:
  "(\<And>c. c \<in> set cs \<Longrightarrow> yptr (P' c) = yptr (P c) \<and> optr (P' c) = optr (P c)) \<Longrightarrow>
   sibs P' y f cs e = sibs P y f cs e"
  by (induction cs arbitrary: y f) auto

lemma family_cong:
  assumes "\<And>c. c \<in> set cs \<Longrightarrow> yptr (procs k' c) = yptr (procs k c) \<and> optr (procs k' c) = optr (procs k c) \<and>
      parent (procs k' c) = parent (procs k c)"
    "cptr (procs k' p) = cptr (procs k p)"
  shows "family k' p cs = family k p cs"
  using sibs_cong[of cs "procs k'" "procs k"] assms by (simp add: family_def)

lemma family_disjoint: "family k p cs \<Longrightarrow> family k q ds \<Longrightarrow> p \<noteq> q \<Longrightarrow> set cs \<inter> set ds = {}"
  by (fastforce simp: family_def)

lemma set_links_family:
  assumes "parent (procs k c) = Some p" "family k p cs" "c \<notin> set cs"
  shows "\<exists>k'. set_links c k = Some k' \<and> family k' p (c # cs) \<and>
    proc_list k' = c # proc_list k \<and> nr_process k' = nr_process k + 1 \<and>
    (\<forall>q ds. q \<noteq> p \<longrightarrow> family k q ds \<longrightarrow> c \<notin> set ds \<longrightarrow> family k' q ds)"
proof -
  define k' where "k' = the (set_links c k)"
  have e: "set_links c k = Some k'" by (simp add: k'_def set_links_def assms(1) Let_def)
  have F: "yptr (procs k' q) = (if Some q = cptr (procs k p) then Some c else if q = c then None else yptr (procs k q))"
    "optr (procs k' q) = (if q = c then cptr (procs k p) else optr (procs k q))"
    "cptr (procs k' q) = (if q = p then Some c else cptr (procs k q))"
    "parent (procs k' q) = parent (procs k q)" for q
    using assms(1) by (auto simp: k'_def set_links_def Let_def split: option.splits)
  have "proc_list k' = c # proc_list k" "nr_process k' = nr_process k + 1"
    using assms(1) by (auto simp: k'_def set_links_def Let_def split: option.splits)
  moreover have "family k' p (c # cs)"
  proof -
    have "sibs (procs k') (Some c) (cptr (procs k p)) cs None"
    proof (cases cs)
      case (Cons d ds)
      with assms(2,3) have "sibs (procs k) (Some d) (optr (procs k d)) ds None" "cptr (procs k p) = Some d" "d \<noteq> c"
        "c \<notin> set ds" "d \<notin> set ds" by (auto simp: family_def)
      moreover from this have "sibs (procs k') (Some d) (optr (procs k d)) ds None"
        by (subst sibs_cong[of ds _ "procs k"]) (auto simp: F)
      ultimately show ?thesis by (simp add: Cons F)
    qed (use assms(2) in \<open>simp add: family_def\<close>)
    moreover have "Some c \<noteq> cptr (procs k p)" using assms(2,3) by (cases cs) (auto simp: family_def)
    ultimately show ?thesis using assms by (auto simp: family_def F)
  qed
  moreover have "family k' q ds" if "q \<noteq> p" "family k q ds" "c \<notin> set ds" for q ds
  proof -
    have "Some d \<noteq> cptr (procs k p)" if "d \<in> set ds" for d
      using family_disjoint[OF \<open>family k q ds\<close> assms(2) \<open>q \<noteq> p\<close>] assms(2) that
      by (cases cs) (auto simp: family_def)
    with that show ?thesis by (subst family_cong[of ds k' k q]) (auto simp: F)
  qed
  ultimately show ?thesis using e by blast
qed

text \<open>The state after \<^verbatim>\<open>remove_links(c)\<close>, field by field, for a child \<open>c\<close> of \<open>p\<close>.\<close>

definition links_removed :: "ptr \<Rightarrow> ptr \<Rightarrow> kstate \<Rightarrow> kstate \<Rightarrow> bool" where
  "links_removed c p k k' \<longleftrightarrow>
     (\<forall>q. yptr (procs k' q) = (if Some q = optr (procs k c) then yptr (procs k c) else yptr (procs k q)) \<and>
        optr (procs k' q) = (if Some q = yptr (procs k c) then optr (procs k c) else optr (procs k q)) \<and>
        cptr (procs k' q) = (if yptr (procs k c) = None \<and> q = p then optr (procs k c) else cptr (procs k q)) \<and>
        parent (procs k' q) = parent (procs k q) \<and> state (procs k' q) = state (procs k q) \<and>
        kstack (procs k' q) = kstack (procs k q) \<and> pid (procs k' q) = pid (procs k q) \<and>
        in_rq (procs k' q) = in_rq (procs k q)) \<and>
     proc_list k' = remove1 c (proc_list k) \<and> nr_process k' = nr_process k - 1 \<and> rq k' = rq k \<and>
     current k' = current k \<and> idleproc k' = idleproc k \<and> initproc k' = initproc k \<and> hash_list k' = hash_list k"

lemma remove_links_fields:
  assumes "parent (procs k c) = Some p" "optr (procs k c) \<noteq> Some c" "yptr (procs k c) \<noteq> Some c"
  shows "\<exists>k'. remove_links c k = Some k' \<and> links_removed c p k k'"
proof -
  define k' where "k' = the (remove_links c k)"
  have "remove_links c k = Some k'"
    using assms by (cases "yptr (procs k c)"; cases "optr (procs k c)") (auto simp: k'_def remove_links_def Let_def)
  moreover have "links_removed c p k k'"
    using assms by (cases "optr (procs k c)"; cases "yptr (procs k c)")
      (auto simp: k'_def remove_links_def Let_def links_removed_def)
  ultimately show ?thesis by blast
qed

lemma sibs_last:
  "sibs P y f (xs @ [x]) e \<longleftrightarrow> sibs P y f xs (Some x) \<and> yptr (P x) = last_opt y xs \<and> optr (P x) = e"
  by (auto simp: sibs_append)

lemma family_split:
  assumes "family k p (xs @ c # ys)"
  shows "sibs (procs k) None (cptr (procs k p)) xs (Some c)" "yptr (procs k c) = last_opt None xs"
    "sibs (procs k) (Some c) (optr (procs k c)) ys None"
    "optr (procs k c) = (case ys of [] \<Rightarrow> None | z # _ \<Rightarrow> Some z)"
    "distinct (xs @ c # ys)" "\<And>d. d \<in> set (xs @ c # ys) \<Longrightarrow> parent (procs k d) = Some p"
  using assms by (auto simp: family_def sibs_append split: list.splits)

lemma remove_links_family:
  assumes fam: "family k p cs" and c: "c \<in> set cs"
  shows "\<exists>k'. remove_links c k = Some k' \<and> links_removed c p k k' \<and> family k' p (remove1 c cs) \<and>
    (\<forall>q ds. q \<noteq> p \<longrightarrow> family k q ds \<longrightarrow> family k' q ds)"
proof -
  obtain xs ys where cs: "cs = xs @ c # ys" using split_list[OF c] by blast
  note S = family_split[OF fam[unfolded cs]]
  have par: "parent (procs k c) = Some p" using S(6) by simp
  have o: "optr (procs k c) \<noteq> Some c" using S(4,5) by (auto split: list.splits)
  have y: "yptr (procs k c) \<noteq> Some c" using S(2,5) by (auto simp: last_opt_def)
  obtain k' where k': "remove_links c k = Some k'" "links_removed c p k k'"
    using remove_links_fields[OF par o y] by blast
  have R: "yptr (procs k' q) = (if Some q = optr (procs k c) then yptr (procs k c) else yptr (procs k q))"
    "optr (procs k' q) = (if Some q = yptr (procs k c) then optr (procs k c) else optr (procs k q))"
    "cptr (procs k' q) = (if yptr (procs k c) = None \<and> q = p then optr (procs k c) else cptr (procs k q))"
    "parent (procs k' q) = parent (procs k q)" for q
    using k'(2) unfolding links_removed_def by blast+
  have lx: "last xs \<notin> set ys" if "xs \<noteq> []" using S(5) last_in_set[OF that] by auto
  have tail: "sibs (procs k') (last_opt None xs) (optr (procs k c)) ys None"
  proof (cases ys)
    case (Cons z zs)
    have "sibs (procs k') (Some z) (optr (procs k z)) zs None"
      using S(3,5) lx Cons by (subst sibs_cong[of zs _ "procs k"]) (auto simp: R(1,2) S(2,4) last_opt_def)
    with S lx Cons show ?thesis by (auto simp: R(1,2) last_opt_def)
  qed (use S(4) in simp)
  have head: "sibs (procs k') None (cptr (procs k' p)) xs (optr (procs k c))"
  proof (cases xs rule: rev_cases)
    case Nil
    then show ?thesis using S(2) by (simp add: R(3) last_opt_def)
  next
    case (snoc us x)
    have "sibs (procs k') None (cptr (procs k p)) us (Some x)"
      using S(1,5) snoc by (subst sibs_cong[of us _ "procs k"])
        (auto simp: R(1,2) S(2,4) last_opt_def sibs_last split: list.splits)
    moreover have "Some x \<noteq> optr (procs k c)" using S(4,5) snoc by (auto split: list.splits)
    ultimately show ?thesis using S(1,2) snoc by (simp add: sibs_last R last_opt_def)
  qed
  have rm: "remove1 c cs = xs @ ys" using S(5) by (simp add: cs remove1_append)
  have "family k' p (remove1 c cs)"
    using head tail S(5,6) by (auto simp: family_def rm sibs_append R(4))
  moreover have "family k' q ds" if "q \<noteq> p" "family k q ds" for q ds
  proof -
    have "set ds \<inter> set cs = {}" using family_disjoint[OF that(2) fam that(1)] .
    moreover have "Some d = optr (procs k c) \<Longrightarrow> d \<in> set cs" "Some d = yptr (procs k c) \<Longrightarrow> d \<in> set cs" for d
      using S(2,4) by (auto simp: cs last_opt_def split: list.splits if_splits)
    ultimately show ?thesis using that by (subst family_cong[of ds k' k q]) (auto simp: R)
  qed
  ultimately show ?thesis using k' by blast
qed

subsection \<open>Reparenting\<close>

fun ochain :: "(ptr \<Rightarrow> proc_struct) \<Rightarrow> ptr option \<Rightarrow> ptr list \<Rightarrow> bool" where
  "ochain P f [] \<longleftrightarrow> f = None"
| "ochain P f (c # cs) \<longleftrightarrow> f = Some c \<and> ochain P (optr (P c)) cs"

lemma ochain_cong:
  "(\<And>c. c \<in> set cs \<Longrightarrow> optr (P' c) = optr (P c)) \<Longrightarrow> ochain P' f cs = ochain P f cs"
  by (induction cs arbitrary: f) auto

lemma sibs_ochain: "sibs P y f cs None \<Longrightarrow> ochain P f cs"
  by (induction cs arbitrary: y f) auto

lemma relink_fields:
  assumes "c \<noteq> ini"
  shows "yptr (procs (relink c ini p k) q) =
      (if Some q = cptr (procs k ini) then Some p else if q = p then None else yptr (procs k q))"
    "optr (procs (relink c ini p k) q) = (if q = p then cptr (procs k ini) else optr (procs k q))"
    "cptr (procs (relink c ini p k) q) =
      (if q = ini then Some p else if q = c then optr (procs k p) else cptr (procs k q))"
    "parent (procs (relink c ini p k) q) = (if q = p then Some ini else parent (procs k q))"
    "state (procs (relink c ini p k) q) = state (procs k q)"
    "wait_state (procs (relink c ini p k) q) = wait_state (procs k q)"
    "in_rq (procs (relink c ini p k) q) = in_rq (procs k q)"
    "exit_code (procs (relink c ini p k) q) = exit_code (procs k q)"
    "rq (relink c ini p k) = rq k" "current (relink c ini p k) = current k"
    "idleproc (relink c ini p k) = idleproc k"
  using assms by (auto simp: relink_def Let_def split: option.splits)

lemma relink_family:
  assumes "c \<noteq> ini" "family k ini ds" "p \<notin> set ds"
  shows "family (relink c ini p k) ini (p # ds)"
proof -
  note F = relink_fields[OF assms(1), of p k]
  have "sibs (procs (relink c ini p k)) (Some p) (cptr (procs k ini)) ds None"
  proof (cases ds)
    case (Cons d es)
    with assms(2,3) have d: "sibs (procs k) (Some d) (optr (procs k d)) es None" "cptr (procs k ini) = Some d"
      "d \<noteq> p" "p \<notin> set es" "d \<notin> set es" by (auto simp: family_def)
    have "sibs (procs (relink c ini p k)) (Some d) (optr (procs k d)) es None"
      using d by (subst sibs_cong[of es _ "procs k"]) (auto simp: F)
    with d show ?thesis by (simp add: Cons F)
  qed (use assms(2) in \<open>simp add: family_def\<close>)
  moreover have "Some p \<noteq> cptr (procs k ini)" using assms(2,3) by (cases ds) (auto simp: family_def)
  ultimately show ?thesis using assms(2,3) by (auto simp: family_def F)
qed

lemma upd_pk_sel [simp]:
  "pk (upd_pk f s) = f (pk s)" "proc_mem (upd_pk f s) = proc_mem s" "kstacks (upd_pk f s) = kstacks s"
  "mm_count (upd_pk f s) = mm_count s" "files_count (upd_pk f s) = files_count s"
  by (simp_all add: upd_pk_def)

lemma resource_pk [simp]:
  "pk (drop_mm m s) = pk s" "pk (put_fs p s) = pk s" "pk (files_count_add f d s) = pk s" "pk (mm_count_add m d s) = pk s"
  "pk (put_kstack p s) = pk s" "pk (free_proc p s) = pk s"
  by (simp_all add: drop_mm_def put_fs_def files_count_add_def mm_count_add_def put_kstack_def free_proc_def Let_def
      split: option.splits)

lemma exited_fields:
  "state (procs (pk (exited c code s)) q) = (if q = c then PROC_ZOMBIE else state (procs (pk s) q))"
  "exit_code (procs (pk (exited c code s)) q) = (if q = c then code else exit_code (procs (pk s) q))"
  "parent (procs (pk (exited c code s)) q) = parent (procs (pk s) q)"
  "cptr (procs (pk (exited c code s)) q) = cptr (procs (pk s) q)"
  "yptr (procs (pk (exited c code s)) q) = yptr (procs (pk s) q)"
  "optr (procs (pk (exited c code s)) q) = optr (procs (pk s) q)"
  "wait_state (procs (pk (exited c code s)) q) = wait_state (procs (pk s) q)"
  "in_rq (procs (pk (exited c code s)) q) = in_rq (procs (pk s) q)"
  "rq (pk (exited c code s)) = rq (pk s)" "current (pk (exited c code s)) = current (pk s)"
  "idleproc (pk (exited c code s)) = idleproc (pk s)" "initproc (pk (exited c code s)) = initproc (pk s)"
  by (auto simp: exited_def Let_def split: option.splits)

context sched_ok
begin

lemma reparent_ok:
  assumes "cinv k" "runnable_ok (Q k) A k" "c \<noteq> ini" "family k ini ds" "ochain (procs k) (Some p) (p # cs)"
    "distinct (p # cs)" "set (p # cs) \<inter> set ds = {}" "state (procs k ini) \<noteq> PROC_ZOMBIE"
  shows "\<exists>k'. reparent C c ini p k = Some k' \<and> cinv k' \<and> runnable_ok (Q k') A k' \<and>
    family k' ini (p # ds) \<and> ochain (procs k') (cptr (procs k' c)) cs \<and>
    (\<forall>q. q \<noteq> ini \<longrightarrow> state (procs k' q) = state (procs k q)) \<and> state (procs k' ini) \<noteq> PROC_ZOMBIE \<and>
    (\<forall>q. state (procs k q) = PROC_RUNNABLE \<longrightarrow> state (procs k' q) = PROC_RUNNABLE) \<and>
    (\<forall>q. exit_code (procs k' q) = exit_code (procs k q)) \<and>
    current k' = current k \<and> idleproc k' = idleproc k"
proof -
  let ?k = "relink c ini p k"
  note F = relink_fields[OF assms(3), of p k]
  have fam: "family ?k ini (p # ds)" using relink_family[OF assms(3,4)] assms(7) by auto
  have ch: "ochain (procs ?k) (cptr (procs ?k c)) cs"
    using assms(3,5,6) by (subst ochain_cong[of cs _ "procs k"]) (auto simp: F)
  have ci: "cinv ?k" "Q ?k = Q k" using inv_cong[of ?k k] Q_cong[of ?k k] assms(1) by (simp_all add: F)
  have ok: "runnable_ok (Q ?k) A ?k" using assms(2) by (simp add: runnable_ok_def F ci(2))
  show ?thesis
  proof (cases "state (procs ?k p) = PROC_ZOMBIE \<and> wait_state (procs ?k ini) = WT_CHILD")
    case True
    have z: "state (procs ?k ini) \<noteq> PROC_ZOMBIE" using assms(8) by (simp add: F)
    from wakeup_proc_ok[OF ci(1) ok z] obtain k' where k': "wakeup_proc C ?k ini = Some k'" "cinv k'"
      "runnable_ok (Q k') A k'" "state (procs k' ini) = PROC_RUNNABLE" "current k' = current ?k" by blast
    note W = wakeup_proc_frame[OF ci(1) ok k'(1)]
    have "family k' ini (p # ds)" using fam by (subst family_cong[of _ k' ?k]) (simp_all add: W)
    moreover have "ochain (procs k') (cptr (procs k' c)) cs"
      using ch by (subst ochain_cong[of cs _ "procs ?k"]) (simp_all add: W)
    moreover have st: "state (procs k' q) = (if q = ini then PROC_RUNNABLE else state (procs k q))" for q
      using W(4)[of q] k'(4) by (simp add: F)
    moreover have "reparent C c ini p k = Some k'" using True k'(1) by (simp add: reparent_def)
    ultimately show ?thesis using k'(2,3,5) W(2,12) by (auto simp: F st)
  next
    case False
    then have "reparent C c ini p k = Some ?k" by (auto simp: reparent_def Let_def)
    with fam ch ci ok assms(8) show ?thesis by (simp add: F)
  qed
qed

lemma reparent_loop_ok:
  assumes "cinv k" "runnable_ok (Q k) A k" "c \<noteq> ini" "family k ini ds" "ochain (procs k) (cptr (procs k c)) cs"
    "distinct cs" "set cs \<inter> set ds = {}" "state (procs k ini) \<noteq> PROC_ZOMBIE"
  shows "\<exists>k'. reparent_loop C c ini k = Some k' \<and> cinv k' \<and> runnable_ok (Q k') A k' \<and>
    family k' ini (rev cs @ ds) \<and> cptr (procs k' c) = None \<and>
    (\<forall>q. q \<noteq> ini \<longrightarrow> state (procs k' q) = state (procs k q)) \<and>
    (\<forall>q. state (procs k q) = PROC_RUNNABLE \<longrightarrow> state (procs k' q) = PROC_RUNNABLE) \<and>
    (\<forall>q. exit_code (procs k' q) = exit_code (procs k q)) \<and>
    current k' = current k \<and> idleproc k' = idleproc k"
  using assms
proof (induction cs arbitrary: k ds)
  case Nil
  then show ?case by (subst reparent_loop.simps) simp
next
  case (Cons p cs)
  have "ochain (procs k) (Some p) (p # cs)" "cptr (procs k c) = Some p" using Cons.prems(5) by auto
  from reparent_ok[OF Cons.prems(1-4) this(1) Cons.prems(6-8)] obtain k1 where
    k1: "reparent C c ini p k = Some k1" "cinv k1" "runnable_ok (Q k1) A k1" "family k1 ini (p # ds)"
      "ochain (procs k1) (cptr (procs k1 c)) cs" "\<forall>q. q \<noteq> ini \<longrightarrow> state (procs k1 q) = state (procs k q)"
      "state (procs k1 ini) \<noteq> PROC_ZOMBIE"
      "\<forall>q. state (procs k q) = PROC_RUNNABLE \<longrightarrow> state (procs k1 q) = PROC_RUNNABLE"
      "\<forall>q. exit_code (procs k1 q) = exit_code (procs k q)" "current k1 = current k" "idleproc k1 = idleproc k"
    by blast
  have "distinct cs" "set cs \<inter> set (p # ds) = {}" using Cons.prems(6,7) by auto
  from Cons.IH[OF k1(2,3) Cons.prems(3) k1(4,5) this k1(7)] k1(1,6,8-11) \<open>cptr (procs k c) = Some p\<close>
  show ?case by (subst reparent_loop.simps) auto
qed

lemma family_same_links:
  assumes "\<And>q. same_links (procs k q) (procs k' q)"
  shows "family k' p cs = family k p cs"
  using assms by (intro family_cong) (simp_all add: same_links_def)

lemma wake_parent_ok:
  assumes "cinv k" "runnable_ok (Q k) A k" "state (procs k par) \<noteq> PROC_ZOMBIE"
  shows "\<exists>k'. (if b then wakeup_proc C k par else Some k) = Some k' \<and> cinv k' \<and> runnable_ok (Q k') A k' \<and>
    (\<forall>q. state (procs k' q) = (if b \<and> q = par then PROC_RUNNABLE else state (procs k q))) \<and>
    (\<forall>q. same_links (procs k q) (procs k' q)) \<and> current k' = current k \<and> idleproc k' = idleproc k"
proof (cases b)
  case True
  from wakeup_proc_ok[OF assms] obtain k' where k': "wakeup_proc C k par = Some k'" "cinv k'"
    "runnable_ok (Q k') A k'" "state (procs k' par) = PROC_RUNNABLE" "current k' = current k" by blast
  with wakeup_proc_frame(2,4,18)[OF assms(1,2) k'(1)] True show ?thesis by auto
qed (use assms in \<open>simp add: same_links_def\<close>)

lemma do_exit_ok:
  assumes ci: "cinv (pk s)" and ok: "runnable_ok (Q (pk s)) A (pk s)"
    and c: "c = current (pk s)" "c \<noteq> idleproc (pk s)" "initproc (pk s) = Some ini" "c \<noteq> ini"
    and par: "parent (procs (pk s) c) = Some par" "par \<noteq> c"
      "state (procs (pk s) par) \<noteq> PROC_ZOMBIE" "state (procs (pk s) ini) \<noteq> PROC_ZOMBIE"
    and fam: "family (pk s) c cs" "family (pk s) ini ds"
  shows "\<exists>s'. do_exit C code s = Some s' \<and> cinv (pk s') \<and> runnable_ok (Q (pk s')) A (pk s') \<and>
    state (procs (pk s') c) = PROC_ZOMBIE \<and> exit_code (procs (pk s') c) = code \<and>
    current (pk s') \<noteq> c \<and> family (pk s') ini (rev cs @ ds) \<and> family (pk s') c [] \<and>
    (wait_state (procs (pk s) par) = WT_CHILD \<longrightarrow> state (procs (pk s') par) = PROC_RUNNABLE)"
proof -
  let ?k1 = "pk (exited c code s)"
  note E = exited_fields
  have ci1: "cinv ?k1" "Q ?k1 = Q (pk s)" using inv_cong[of ?k1 "pk s"] Q_cong[of ?k1 "pk s"] ci by (simp_all add: E)
  have ok1: "runnable_ok (Q ?k1) A ?k1"
    using ok c(1) ci1(2) by (auto simp: runnable_ok_def E)
  let ?b = "wait_state (procs (pk s) par) = WT_CHILD"
  have z1: "state (procs ?k1 par) \<noteq> PROC_ZOMBIE" using par by (simp add: E)
  from wake_parent_ok[OF ci1(1) ok1 z1, of ?b] obtain k2 where
    k2: "(if ?b then wakeup_proc C ?k1 par else Some ?k1) = Some k2" "cinv k2"
    "runnable_ok (Q k2) A k2" "\<And>q. state (procs k2 q) = (if ?b \<and> q = par then PROC_RUNNABLE else state (procs ?k1 q))"
    "\<And>q. same_links (procs ?k1 q) (procs k2 q)" "current k2 = c" "idleproc k2 = idleproc (pk s)"
    using c(1) by (auto simp: E)
  have "family ?k1 p xs = family (pk s) p xs" for p xs by (rule family_cong) (simp_all add: E)
  then have f2: "family k2 c cs" "family k2 ini ds" using fam family_same_links[OF k2(5)] by simp_all
  have disj: "set cs \<inter> set ds = {}" using family_disjoint[OF fam c(4)] .
  have z2: "state (procs k2 ini) \<noteq> PROC_ZOMBIE" using par(4) c(4) by (simp add: k2(4) E)
  have ch: "ochain (procs k2) (cptr (procs k2 c)) cs" "distinct cs"
    using f2(1) sibs_ochain by (auto simp: family_def)
  from reparent_loop_ok[OF k2(2,3) c(4) f2(2) ch disj z2] obtain k3 where
    k3: "reparent_loop C c ini k2 = Some k3" "cinv k3" "runnable_ok (Q k3) A k3" "family k3 ini (rev cs @ ds)"
      "cptr (procs k3 c) = None" "\<forall>q. q \<noteq> ini \<longrightarrow> state (procs k3 q) = state (procs k2 q)"
      "\<forall>q. state (procs k2 q) = PROC_RUNNABLE \<longrightarrow> state (procs k3 q) = PROC_RUNNABLE"
      "\<forall>q. exit_code (procs k3 q) = exit_code (procs k2 q)" "current k3 = c" "idleproc k3 = idleproc (pk s)"
    using k2(6,7) by auto
  from schedule_ok[OF k3(2,3)] obtain k4 where
    k4: "schedule C k3 = Some k4" "cinv k4" "runnable_ok (Q k4) A k4"
      "current k4 = idleproc (pk s) \<or> state (procs k4 (current k4)) = PROC_RUNNABLE"
      "\<And>q. state (procs k4 q) = state (procs k3 q)" "\<And>q. same_links (procs k3 q) (procs k4 q)"
    using k3(10) by auto
  have zc: "state (procs k3 c) = PROC_ZOMBIE" using k3(6) c(4) par(2) by (simp add: k2(4) E)
  have "do_exit C code s = Some ((exited c code s)\<lparr>pk := k4\<rparr>)"
    using c par(1) k2(1) k3(1) k4(1) by (cases ?b) (simp_all add: do_exit_def E Let_def)
  moreover have "current k4 \<noteq> c" using k4(4,5) zc c(2) by auto
  moreover have "family k4 ini (rev cs @ ds)" "family k4 c []"
    unfolding family_same_links[OF k4(6)] using k3(4,5) by (simp_all add: family_def[of _ c])
  moreover have "exit_code (procs k4 c) = code"
    using k4(6)[of c] k3(8) k2(5)[of c] by (simp add: same_links_def E)
  moreover have "?b \<longrightarrow> state (procs k4 par) = PROC_RUNNABLE" using k4(5) k3(7) k2(4) by auto
  ultimately show ?thesis using k4(2,3,5) zc by auto
qed

end

subsection \<open>do_wait reaps a zombie\<close>

lemma scan_children_ok:
  assumes "ochain (procs k) f cs"
  shows "scan_children k f b = Some (b \<or> cs \<noteq> [], find (\<lambda>c. state (procs k c) = PROC_ZOMBIE) cs)"
  using assms
proof (induction cs arbitrary: f b)
  case Nil
  then show ?case by (subst scan_children.simps) simp
next
  case (Cons c cs)
  then show ?case by (subst scan_children.simps) simp
qed

lemma do_wait_reap:
  assumes fam: "family (pk s) (current (pk s)) cs"
    and z: "find (\<lambda>c. state (procs (pk s) c) = PROC_ZOMBIE) cs = Some c"
    and c: "c \<noteq> idleproc (pk s)" "Some c \<noteq> initproc (pk s)"
  shows "\<exists>s'. do_wait_round C 0 s = Some (Reaped c (exit_code (procs (pk s) c)), s') \<and>
    family (pk s') (current (pk s)) (remove1 c cs) \<and> proc_mem s' = proc_mem s - {c} \<and>
    kstacks s' = kstacks s - set_option (kstack (procs (pk s) c)) \<and>
    proc_list (pk s') = remove1 c (proc_list (pk s)) \<and> nr_process (pk s') = nr_process (pk s) - 1 \<and>
    (\<forall>T. hash_inv T (pk s) \<longrightarrow> hash_inv (T - {c}) (pk s'))"
proof -
  have ch: "ochain (procs (pk s)) (cptr (procs (pk s) (current (pk s)))) cs"
    using fam sibs_ochain by (auto simp: family_def)
  have t: "wait_target 0 (pk s) = Some (True, Some c)"
    using scan_children_ok[OF ch, of False] z by (auto simp: wait_target_def find_Some_iff)
  have cc: "c \<in> set cs" using z by (auto simp: find_Some_iff)
  let ?k = "unhash_proc c (pk s)"
  have "family ?k (current (pk s)) cs" using fam by (subst family_cong[of _ _ "pk s"]) simp_all
  from remove_links_family[OF this cc] obtain k' where k': "remove_links c ?k = Some k'"
    "links_removed c (current (pk s)) ?k k'" "family k' (current (pk s)) (remove1 c cs)" by blast
  have e: "do_wait_round C 0 s =
      Some (Reaped c (exit_code (procs (pk s) c)), free_proc c (put_kstack c (s\<lparr>pk := k'\<rparr>)))"
    using t c k'(1) by (simp add: do_wait_round_def Let_def)
  have "hash_inv (T - {c}) k'" if "hash_inv T (pk s)" for T
    using hash_inv_unhash[OF that, of c] k'(2) by (simp add: hash_inv_def links_removed_def)
  then show ?thesis unfolding e using k'(2,3)
    by (simp add: free_proc_def put_kstack_def links_removed_def)
qed

subsection \<open>do_fork releases what it took when it fails\<close>

text \<open>What the allocators promise: a new object is not one in use.\<close>

definition fork_fresh :: "fork_outcome \<Rightarrow> kproc \<Rightarrow> bool" where
  "fork_fresh oc s \<longleftrightarrow>
     (case new_proc oc of None \<Rightarrow> True | Some (p, raw) \<Rightarrow> p \<notin> proc_mem s \<and> p \<noteq> current (pk s)) \<and>
     (case new_stack oc of None \<Rightarrow> True | Some st \<Rightarrow> st \<notin> kstacks s) \<and>
     (case new_files oc of None \<Rightarrow> True | Some f \<Rightarrow> files_count s f = None) \<and>
     (case new_mm oc of None \<Rightarrow> True | Some m \<Rightarrow> mm_count s m = None)"

definition same_resources :: "kproc \<Rightarrow> kproc \<Rightarrow> bool" where
  "same_resources s s' \<longleftrightarrow> proc_mem s' = proc_mem s \<and> kstacks s' = kstacks s \<and>
     mm_count s' = mm_count s \<and> files_count s' = files_count s"

lemma fun_upd_None_same: "m k = None \<Longrightarrow> m(k := None) = m"
  by (auto simp: fun_eq_iff)

lemma copy_mm_fail:
  assumes "copy_mm fl p oc s = (r, s')" "r \<noteq> 0" "case new_mm oc of None \<Rightarrow> True | Some m \<Rightarrow> mm_count s m = None"
  shows "s' = s"
  using assms by (auto simp: copy_mm_def Let_def fun_upd_None_same split: option.splits if_splits)

text \<open>Resources apart, copying an address space or a file table changes only pointers of the child.\<close>

definition copy_frame :: "kstate \<Rightarrow> kstate \<Rightarrow> bool" where
  "copy_frame k k' \<longleftrightarrow> proc_list k' = proc_list k \<and> last_pid k' = last_pid k \<and> next_safe k' = next_safe k \<and>
     nr_process k' = nr_process k \<and> hash_list k' = hash_list k \<and> rq k' = rq k \<and> current k' = current k \<and>
     idleproc k' = idleproc k \<and> initproc k' = initproc k \<and>
     (\<forall>q. same_links (procs k q) (procs k' q) \<and> state (procs k' q) = state (procs k q) \<and>
        wait_state (procs k' q) = wait_state (procs k q) \<and> in_rq (procs k' q) = in_rq (procs k q))"

lemma copy_frame_trans: "copy_frame k k' \<Longrightarrow> copy_frame k' k'' \<Longrightarrow> copy_frame k k''"
  by (simp add: copy_frame_def same_links_def)

lemma copy_mm_copy_frame: "copy_mm fl p oc s = (r, s') \<Longrightarrow> copy_frame (pk s) (pk s')"
  by (auto simp: copy_mm_def Let_def mm_count_add_def copy_frame_def same_links_def split: option.splits if_splits)

lemma copy_fs_copy_frame: "copy_fs fl p oc s = Some (r, s') \<Longrightarrow> copy_frame (pk s) (pk s')"
  by (auto simp: copy_fs_def Let_def files_count_add_def copy_frame_def same_links_def bind_eq_Some_conv
      split: option.splits if_splits)

lemma copy_mm_frame:
  assumes "copy_mm fl p oc s = (r, s')"
  shows "proc_mem s' = proc_mem s" "kstacks s' = kstacks s" "files_count s' = files_count s"
    "filesp (procs (pk s') q) = filesp (procs (pk s) q)" "kstack (procs (pk s') q) = kstack (procs (pk s) q)"
  using assms by (auto simp: copy_mm_def Let_def mm_count_add_def split: option.splits if_splits)

lemma copy_fs_fail:
  assumes "copy_fs fl p oc s = Some (r, s')" "r \<noteq> 0" "case new_files oc of None \<Rightarrow> True | Some f \<Rightarrow> files_count s f = None"
  shows "s' = s"
  using assms by (auto simp: copy_fs_def Let_def bind_eq_Some_conv fun_upd_None_same split: option.splits if_splits)

lemma files_count_put:
  assumes "copy_fs fl p oc s = Some (0, s1)" "p \<noteq> current (pk s)"
    "case new_files oc of None \<Rightarrow> True | Some f \<Rightarrow> files_count s f = None"
    "filesp (procs (pk s) (current (pk s))) = Some f0" "files_count s f0 = Some n" "0 < n"
    "files_count s2 = files_count s1" "filesp (procs (pk s2) p) = filesp (procs (pk s1) p)"
  shows "files_count (put_fs p s2) = files_count s"
  using assms
  by (auto simp: copy_fs_def put_fs_def files_count_add_def Let_def fun_eq_iff E_NO_MEM_def
      split: option.splits if_splits)

lemma copy_fs_frame:
  assumes "copy_fs fl p oc s = Some (r, s')"
  shows "proc_mem s' = proc_mem s" "kstacks s' = kstacks s" "mm_count s' = mm_count s"
    "kstack (procs (pk s') q) = kstack (procs (pk s) q)"
  using assms by (auto simp: copy_fs_def Let_def files_count_add_def bind_eq_Some_conv split: option.splits if_splits)

lemma put_fs_frame [simp]:
  "proc_mem (put_fs p s) = proc_mem s" "kstacks (put_fs p s) = kstacks s" "mm_count (put_fs p s) = mm_count s"
  by (simp_all add: put_fs_def files_count_add_def Let_def split: option.splits)

lemma get_pid_pos:
  assumes "get_pid k = Some (i, k')" "pid_inv k" "int (length (proc_list k)) \<le> MAX_PROCESS"
  shows "1 \<le> i"
proof -
  have "int (length (proc_list k)) < MAX_PID - 1" using assms(3) by (simp add: MAX_PROCESS_def MAX_PID_def)
  from get_pid_ok[OF assms(2) this] assms(1) show ?thesis by auto
qed

text \<open>The state of \<^verbatim>\<open>do_fork\<close> with a process structure and a kernel stack.\<close>

definition forked :: "ptr \<Rightarrow> proc_struct \<Rightarrow> ptr \<Rightarrow> kproc \<Rightarrow> kproc" where
  "forked p raw st s = upd_pk (upd_proc p (\<lambda>q. q\<lparr>kstack := Some st\<rparr>))
     (upd_pk (upd_proc p (\<lambda>_. (alloc_proc raw)\<lparr>parent := Some (current (pk s))\<rparr>))
       (s\<lparr>proc_mem := insert p (proc_mem s), kstacks := insert st (kstacks s)\<rparr>))"

lemma forked_sel:
  "proc_mem (forked p raw st s) = insert p (proc_mem s)" "kstacks (forked p raw st s) = insert st (kstacks s)"
  "mm_count (forked p raw st s) = mm_count s" "files_count (forked p raw st s) = files_count s"
  "kstack (procs (pk (forked p raw st s)) p) = Some st" "current (pk (forked p raw st s)) = current (pk s)"
  "q \<noteq> p \<Longrightarrow> procs (pk (forked p raw st s)) q = procs (pk s) q"
  by (simp_all add: forked_def)

lemma forked_pid_inv: "pid_inv (pk s) \<Longrightarrow> pid_inv (pk (forked p raw st s))"
  by (auto simp: pid_inv_def forked_def alloc_proc_def)

lemma do_fork_steps:
  assumes "new_proc oc = Some (p, raw)" "new_stack oc = Some st" "p \<noteq> current (pk s)"
    "\<not> nr_process (pk s) \<ge> MAX_PROCESS" "wait_state (procs (pk s) (current (pk s))) = 0"
  shows "do_fork C fl oc s = do {
     (r, s) \<leftarrow> copy_fs fl p oc (forked p raw st s);
     if r \<noteq> 0 then Some (- E_NO_MEM, free_proc p (put_kstack p s))
     else do {
       let (r, s) = copy_mm fl p oc s;
       if r \<noteq> 0 then Some (- E_NO_MEM, free_proc p (put_kstack p (put_fs p s)))
       else do {
         (i, k) \<leftarrow> get_pid (pk s);
         let k = upd_proc p (\<lambda>q. q\<lparr>pid := i\<rparr>) k;
         let k = hash_proc p k;
         k \<leftarrow> set_links p k;
         k \<leftarrow> wakeup_proc C k p;
         Some (i, s\<lparr>pk := k\<rparr>) } } }"
  using assms by (simp add: do_fork_def forked_def setup_kstack_def upd_pk_def Let_def)

lemma do_fork_fail:
  assumes fork: "do_fork C fl oc s = Some (r, s')" "r < 0" and fresh: "fork_fresh oc s"
    and pids: "pid_inv (pk s)" "int (length (proc_list (pk s))) \<le> MAX_PROCESS"
    and cur: "filesp (procs (pk s) (current (pk s))) = Some f0" "files_count s f0 = Some n" "0 < n"
  shows "same_resources s s'"
proof -
  have early: "same_resources s s'" if "s' = s" using that by (simp add: same_resources_def)
  show ?thesis
  proof (cases "nr_process (pk s) \<ge> MAX_PROCESS \<or> new_proc oc = None")
    case True
    with fork(1) early show ?thesis by (auto simp: do_fork_def split: if_splits)
  next
    case False
    then obtain p raw where np: "new_proc oc = Some (p, raw)" and few: "\<not> nr_process (pk s) \<ge> MAX_PROCESS" by auto
    with fresh have p: "p \<notin> proc_mem s" "p \<noteq> current (pk s)" by (simp_all add: fork_fresh_def)
    have w: "wait_state (procs (pk s) (current (pk s))) = 0"
      using fork(1) np few p(2) by (auto simp: do_fork_def Let_def split: if_splits)
    show ?thesis
    proof (cases "new_stack oc")
      case None
      with fork(1) np few p w show ?thesis
        by (auto simp: do_fork_def setup_kstack_def Let_def E_NO_MEM_def free_proc_def same_resources_def)
    next
      case (Some st)
      with fresh have st: "st \<notin> kstacks s" by (simp add: fork_fresh_def)
      let ?s1 = "forked p raw st s"
      note F = forked_sel[where p = p and raw = raw and st = st and s = s]
      note steps = do_fork_steps[OF np Some p(2) few w, of C fl]
      from fork(1) obtain r1 s2 where fs: "copy_fs fl p oc ?s1 = Some (r1, s2)"
        unfolding steps by (auto simp: bind_eq_Some_conv)
      note G = copy_fs_frame[OF fs]
      have ff: "case new_files oc of None \<Rightarrow> True | Some f \<Rightarrow> files_count ?s1 f = None"
        "case new_mm oc of None \<Rightarrow> True | Some m \<Rightarrow> mm_count ?s1 m = None"
        using fresh by (auto simp: fork_fresh_def F split: option.splits)
      show ?thesis
      proof (cases "r1 = 0")
        case False
        with fork(1) fs have "s' = free_proc p (put_kstack p s2)" unfolding steps by simp
        with copy_fs_fail[OF fs False ff(1)] F p(1) st show ?thesis
          by (auto simp: same_resources_def free_proc_def put_kstack_def)
      next
        case True
        obtain r2 s3 where mm: "copy_mm fl p oc s2 = (r2, s3)" by fastforce
        have len: "r2 \<noteq> 0"
        proof
          assume "r2 = 0"
          with fork(1) fs True mm obtain k i where "get_pid (pk s3) = Some (i, k)" "r = i"
            unfolding steps by (auto simp: bind_eq_Some_conv Let_def)
          moreover have "copy_frame (pk ?s1) (pk s3)"
            using copy_frame_trans[OF copy_fs_copy_frame[OF fs] copy_mm_copy_frame[OF mm]] .
          then have "pid_inv (pk s3)" "proc_list (pk s3) = proc_list (pk s)"
            using forked_pid_inv[OF pids(1), of p raw st]
            by (simp_all add: copy_frame_def pid_inv_def same_links_def forked_def)
          ultimately show False using get_pid_pos[of "pk s3"] pids(2) fork(2) by auto
        qed
        have s': "s' = free_proc p (put_kstack p (put_fs p s3))"
          using fork(1) fs True mm len unfolding steps by simp
        have "case new_mm oc of None \<Rightarrow> True | Some m \<Rightarrow> mm_count s2 m = None"
          using ff(2) G(3) by (auto split: option.splits)
        from copy_mm_fail[OF mm len this] have s3: "s3 = s2" .
        have "files_count (put_fs p s2) = files_count ?s1"
          using files_count_put[OF _ _ ff(1), of fl p s2 f0 n s2] fs True cur p(2) F by simp
        then show ?thesis using F G p(1) st unfolding s' s3
          by (auto simp: same_resources_def free_proc_def put_kstack_def)
      qed
    qed
  qed
qed

subsection \<open>do_fork makes a runnable child\<close>

text \<open>Every allocation that the call needs succeeds.\<close>

definition fork_granted :: "u32 \<Rightarrow> fork_outcome \<Rightarrow> kproc \<Rightarrow> bool" where
  "fork_granted fl oc s \<longleftrightarrow> new_stack oc \<noteq> None \<and>
     (fl AND CLONE_FS \<noteq> 0 \<or> new_files oc \<noteq> None \<and> dup_files_ret oc = 0) \<and>
     (mm (procs (pk s) (current (pk s))) = None \<or> fl AND CLONE_VM \<noteq> 0 \<or>
        new_mm oc \<noteq> None \<and> pgdir_ok oc \<and> dup_mmap_ret oc = 0)"

lemma copy_fs_granted:
  assumes "fork_granted fl oc s" "filesp (procs (pk s1) (current (pk s1))) = Some f0"
  shows "\<exists>s2. copy_fs fl p oc s1 = Some (0, s2)"
  using assms by (auto simp: copy_fs_def Let_def fork_granted_def)

lemma copy_mm_granted:
  assumes "fork_granted fl oc s"
    "mm (procs (pk s1) (current (pk s1))) = mm (procs (pk s) (current (pk s)))"
  shows "\<exists>s2. copy_mm fl p oc s1 = (0, s2)"
  using assms by (auto simp: copy_mm_def Let_def fork_granted_def split: option.splits)

lemma copy_fs_mm: "copy_fs fl p oc s = Some (r, s') \<Longrightarrow> mm (procs (pk s') q) = mm (procs (pk s) q)"
  by (auto simp: copy_fs_def Let_def files_count_add_def bind_eq_Some_conv split: option.splits if_splits)

lemma set_links_frame:
  assumes "set_links p k = Some k'"
  shows "hash_list k' = hash_list k" "rq k' = rq k" "current k' = current k" "idleproc k' = idleproc k"
    "initproc k' = initproc k" "last_pid k' = last_pid k" "next_safe k' = next_safe k"
    "pid (procs k' q) = pid (procs k q)" "state (procs k' q) = state (procs k q)"
    "in_rq (procs k' q) = in_rq (procs k q)" "wait_state (procs k' q) = wait_state (procs k q)"
    "parent (procs k' q) = parent (procs k q)" "flags (procs k' q) = flags (procs k q)"
proof -
  from assms obtain par where par: "parent (procs k p) = Some par"
    by (auto simp: set_links_def Let_def bind_eq_Some_conv)
  show "hash_list k' = hash_list k" "rq k' = rq k" "current k' = current k" "idleproc k' = idleproc k"
    "initproc k' = initproc k" "last_pid k' = last_pid k" "next_safe k' = next_safe k"
    "pid (procs k' q) = pid (procs k q)" "state (procs k' q) = state (procs k q)"
    "in_rq (procs k' q) = in_rq (procs k q)" "wait_state (procs k' q) = wait_state (procs k q)"
    "parent (procs k' q) = parent (procs k q)" "flags (procs k' q) = flags (procs k q)"
    using assms by (cases "cptr (procs k par)"; clarsimp simp: set_links_def Let_def par)+
qed

text \<open>The new child just before \<^verbatim>\<open>wakeup_proc\<close>.\<close>

lemma fork_enter_tables:
  assumes fr: "copy_frame (pk (forked p raw st s)) k" and inv: "pid_inv (pk s)"
    and len: "int (length (proc_list (pk s))) \<le> MAX_PROCESS"
    and fam: "family (pk s) (current (pk s)) cs" "p \<notin> set cs" "p \<noteq> current (pk s)"
    and hash: "hash_inv (set (proc_list (pk s))) (pk s)" "p \<notin> set (proc_list (pk s))"
  shows "\<exists>i k1 k2. get_pid k = Some (i, k1) \<and> 1 \<le> i \<and> i < MAX_PID \<and>
    (\<forall>q \<in> set (proc_list (pk s)). pid (procs (pk s) q) \<noteq> i) \<and>
    set_links p (hash_proc p (upd_proc p (\<lambda>q. q\<lparr>pid := i\<rparr>) k1)) = Some k2 \<and>
    pid_inv k2 \<and> hash_inv (set (proc_list k2)) k2 \<and> pid (procs k2 p) = i \<and> proc_list k2 = p # proc_list (pk s) \<and>
    family k2 (current (pk s)) (p # cs) \<and> rq k2 = rq (pk s) \<and> current k2 = current (pk s) \<and>
    idleproc k2 = idleproc (pk s) \<and> nr_process k2 = nr_process (pk s) + 1 \<and>
    (\<forall>q. q \<noteq> p \<longrightarrow> state (procs k2 q) = state (procs (pk s) q) \<and> in_rq (procs k2 q) = in_rq (procs (pk s) q)) \<and>
    state (procs k2 p) = PROC_UNINIT"
proof -
  let ?k0 = "pk s" and ?K = "pk (forked p raw st s)"
  have K: "proc_list k = proc_list ?k0" "hash_list k = hash_list ?k0" "rq k = rq ?k0" "current k = current ?k0"
    "idleproc k = idleproc ?k0" "nr_process k = nr_process ?k0"
    "\<And>q. same_links (procs ?K q) (procs k q)" "\<And>q. state (procs k q) = state (procs ?K q)"
    "\<And>q. in_rq (procs k q) = in_rq (procs ?K q)"
    using fr by (simp_all add: copy_frame_def forked_def)
  have Kp: "state (procs k p) = PROC_UNINIT" "parent (procs k p) = Some (current ?k0)"
    using K(7,8)[of p] by (simp_all add: same_links_def forked_def alloc_proc_def)
  have Kq: "same_links (procs ?k0 q) (procs k q)" "state (procs k q) = state (procs ?k0 q)"
    "in_rq (procs k q) = in_rq (procs ?k0 q)" if "q \<noteq> p" for q
    using K(7-9)[of q] forked_sel(7)[OF that, of raw st s] by simp_all
  have "pid_inv k" using forked_pid_inv[OF inv, of p raw st] fr by (simp add: copy_frame_def pid_inv_def same_links_def)
  moreover have "int (length (proc_list k)) < MAX_PID - 1" using len K(1) by (simp add: MAX_PROCESS_def MAX_PID_def)
  ultimately obtain i ns where g: "get_pid k = Some (i, k\<lparr>last_pid := i, next_safe := ns\<rparr>)" "1 \<le> i" "i < ns"
    "ns \<le> MAX_PID" "\<forall>q \<in> set (proc_list k). pid (procs k q) < i \<or> ns \<le> pid (procs k q)"
    using get_pid_ok by blast
  let ?k1 = "k\<lparr>last_pid := i, next_safe := ns\<rparr>"
  let ?k2 = "upd_proc p (\<lambda>q. q\<lparr>pid := i\<rparr>) ?k1"
  let ?k3 = "hash_proc p ?k2"
  have new: "pid (procs ?k0 q) = pid (procs k q)" "pid (procs k q) \<noteq> i" if "q \<in> set (proc_list ?k0)" for q
  proof -
    have "q \<noteq> p" using that hash(2) by auto
    then show "pid (procs ?k0 q) = pid (procs k q)" using Kq(1)[of q] by (simp add: same_links_def)
    show "pid (procs k q) \<noteq> i" using that g(3,5) K(1) by auto
  qed
  have "hash_inv (set (proc_list ?k0)) ?k2"
    using hash K(2) new(1) by (auto simp: hash_inv_def inj_on_def)
  then have h3: "hash_inv (insert p (set (proc_list ?k0))) ?k3"
    using hash(2) new by (intro hash_inv_hash) auto
  have f3: "family ?k3 (current ?k0) cs"
    using fam Kq(1) by (subst family_cong[of cs ?k3 ?k0]) (auto simp: same_links_def)
  have "parent (procs ?k3 p) = Some (current ?k0)" using Kp(2) by simp
  from set_links_family[OF this f3 fam(2)] obtain k4 where k4: "set_links p ?k3 = Some k4"
    "family k4 (current ?k0) (p # cs)" "proc_list k4 = p # proc_list ?k3" "nr_process k4 = nr_process ?k3 + 1" by blast
  note L = set_links_frame[OF k4(1)]
  have pl: "proc_list k4 = p # proc_list ?k0" using k4(3) K(1) by simp
  have pq: "pid (procs k4 q) = (if q = p then i else pid (procs k q))" for q by (simp add: L)
  have "hash_inv (set (proc_list k4)) k4" using h3 unfolding pl by (simp add: hash_inv_def L)
  moreover have "pid_inv k4"
    using g(2-5) K(1) hash(2) unfolding pid_inv_def pl L(6,7) pq by (auto simp: hash_proc_def Let_def)
  moreover have "\<forall>q \<in> set (proc_list ?k0). pid (procs ?k0 q) \<noteq> i" using new by simp
  moreover have "i < MAX_PID" using g(3,4) by simp
  moreover have "q \<noteq> p \<longrightarrow> state (procs k4 q) = state (procs ?k0 q) \<and> in_rq (procs k4 q) = in_rq (procs ?k0 q)" for q
    using Kq(2,3)[of q] by (simp add: L)
  moreover have "rq k4 = rq ?k0" "current k4 = current ?k0" "idleproc k4 = idleproc ?k0" "nr_process k4 = nr_process ?k0 + 1"
    "state (procs k4 p) = PROC_UNINIT" "pid (procs k4 p) = i"
    using K(3-6) Kp k4(4) by (simp_all add: L)
  ultimately show ?thesis using g(1,2) k4(1,2) pl by (intro exI[of _ i] exI[of _ ?k1] exI[of _ k4]) simp
qed

context sched_ok
begin

lemma do_fork_ok:
  assumes ci: "cinv (pk s)" and ok: "runnable_ok (Q (pk s)) A (pk s)"
    and np: "new_proc oc = Some (p, raw)" "fork_granted fl oc s"
    and p: "p \<noteq> current (pk s)" "p \<noteq> idleproc (pk s)" "p \<notin> Q (pk s)" "p \<notin> A" "p \<notin> set cs" "p \<notin> set (proc_list (pk s))"
    and few: "nr_process (pk s) < MAX_PROCESS" "int (length (proc_list (pk s))) \<le> MAX_PROCESS"
    and cur: "wait_state (procs (pk s) (current (pk s))) = 0" "filesp (procs (pk s) (current (pk s))) = Some f0"
    and inv: "pid_inv (pk s)" "hash_inv (set (proc_list (pk s))) (pk s)" "family (pk s) (current (pk s)) cs"
  shows "\<exists>i s'. do_fork C fl oc s = Some (i, s') \<and> 1 \<le> i \<and> i < MAX_PID \<and>
    (\<forall>q \<in> set (proc_list (pk s)). pid (procs (pk s) q) \<noteq> i) \<and> find_proc i (pk s') = Some p \<and>
    family (pk s') (current (pk s)) (p # cs) \<and> proc_list (pk s') = p # proc_list (pk s) \<and>
    state (procs (pk s') p) = PROC_RUNNABLE \<and> p \<in> Q (pk s') \<and> current (pk s') = current (pk s) \<and>
    cinv (pk s') \<and> runnable_ok (Q (pk s')) (insert p A) (pk s') \<and>
    pid_inv (pk s') \<and> hash_inv (set (proc_list (pk s'))) (pk s') \<and> nr_process (pk s') = nr_process (pk s) + 1"
proof -
  from np(2) obtain st where st: "new_stack oc = Some st" by (auto simp: fork_granted_def)
  let ?s1 = "forked p raw st s"
  have c1: "filesp (procs (pk ?s1) (current (pk ?s1))) = Some f0"
    "mm (procs (pk ?s1) (current (pk ?s1))) = mm (procs (pk s) (current (pk s)))"
    using cur(2) p(1) by (simp_all add: forked_def)
  from copy_fs_granted[OF np(2) c1(1)] obtain s2 where s2: "copy_fs fl p oc ?s1 = Some (0, s2)" by blast
  have "mm (procs (pk s2) (current (pk s2))) = mm (procs (pk s) (current (pk s)))"
    using copy_fs_mm[OF s2] copy_fs_copy_frame[OF s2] c1(2) by (simp add: copy_frame_def)
  from copy_mm_granted[OF np(2) this] obtain s3 where s3: "copy_mm fl p oc s2 = (0, s3)" by blast
  have fr: "copy_frame (pk ?s1) (pk s3)"
    using copy_frame_trans[OF copy_fs_copy_frame[OF s2] copy_mm_copy_frame[OF s3]] .
  from fork_enter_tables[OF fr inv(1) few(2) inv(3) p(5,1) inv(2) p(6)] obtain i k1 k2 where
    t: "get_pid (pk s3) = Some (i, k1)" "1 \<le> i" "i < MAX_PID" "\<forall>q \<in> set (proc_list (pk s)). pid (procs (pk s) q) \<noteq> i"
      "set_links p (hash_proc p (upd_proc p (\<lambda>q. q\<lparr>pid := i\<rparr>) k1)) = Some k2"
      "pid_inv k2" "hash_inv (set (proc_list k2)) k2" "pid (procs k2 p) = i" "proc_list k2 = p # proc_list (pk s)"
      "family k2 (current (pk s)) (p # cs)" "rq k2 = rq (pk s)" "current k2 = current (pk s)"
      "idleproc k2 = idleproc (pk s)" "nr_process k2 = nr_process (pk s) + 1"
      "\<And>q. q \<noteq> p \<Longrightarrow> state (procs k2 q) = state (procs (pk s) q) \<and> in_rq (procs k2 q) = in_rq (procs (pk s) q)"
      "state (procs k2 p) = PROC_UNINIT" by blast
  have q2: "Q k2 = Q (pk s)" using Q_cong[of k2 "pk s"] t(11) by simp
  have "in_rq (procs k2 q) = in_rq (procs (pk s) q)" if "q \<in> Q (pk s)" for q
    using t(15)[of q] that p(3) by auto
  then have ci2: "cinv k2" using inv_cong[of k2 "pk s"] t(11) ci by simp
  have ok2: "runnable_ok (Q k2) (insert p A) k2"
  proof -
    have "state (procs k2 q) = state (procs (pk s) q)" if "q \<in> Q (pk s) \<union> A" for q
      using t(15)[of q] that p(3,4) by blast
    with ok show ?thesis by (auto simp: runnable_ok_def q2 t(12,13,16))
  qed
  have "state (procs k2 p) \<noteq> PROC_ZOMBIE" by (simp add: t(16))
  from wakeup_proc_ok[OF ci2 ok2 this] obtain k3 where k3: "wakeup_proc C k2 p = Some k3" "cinv k3"
    "runnable_ok (Q k3) (insert p A) k3" "p \<in> Q k3" "state (procs k3 p) = PROC_RUNNABLE" "current k3 = current k2"
    using p(1,2) t(12,13,16) by auto
  note W = wakeup_proc_frame[OF ci2 ok2 k3(1)]
  have e: "do_fork C fl oc s = Some (i, s3\<lparr>pk := k3\<rparr>)"
    using do_fork_steps[OF np(1) st p(1) _ cur(1), of C fl] few(1) s2 s3 t(1,5) k3(1) by (simp add: Let_def)
  have h3: "hash_inv (set (proc_list k3)) k3" using t(7) by (simp add: hash_inv_def W)
  have "find_proc i k3 = Some p" using find_proc_iff[OF h3, of i p] t(2,3,8,9) by (simp add: W)
  moreover have "family k3 (current (pk s)) (p # cs)" using t(10) family_same_links[OF W(18)] by simp
  moreover have "pid_inv k3" using t(6) by (simp add: pid_inv_def W)
  ultimately show ?thesis unfolding e using t(2-4) k3 h3 t(9,12,14) W by auto
qed

end

subsection \<open>A kernel with two processes\<close>

text \<open>Process 1 (running, with file table 9) and its child 2 (queued), both in the tables.\<close>

definition demo_kproc :: "proc_state \<Rightarrow> kproc" where
  "demo_kproc st =
     \<lparr>pk = hash_proc 1 (hash_proc 2 (upd_proc 2 (\<lambda>q. q\<lparr>state := st, parent := Some 1, exit_code := 7\<rparr>)
        (upd_proc 1 (\<lambda>q. q\<lparr>filesp := Some 9, cptr := Some 2\<rparr>)
          (demo_kstate RR (if st = PROC_RUNNABLE then [2] else []) Leaf [1, 2] 1)))),
      proc_mem = {1, 2}, kstacks = {}, mm_count = Map.empty, files_count = [9 \<mapsto> 1]\<rparr>"

lemma demo_kproc_hash: "hash_inv {1, 2} (pk (demo_kproc st))"
proof -
  let ?k = "upd_proc 2 (\<lambda>q. q\<lparr>state := st, parent := Some 1, exit_code := 7\<rparr>)
        (upd_proc 1 (\<lambda>q. q\<lparr>filesp := Some 9, cptr := Some 2\<rparr>)
          (demo_kstate RR (if st = PROC_RUNNABLE then [2] else []) Leaf [1, 2] 1))"
  have "hash_inv {} ?k" by (simp add: hash_inv_def demo_defs)
  from hash_inv_hash[OF this, of 2] have "hash_inv {2} (hash_proc 2 ?k)" by simp
  from hash_inv_hash[OF this, of 1] show ?thesis by (simp add: demo_kproc_def demo_defs)
qed

lemma demo_kproc_sel:
  "current (pk (demo_kproc st)) = 1" "idleproc (pk (demo_kproc st)) = 0" "initproc (pk (demo_kproc st)) = Some 1"
  "proc_list (pk (demo_kproc st)) = [1, 2]" "nr_process (pk (demo_kproc st)) = 2"
  "filesp (procs (pk (demo_kproc st)) 1) = Some 9" "wait_state (procs (pk (demo_kproc st)) 1) = 0"
  "mm (procs (pk (demo_kproc st)) 1) = None" "state (procs (pk (demo_kproc st)) 2) = st"
  "exit_code (procs (pk (demo_kproc st)) 2) = 7" "proc_mem (demo_kproc st) = {1, 2}" "kstacks (demo_kproc st) = {}"
  "mm_count (demo_kproc st) = Map.empty" "files_count (demo_kproc st) = [9 \<mapsto> 1]"
  by (simp_all add: demo_kproc_def demo_defs)

lemmas demo_kproc_sels = demo_kproc_sel demo_kproc_sel(6-8)[unfolded One_nat_def]

lemma demo_kproc_inv:
  "class_inv RR (pk (demo_kproc PROC_RUNNABLE))"
  "runnable_ok (queued RR (pk (demo_kproc PROC_RUNNABLE))) {1, 2} (pk (demo_kproc PROC_RUNNABLE))"
  "run_list (rq (pk (demo_kproc PROC_RUNNABLE))) = [2]"
  by (auto simp: demo_kproc_def demo_defs list_inv_def runnable_ok_def)

lemma demo_kproc_tables:
  "pid_inv (pk (demo_kproc st))" "family (pk (demo_kproc st)) 1 [2]"
  by (simp_all add: demo_kproc_def demo_defs pid_inv_def family_def hash_proc_def Let_def)

subsection \<open>Properties\<close>

text \<open>
  C9. \<^verbatim>\<open>do_fork\<close> with every allocation granted: it returns the identifier of the child, which is fresh and
  found by \<^verbatim>\<open>find_proc\<close>; the child is the youngest child of the caller, at the head of the process list,
  runnable and on the run queue; run queue, identifier and hash-table invariants still hold and no
  runnable process is lost.
\<close>

theorem do_fork_creates_child:
  assumes "class_inv c (pk s)" "runnable_ok (queued c (pk s)) A (pk s)"
    "new_proc oc = Some (p, raw)" "fork_granted fl oc s"
    "p \<notin> {current (pk s), idleproc (pk s)} \<union> queued c (pk s) \<union> A \<union> set cs \<union> set (proc_list (pk s))"
    "nr_process (pk s) < MAX_PROCESS" "int (length (proc_list (pk s))) \<le> MAX_PROCESS"
    "wait_state (procs (pk s) (current (pk s))) = 0" "filesp (procs (pk s) (current (pk s))) = Some f0"
    "pid_inv (pk s)" "hash_inv (set (proc_list (pk s))) (pk s)" "family (pk s) (current (pk s)) cs"
  shows "\<exists>i s'. do_fork (class_of c) fl oc s = Some (i, s') \<and> 1 \<le> i \<and> i < MAX_PID \<and>
    (\<forall>q \<in> set (proc_list (pk s)). pid (procs (pk s) q) \<noteq> i) \<and> find_proc i (pk s') = Some p \<and>
    family (pk s') (current (pk s)) (p # cs) \<and> proc_list (pk s') = p # proc_list (pk s) \<and>
    state (procs (pk s') p) = PROC_RUNNABLE \<and> p \<in> queued c (pk s') \<and> current (pk s') = current (pk s) \<and>
    class_inv c (pk s') \<and> runnable_ok (queued c (pk s')) (insert p A) (pk s') \<and>
    pid_inv (pk s') \<and> hash_inv (set (proc_list (pk s'))) (pk s') \<and> nr_process (pk s') = nr_process (pk s) + 1"
  by (rule sched_ok.do_fork_ok[OF class_sched_ok assms(1-4)]) (use assms in auto)

definition demo_outcome :: fork_outcome where
  "demo_outcome = \<lparr>new_proc = Some (3, zero_proc), new_stack = Some 100, new_files = Some 10, dup_files_ret = 0,
     new_mm = None, pgdir_ok = False, dup_mmap_ret = 0\<rparr>"

theorem do_fork_creates_child_witness:
  "\<exists>i s'. do_fork (class_of RR) 0 demo_outcome (demo_kproc PROC_RUNNABLE) = Some (i, s') \<and>
     find_proc i (pk s') = Some 3 \<and> family (pk s') 1 [3, 2]"
proof -
  let ?s = "demo_kproc PROC_RUNNABLE"
  have "new_proc demo_outcome = Some (3, zero_proc)" "fork_granted 0 demo_outcome ?s"
    by (simp_all add: demo_outcome_def fork_granted_def demo_kproc_sels)
  from do_fork_creates_child[OF demo_kproc_inv(1,2) this, of "[2]" 9] show ?thesis
    using demo_kproc_hash[of PROC_RUNNABLE] demo_kproc_tables[of PROC_RUNNABLE]
    by (auto simp: demo_kproc_sels demo_kproc_inv(3) MAX_PROCESS_def)
qed



text \<open>Process 2, running, is a child of process 1 (\<^verbatim>\<open>initproc\<close>, queued) and has the child 3.\<close>

definition demo_kproc_exit :: kproc where
  "demo_kproc_exit = (demo_kproc PROC_RUNNABLE)
     \<lparr>pk := upd_proc 3 (\<lambda>q. q\<lparr>parent := Some 2\<rparr>) (upd_proc 2 (\<lambda>q. q\<lparr>parent := Some 1, cptr := Some 3\<rparr>)
        (upd_proc 1 (\<lambda>q. q\<lparr>cptr := Some 2\<rparr>) (demo_kstate RR [1] Leaf [1, 2] 2)))\<rparr>"

text \<open>
  C11. \<^verbatim>\<open>do_exit\<close> ends the calling process: it does not panic, the caller is a zombie with the given
  exit code and no longer runs, all its children become children of \<^verbatim>\<open>initproc\<close> (in reverse order,
  before those it had), a parent waiting for a child is made runnable, and no runnable process is lost.
\<close>

theorem do_exit_reparents:
  assumes "class_inv c (pk s)" "runnable_ok (queued c (pk s)) A (pk s)"
    "p = current (pk s)" "p \<noteq> idleproc (pk s)" "initproc (pk s) = Some ini" "p \<noteq> ini"
    "parent (procs (pk s) p) = Some par" "par \<noteq> p"
    "state (procs (pk s) par) \<noteq> PROC_ZOMBIE" "state (procs (pk s) ini) \<noteq> PROC_ZOMBIE"
    "family (pk s) p cs" "family (pk s) ini ds"
  shows "\<exists>s'. do_exit (class_of c) code s = Some s' \<and> class_inv c (pk s') \<and> runnable_ok (queued c (pk s')) A (pk s') \<and>
    state (procs (pk s') p) = PROC_ZOMBIE \<and> exit_code (procs (pk s') p) = code \<and>
    current (pk s') \<noteq> p \<and> family (pk s') ini (rev cs @ ds) \<and> family (pk s') p [] \<and>
    (wait_state (procs (pk s) par) = WT_CHILD \<longrightarrow> state (procs (pk s') par) = PROC_RUNNABLE)"
  by (rule sched_ok.do_exit_ok[OF class_sched_ok assms])

theorem do_exit_reparents_witness:
  "\<exists>s'. do_exit (class_of RR) 7 demo_kproc_exit = Some s' \<and> family (pk s') 1 [3, 2] \<and>
     state (procs (pk s') 2) = PROC_ZOMBIE"
proof -
  let ?s = demo_kproc_exit
  have "class_inv RR (pk ?s)" "runnable_ok (queued RR (pk ?s)) {1, 2} (pk ?s)"
    by (auto simp: demo_kproc_exit_def demo_defs list_inv_def runnable_ok_def)
  moreover have "2 = current (pk ?s)" "2 \<noteq> idleproc (pk ?s)" "initproc (pk ?s) = Some 1" "(2::nat) \<noteq> 1"
    "parent (procs (pk ?s) 2) = Some 1" "(1::nat) \<noteq> 2" "state (procs (pk ?s) 1) \<noteq> PROC_ZOMBIE"
    "family (pk ?s) 2 [3]" "family (pk ?s) 1 [2]"
    by (simp_all add: demo_kproc_exit_def demo_defs family_def)
  ultimately have "\<exists>s'. do_exit (class_of RR) 7 ?s = Some s' \<and> family (pk s') 1 (rev [3] @ [2]) \<and>
     state (procs (pk s') 2) = PROC_ZOMBIE"
    using do_exit_reparents[of RR ?s "{1, 2}" 2 1 1 "[3]" "[2]" 7] by blast
  then show ?thesis by simp
qed



subsection \<open>The half-removed entry\<close>

text \<open>
  C21. The loop of \<^verbatim>\<open>do_kill\<close> breaks the process list: when the killed process is first on the list, its
  entry keeps its links, so that a process entered after the kill drops off the list once the killed
  process is reaped by \<^verbatim>\<open>list_del\<close>; no walk along the list meets it again.
\<close>

theorem do_kill_loses_process:
  assumes "ring s h (x # ys)" "sel x" "z \<notin> set (h # x # ys)"
  shows "(list_next (list_del (list_add (kill_unlink s h sel) h z) x) ^^ n) h \<noteq> z"
proof -
  define s' where "s' = list_del (list_add (kill_unlink s h sel) h z) x"
  have h: "list_next s h = x" "x \<noteq> h" "prev (s x) = h" "x \<notin> set ys" using assms(1) by (auto simp: ring_def list_next_def)
  have y: "next (s x) = hd (ys @ [h])" using ring_next[of s h "[]" x ys] assms(1) by (simp add: list_next_def)
  have n: "next (s' w) = (if w = h then hd (ys @ [h]) else if w = z then hd (ys @ [h]) else next (s w))" for w
    using assms(2,3) h y
    by (cases ys) (auto simp: s'_def kill_unlink_def list_add_def list_add_after_def list_del_def list_next_def)
  have "list_next s' w \<in> set (h # ys)" if w: "w \<in> set (h # ys)" for w
  proof (cases "w = h")
    case True
    then show ?thesis using n[of h] by (cases ys) (auto simp: list_next_def)
  next
    case False
    with w obtain us vs where "ys = us @ w # vs" by (auto dest: split_list)
    moreover from this have "next (s w) = hd (vs @ [h])"
      using ring_next[of s h "x # us" w vs] assms(1) by (simp add: list_next_def)
    moreover have "w \<noteq> z" using w assms(3) by auto
    ultimately show ?thesis using n[of w] False by (cases vs) (auto simp: list_next_def)
  qed
  then have "(list_next s' ^^ n) h \<in> set (h # ys)" by (induction n) simp_all
  with assms(3) show ?thesis unfolding s'_def by auto
qed

theorem do_kill_loses_process_witness:
  "\<forall>n. (list_next (list_del (list_add (kill_unlink (list_add (list_init (\<lambda>_. \<lparr>prev = 0, next = 0\<rparr>) (0::nat)) 0 1) 0
      (\<lambda>e. e = 1)) 0 2) 1) ^^ n) 0 \<noteq> 2"
proof -
  let ?s = "list_add (list_init (\<lambda>_. \<lparr>prev = 0, next = 0\<rparr>) (0::nat)) 0 1"
  have "ring ?s 0 [1]" unfolding list_add_def by (rule ring_add_after_head[OF ring_init]) simp
  from do_kill_loses_process[OF this, of "\<lambda>e. e = 1" 2] show ?thesis by simp
qed

end
