(* ===== verification/Pmm_Area.thy ===== *)
theory Pmm_Area
  imports Klist
begin

text \<open>
  The page allocators that keep one list of free blocks: \<^verbatim>\<open>kern/mm/firstfit_pmm.c\<close> and
  \<^verbatim>\<open>kern/mm/bestfit_pmm.c\<close>, on \<^verbatim>\<open>struct Page\<close> and \<^verbatim>\<open>free_area_t\<close> of \<^verbatim>\<open>memlayout.h\<close>. A page is
  named by its index in the array \<^verbatim>\<open>pages\<close>; the list of free blocks is the sequence of their
  first pages. The invariant says that the blocks are disjoint, not even adjacent, and counted by
  \<^verbatim>\<open>nr_free\<close>; the abstract state is the set of free pages. The interface \<open>page_allocator\<close> states
  what \<^verbatim>\<open>struct pmm_manager\<close> promises its callers on that set, and both allocators provide it.
\<close>

record page =
  ref :: int
  reserved :: bool
  has_property :: bool
  property :: nat
  zone_num :: int

record free_area =
  pages :: "nat \<Rightarrow> page"
  free_list :: "nat list"
  nr_free :: nat

definition upd_page :: "nat \<Rightarrow> (page \<Rightarrow> page) \<Rightarrow> free_area \<Rightarrow> free_area" where
  "upd_page p f s = s\<lparr>pages := (pages s)(p := f (pages s p))\<rparr>"

definition in_range :: "nat \<Rightarrow> nat \<Rightarrow> nat \<Rightarrow> bool" where
  "in_range base n p \<longleftrightarrow> base \<le> p \<and> p < base + n"

subsection \<open>Initialisation\<close>

definition firstfit_init :: "free_area \<Rightarrow> free_area" where
  "firstfit_init s = s\<lparr>free_list := [], nr_free := 0\<rparr>"

definition firstfit_init_memmap :: "free_area \<Rightarrow> nat \<Rightarrow> nat \<Rightarrow> free_area option" where
  "firstfit_init_memmap s base n = do {
     kassert (n > 0);
     kassert (\<forall>p \<in> set [base..<base + n]. reserved (pages s p));
     let s = s\<lparr>pages := (\<lambda>p. if in_range base n p then (pages s p)\<lparr>reserved := False,
               has_property := False, property := 0, ref := 0\<rparr> else pages s p)\<rparr>;
     let s = upd_page base (\<lambda>q. q\<lparr>property := n, has_property := True\<rparr>) s;
     Some (s\<lparr>nr_free := nr_free s + n, free_list := free_list s @ [base]\<rparr>) }"

subsection \<open>Allocation\<close>

text \<open>The loops that choose a block.\<close>

definition first_block :: "free_area \<Rightarrow> nat \<Rightarrow> nat option" where
  "first_block s n = find (\<lambda>p. property (pages s p) \<ge> n) (free_list s)"

fun best_block :: "free_area \<Rightarrow> nat \<Rightarrow> nat list \<Rightarrow> nat option \<Rightarrow> nat option" where
  "best_block s n [] best = best"
| "best_block s n (p # ps) best =
     best_block s n ps
       (if property (pages s p) \<ge> n \<and>
           (case best of None \<Rightarrow> True | Some b \<Rightarrow> property (pages s p) < property (pages s b))
        then Some p else best)"

definition firstfit_alloc_pages :: "free_area \<Rightarrow> nat \<Rightarrow> (nat option \<times> free_area) option" where
  "firstfit_alloc_pages s n = do {
     kassert (n > 0);
     if n > nr_free s then Some (None, s)
     else case first_block s n of None \<Rightarrow> Some (None, s)
       | Some page \<Rightarrow> do {
           let s = (if property (pages s page) > n then
               (let s = upd_page (page + n)
                          (\<lambda>q. q\<lparr>property := property (pages s page) - n, has_property := True\<rparr>) s
                in s\<lparr>free_list := insert_after page (page + n) (free_list s)\<rparr>) else s);
           let s = s\<lparr>free_list := remove1 page (free_list s), nr_free := nr_free s - n\<rparr>;
           Some (Some page, upd_page page (\<lambda>q. q\<lparr>has_property := False\<rparr>) s) } }"

definition best_alloc_pages :: "free_area \<Rightarrow> nat \<Rightarrow> (nat option \<times> free_area) option" where
  "best_alloc_pages s n = do {
     kassert (n > 0);
     if n > nr_free s then Some (None, s)
     else case best_block s n (free_list s) None of None \<Rightarrow> Some (None, s)
       | Some page \<Rightarrow> do {
           let s = (if property (pages s page) > n then
               (let s = upd_page (page + n)
                          (\<lambda>q. q\<lparr>property := property (pages s page) - n, has_property := True\<rparr>) s
                in s\<lparr>free_list := (page + n) # free_list s\<rparr>) else s);
           let s = s\<lparr>free_list := remove1 page (free_list s), nr_free := nr_free s - n\<rparr>;
           Some (Some page, upd_page page (\<lambda>q. q\<lparr>has_property := False\<rparr>) s) } }"

subsection \<open>Release\<close>

text \<open>
  The merging loop: \<^verbatim>\<open>le\<close> is advanced before an entry is unlinked, so the loop visits the blocks
  that were on the list when it started.
\<close>

fun coalesce :: "nat list \<Rightarrow> nat \<Rightarrow> free_area \<Rightarrow> nat \<times> free_area" where
  "coalesce [] b s = (b, s)"
| "coalesce (p # ps) b s =
     (if b + property (pages s b) = p then
        (let s = upd_page b (\<lambda>q. q\<lparr>property := property q + property (pages s p)\<rparr>) s;
             s = upd_page p (\<lambda>q. q\<lparr>has_property := False\<rparr>) s
         in coalesce ps b (s\<lparr>free_list := remove1 p (free_list s)\<rparr>))
      else if p + property (pages s p) = b then
        (let s = upd_page p (\<lambda>q. q\<lparr>property := property q + property (pages s b)\<rparr>) s;
             s = upd_page b (\<lambda>q. q\<lparr>has_property := False\<rparr>) s
         in coalesce ps p (s\<lparr>free_list := remove1 p (free_list s)\<rparr>))
      else coalesce ps b s)"

definition place_block :: "nat \<Rightarrow> free_area \<Rightarrow> free_area option" where
  "place_block b s = do {
     let e = b + property (pages s b);
     let ys = dropWhile (\<lambda>p. \<not> e \<le> p) (free_list s);
     kassert (ys \<noteq> [] \<longrightarrow> hd ys \<noteq> e);
     Some (s\<lparr>free_list := takeWhile (\<lambda>p. \<not> e \<le> p) (free_list s) @ b # ys\<rparr>) }"

definition firstfit_free_pages :: "free_area \<Rightarrow> nat \<Rightarrow> nat \<Rightarrow> free_area option" where
  "firstfit_free_pages s base n = do {
     kassert (n > 0);
     kassert (\<forall>p \<in> set [base..<base + n]. \<not> reserved (pages s p) \<and> \<not> has_property (pages s p));
     let s = s\<lparr>pages := (\<lambda>p. if in_range base n p then (pages s p)\<lparr>reserved := False,
               has_property := False, ref := 0\<rparr> else pages s p)\<rparr>;
     let s = upd_page base (\<lambda>q. q\<lparr>property := n, has_property := True\<rparr>) s;
     let (b, s) = coalesce (free_list s) base s;
     let s = s\<lparr>nr_free := nr_free s + n\<rparr>;
     place_block b s }"

definition best_init :: "free_area \<Rightarrow> free_area" where
  "best_init s = s\<lparr>free_list := [], nr_free := 0\<rparr>"

definition best_init_memmap :: "free_area \<Rightarrow> nat \<Rightarrow> nat \<Rightarrow> free_area option" where
  "best_init_memmap s base n = firstfit_init_memmap s base n"

definition best_free_pages :: "free_area \<Rightarrow> nat \<Rightarrow> nat \<Rightarrow> free_area option" where
  "best_free_pages s base n = firstfit_free_pages s base n"

definition firstfit_nr_free_pages :: "free_area \<Rightarrow> nat" where
  "firstfit_nr_free_pages s = nr_free s"

subsection \<open>The set of free pages and the invariant\<close>

definition block :: "free_area \<Rightarrow> nat \<Rightarrow> nat set" where
  "block s p = {p..<p + property (pages s p)}"

definition free_set :: "free_area \<Rightarrow> nat set" where
  "free_set s = (\<Union>p \<in> set (free_list s). block s p)"

text \<open>Two blocks of the set are disjoint and do not touch.\<close>

definition apart :: "(nat \<Rightarrow> nat) \<Rightarrow> nat set \<Rightarrow> bool" where
  "apart sz B \<longleftrightarrow> (\<forall>p \<in> B. 0 < sz p) \<and> (\<forall>p \<in> B. \<forall>q \<in> B. p < q \<longrightarrow> p + sz p < q)"

definition area_inv :: "free_area \<Rightarrow> bool" where
  "area_inv s \<longleftrightarrow> distinct (free_list s) \<and> apart (\<lambda>p. property (pages s p)) (set (free_list s)) \<and>
     (\<forall>p. has_property (pages s p) \<longleftrightarrow> p \<in> set (free_list s)) \<and>
     (\<forall>p \<in> free_set s. \<not> reserved (pages s p)) \<and>
     nr_free s = (\<Sum>p\<leftarrow>free_list s. property (pages s p))"

lemma upd_page_sel [simp]:
  "pages (upd_page p f s) q = (if q = p then f (pages s p) else pages s q)"
  "free_list (upd_page p f s) = free_list s" "nr_free (upd_page p f s) = nr_free s"
  by (simp_all add: upd_page_def)

subsection \<open>Merging\<close>

abbreviation sz :: "free_area \<Rightarrow> nat \<Rightarrow> nat" where
  "sz s p \<equiv> property (pages s p)"

definition beside :: "(nat \<Rightarrow> nat) \<Rightarrow> nat \<Rightarrow> nat \<Rightarrow> bool" where
  "beside f b p \<longleftrightarrow> (p < b \<longrightarrow> p + f p \<le> b) \<and> (b < p \<longrightarrow> b + f b \<le> p) \<and> p \<noteq> b"

text \<open>
  The state of the merging loop: block \<open>b\<close> is off the list and disjoint from the blocks on it, and
  touches at most those still to be visited.
\<close>

definition coal_inv :: "free_area \<Rightarrow> nat \<Rightarrow> nat list \<Rightarrow> bool" where
  "coal_inv s b ps \<longleftrightarrow> distinct (free_list s) \<and> apart (sz s) (set (free_list s)) \<and> 0 < sz s b \<and>
     (\<forall>p \<in> set (free_list s). beside (sz s) b p) \<and> set ps \<subseteq> set (free_list s) \<and> distinct ps \<and>
     (\<forall>p \<in> set (free_list s) - set ps. p + sz s p \<noteq> b \<and> b + sz s b \<noteq> p) \<and>
     (\<forall>p. has_property (pages s p) \<longleftrightarrow> p = b \<or> p \<in> set (free_list s))"

text \<open>What merging leaves alone.\<close>

definition coal_frame :: "free_area \<Rightarrow> nat \<Rightarrow> free_area \<Rightarrow> nat \<Rightarrow> bool" where
  "coal_frame s b s' b' \<longleftrightarrow> block s' b' \<union> free_set s' = block s b \<union> free_set s \<and>
     (\<Sum>p\<leftarrow>free_list s'. sz s' p) + sz s' b' = (\<Sum>p\<leftarrow>free_list s. sz s p) + sz s b \<and>
     (\<forall>p. reserved (pages s' p) = reserved (pages s p)) \<and> nr_free s' = nr_free s \<and>
     (sorted (free_list s) \<longrightarrow> sorted (free_list s'))"

lemma coal_frame_trans: "coal_frame s b s' b' \<Longrightarrow> coal_frame s' b' s'' b'' \<Longrightarrow> coal_frame s b s'' b''"
  by (simp add: coal_frame_def)

definition merge_right :: "nat \<Rightarrow> nat \<Rightarrow> free_area \<Rightarrow> free_area" where
  "merge_right b p s = (let s = upd_page b (\<lambda>q. q\<lparr>property := property q + property (pages s p)\<rparr>) s;
     s = upd_page p (\<lambda>q. q\<lparr>has_property := False\<rparr>) s in s\<lparr>free_list := remove1 p (free_list s)\<rparr>)"

lemma merge_right_sel:
  assumes "p \<noteq> b"
  shows "free_list (merge_right b p s) = remove1 p (free_list s)" "nr_free (merge_right b p s) = nr_free s"
    "sz (merge_right b p s) q = (if q = b then sz s b + sz s p else sz s q)"
    "has_property (pages (merge_right b p s) q) = (has_property (pages s q) \<and> q \<noteq> p)"
    "reserved (pages (merge_right b p s) q) = reserved (pages s q)"
  using assms by (auto simp: merge_right_def Let_def)

lemma coal_inv_merge_right:
  assumes inv: "coal_inv s b (p # ps)" and adj: "b + sz s b = p"
  shows "coal_inv (merge_right b p s) b ps"
proof -
  let ?L = "free_list s"
  from inv have L: "distinct ?L" "apart (sz s) (set ?L)" "p \<in> set ?L" "p \<notin> set ps" "set ps \<subseteq> set ?L"
    "\<And>q. q \<in> set ?L \<Longrightarrow> beside (sz s) b q" "0 < sz s b" by (auto simp: coal_inv_def)
  have ne: "p \<noteq> b" using L(3,6) by (auto simp: beside_def)
  have bL: "b \<notin> set ?L" using L(6) by (auto simp: beside_def)
  have S: "set (remove1 p ?L) = set ?L - {p}" using L(1) by simp
  have far: "q < p \<longrightarrow> q + sz s q < p" "p < q \<longrightarrow> p + sz s p < q" if "q \<in> set ?L" for q
    using L(2,3) that by (auto simp: apart_def)
  have ap: "apart (sz (merge_right b p s)) (set ?L - {p})"
    using L(2) bL unfolding apart_def merge_right_sel[OF ne] by auto
  have bs: "beside (sz (merge_right b p s)) b q" if "q \<in> set ?L - {p}" for q
    using L(6)[of q] far[of q] that bL adj unfolding beside_def merge_right_sel[OF ne] by auto
  have "q + sz (merge_right b p s) q \<noteq> b \<and> b + sz (merge_right b p s) b \<noteq> q"
    if "q \<in> set ?L - {p} - set ps" for q
  proof -
    have "q + sz s q \<noteq> b \<and> p + sz s p \<noteq> q" using inv far[of q] that by (auto simp: coal_inv_def)
    with that bL adj show ?thesis unfolding merge_right_sel[OF ne] by auto
  qed
  moreover have "\<forall>q. has_property (pages s q) \<longleftrightarrow> q = b \<or> q \<in> set ?L" using inv by (simp add: coal_inv_def)
  ultimately show ?thesis
    using L ap bs ne inv by (auto simp: coal_inv_def merge_right_sel[OF ne] S)
qed

lemma coal_frame_merge_right:
  assumes inv: "coal_inv s b (p # ps)" and adj: "b + sz s b = p"
  shows "coal_frame s b (merge_right b p s) b"
proof -
  let ?L = "free_list s"
  from inv have L: "distinct ?L" "p \<in> set ?L" "b \<notin> set ?L" "p \<noteq> b"
    by (auto simp: coal_inv_def beside_def)
  note sel = merge_right_sel[OF L(4), of s]
  have b: "block (merge_right b p s) b = block s b \<union> block s p"
    using adj by (auto simp: block_def sel)
  have q: "block (merge_right b p s) q = block s q" if "q \<in> set ?L" for q
    using that L(3) by (auto simp: block_def sel)
  have "free_set s = block s p \<union> free_set (merge_right b p s)"
    unfolding free_set_def sel(1) using L(1,2) q by auto
  moreover have "(\<Sum>q\<leftarrow>?L. sz s q) = sz s p + (\<Sum>q\<leftarrow>remove1 p ?L. sz s q)"
    using L(2) by (simp add: sum_list_map_remove1)
  moreover have "(\<Sum>q\<leftarrow>remove1 p ?L. sz (merge_right b p s) q) = (\<Sum>q\<leftarrow>remove1 p ?L. sz s q)"
    using L(3) by (intro sum_list_map_cong) (auto simp: sel dest: notin_set_remove1)
  ultimately show ?thesis unfolding coal_frame_def sel b
    by (auto simp: sorted_remove1)
qed

definition merge_left :: "nat \<Rightarrow> nat \<Rightarrow> free_area \<Rightarrow> free_area" where
  "merge_left b p s = (let s = upd_page p (\<lambda>q. q\<lparr>property := property q + property (pages s b)\<rparr>) s;
     s = upd_page b (\<lambda>q. q\<lparr>has_property := False\<rparr>) s in s\<lparr>free_list := remove1 p (free_list s)\<rparr>)"

lemma merge_left_sel:
  assumes "p \<noteq> b"
  shows "free_list (merge_left b p s) = remove1 p (free_list s)" "nr_free (merge_left b p s) = nr_free s"
    "sz (merge_left b p s) q = (if q = p then sz s p + sz s b else sz s q)"
    "has_property (pages (merge_left b p s) q) = (has_property (pages s q) \<and> q \<noteq> b)"
    "reserved (pages (merge_left b p s) q) = reserved (pages s q)"
  using assms by (auto simp: merge_left_def Let_def)

lemma coal_inv_merge_left:
  assumes inv: "coal_inv s b (p # ps)" and adj: "p + sz s p = b"
  shows "coal_inv (merge_left b p s) p ps"
proof -
  let ?L = "free_list s"
  from inv have L: "distinct ?L" "apart (sz s) (set ?L)" "p \<in> set ?L" "p \<notin> set ps" "set ps \<subseteq> set ?L"
    "\<And>q. q \<in> set ?L \<Longrightarrow> beside (sz s) b q" "0 < sz s b" by (auto simp: coal_inv_def)
  have ne: "p \<noteq> b" using L(3,6) by (auto simp: beside_def)
  have S: "set (remove1 p ?L) = set ?L - {p}" using L(1) by simp
  have far: "q < p \<longrightarrow> q + sz s q < p" "p < q \<longrightarrow> p + sz s p < q" if "q \<in> set ?L" for q
    using L(2,3) that by (auto simp: apart_def)
  have ap: "apart (sz (merge_left b p s)) (set ?L - {p})"
    using L(2) unfolding apart_def merge_left_sel[OF ne] by auto
  have bs: "beside (sz (merge_left b p s)) p q" if "q \<in> set ?L - {p}" for q
    using L(6)[of q] far[of q] that adj unfolding beside_def merge_left_sel[OF ne] by auto
  have "q + sz (merge_left b p s) q \<noteq> p \<and> p + sz (merge_left b p s) p \<noteq> q"
    if "q \<in> set ?L - {p} - set ps" for q
  proof -
    have "q + sz s q \<noteq> p \<and> b + sz s b \<noteq> q" using inv far[of q] that by (auto simp: coal_inv_def)
    with that adj show ?thesis unfolding merge_left_sel[OF ne] by auto
  qed
  moreover have "\<forall>q. has_property (pages s q) \<longleftrightarrow> q = b \<or> q \<in> set ?L" using inv by (simp add: coal_inv_def)
  ultimately show ?thesis
    using L ap bs ne inv by (auto simp: coal_inv_def merge_left_sel[OF ne] S beside_def)
qed

lemma coal_frame_merge_left:
  assumes inv: "coal_inv s b (p # ps)" and adj: "p + sz s p = b"
  shows "coal_frame s b (merge_left b p s) p"
proof -
  let ?L = "free_list s"
  from inv have L: "distinct ?L" "p \<in> set ?L" "p \<noteq> b" by (auto simp: coal_inv_def beside_def)
  note sel = merge_left_sel[OF L(3), of s]
  have b: "block (merge_left b p s) p = block s b \<union> block s p"
    using adj by (auto simp: block_def sel)
  have q: "block (merge_left b p s) q = block s q" if "q \<noteq> p" for q
    using that by (auto simp: block_def sel)
  have "free_set s = block s p \<union> free_set (merge_left b p s)"
    unfolding free_set_def sel(1) using L(1,2) q by auto
  moreover have "(\<Sum>q\<leftarrow>?L. sz s q) = sz s p + (\<Sum>q\<leftarrow>remove1 p ?L. sz s q)"
    using L(2) by (simp add: sum_list_map_remove1)
  moreover have "(\<Sum>q\<leftarrow>remove1 p ?L. sz (merge_left b p s) q) = (\<Sum>q\<leftarrow>remove1 p ?L. sz s q)"
    using L(1) by (intro sum_list_map_cong) (auto simp: sel)
  ultimately show ?thesis unfolding coal_frame_def sel b
    by (auto simp: sorted_remove1)
qed

lemma coalesce_step:
  "coalesce (p # ps) b s =
     (if b + sz s b = p then coalesce ps b (merge_right b p s)
      else if p + sz s p = b then coalesce ps p (merge_left b p s) else coalesce ps b s)"
  by (simp add: merge_right_def merge_left_def Let_def)

lemma coalesce_ok:
  assumes "coal_inv s b ps" "coalesce ps b s = (b', s')"
  shows "coal_inv s' b' [] \<and> coal_frame s b s' b'"
  using assms
proof (induction ps arbitrary: b s)
  case (Cons p ps)
  show ?case
  proof (cases "b + sz s b = p")
    case True
    with Cons.prems have "coalesce ps b (merge_right b p s) = (b', s')" by (simp add: coalesce_step del: coalesce.simps)
    from Cons.IH[OF coal_inv_merge_right[OF Cons.prems(1) True] this]
      coal_frame_merge_right[OF Cons.prems(1) True] show ?thesis by (blast intro: coal_frame_trans)
  next
    case r: False
    show ?thesis
    proof (cases "p + sz s p = b")
      case True
      with Cons.prems r have "coalesce ps p (merge_left b p s) = (b', s')"
        by (simp add: coalesce_step del: coalesce.simps)
      from Cons.IH[OF coal_inv_merge_left[OF Cons.prems(1) True] this]
        coal_frame_merge_left[OF Cons.prems(1) True] show ?thesis by (blast intro: coal_frame_trans)
    next
      case False
      with r Cons.prems(1) have "coal_inv s b ps" by (auto simp: coal_inv_def)
      with Cons.IH[of s b] Cons.prems(2) r False show ?thesis by simp
    qed
  qed
qed (simp add: coal_frame_def)

subsection \<open>Release restores the pages\<close>

lemma sorted_dropWhile_ge: "sorted xs \<Longrightarrow> p \<in> set (dropWhile (\<lambda>p. \<not> e \<le> p) xs) \<Longrightarrow> e \<le> p" for e :: nat
  by (induction xs) (auto split: if_splits)

lemma place_block_ok:
  assumes inv: "coal_inv s b []" and cnt: "nr_free s = (\<Sum>p\<leftarrow>free_list s. sz s p) + sz s b"
    and res: "\<forall>p \<in> block s b \<union> free_set s. \<not> reserved (pages s p)"
  shows "\<exists>s'. place_block b s = Some s' \<and> area_inv s' \<and> free_set s' = block s b \<union> free_set s \<and>
    nr_free s' = nr_free s \<and> pages s' = pages s \<and> (sorted (free_list s) \<longrightarrow> sorted (free_list s'))"
proof -
  let ?L = "free_list s" and ?e = "b + sz s b"
  let ?xs = "takeWhile (\<lambda>p. \<not> ?e \<le> p) ?L" and ?ys = "dropWhile (\<lambda>p. \<not> ?e \<le> p) ?L"
  let ?s = "s\<lparr>free_list := ?xs @ b # ?ys\<rparr>"
  from inv have L: "distinct ?L" "apart (sz s) (set ?L)" "0 < sz s b"
    "\<And>p. p \<in> set ?L \<Longrightarrow> beside (sz s) b p \<and> p + sz s p \<noteq> b \<and> ?e \<noteq> p"
    "\<And>p. has_property (pages s p) \<longleftrightarrow> p = b \<or> p \<in> set ?L" by (auto simp: coal_inv_def)
  have m: "mset (?xs @ b # ?ys) = add_mset b (mset ?L)"
    by (metis mset.simps(2) mset_append takeWhile_dropWhile_id union_mset_add_mset_right)
  then have S: "set (?xs @ b # ?ys) = insert b (set ?L)" by (metis set_mset_mset set_mset_add_mset_insert)
  have bL: "b \<notin> set ?L" using L(4) by (auto simp: beside_def)
  have "distinct (?xs @ b # ?ys)"
    by (metis bL L(1) distinct.simps(2) m mset.simps(2) mset_eq_imp_distinct_iff)
  moreover have "apart (sz s) (insert b (set ?L))"
    using L(2,3,4) unfolding apart_def beside_def by (metis insertE le_neq_implies_less nat_neq_iff)
  moreover have "(\<Sum>p\<leftarrow>?xs @ b # ?ys. sz s p) = (\<Sum>p\<leftarrow>?L. sz s p) + sz s b"
    using sum_list_map_mset[of "?xs @ b # ?ys" "b # ?L" "sz s"] m by simp
  moreover have fs: "free_set ?s = block s b \<union> free_set s"
    unfolding free_set_def block_def using S by simp
  ultimately have ai: "area_inv ?s"
    using L(5) cnt res S unfolding area_inv_def by simp
  have srt: "sorted (?xs @ b # ?ys)" if "sorted ?L"
  proof -
    have x: "p < b" if "p \<in> set ?xs" for p
      using L(4)[of p] set_takeWhileD[OF that] by (auto simp: beside_def)
    have y: "b \<le> p" if "p \<in> set ?ys" for p
      using sorted_dropWhile_ge[OF \<open>sorted ?L\<close> that] by simp
    have "sorted ?xs" "sorted ?ys" using \<open>sorted ?L\<close> by (auto intro: sorted_takeWhile sorted_dropWhile)
    moreover have "p \<le> q" if "p \<in> set ?xs" "q \<in> set ?ys" for p q
      using x[OF that(1)] y[OF that(2)] by simp
    ultimately show ?thesis using y less_imp_le[OF x] by (simp add: sorted_append)
  qed
  have "?ys \<noteq> [] \<longrightarrow> hd ?ys \<noteq> ?e"
    using L(4) by (metis hd_in_set set_dropWhileD)
  then have "place_block b s = Some ?s" by (simp add: place_block_def Let_def)
  with ai fs srt show ?thesis by simp
qed

lemma free_setI: "p \<in> set (free_list s) \<Longrightarrow> p \<le> x \<Longrightarrow> x < p + sz s p \<Longrightarrow> x \<in> free_set s"
  by (auto simp: free_set_def block_def)

lemma free_pages_ok:
  assumes inv: "area_inv s" and n: "0 < n"
    and fresh: "\<forall>p. in_range base n p \<longrightarrow> p \<notin> free_set s \<and> \<not> reserved (pages s p)"
  shows "\<exists>s'. firstfit_free_pages s base n = Some s' \<and> area_inv s' \<and>
    free_set s' = free_set s \<union> {base..<base + n} \<and> nr_free s' = nr_free s + n \<and>
    (\<forall>p. reserved (pages s' p) = reserved (pages s p)) \<and>
    (sorted (free_list s) \<longrightarrow> sorted (free_list s'))"
proof -
  let ?L = "free_list s"
  let ?s0 = "s\<lparr>pages := (\<lambda>p. if in_range base n p then (pages s p)\<lparr>reserved := False,
               has_property := False, ref := 0\<rparr> else pages s p)\<rparr>"
  define s1 where "s1 = upd_page base (\<lambda>q. q\<lparr>property := n, has_property := True\<rparr>) ?s0"
  have s1: "free_list s1 = ?L" "nr_free s1 = nr_free s" "sz s1 p = (if p = base then n else sz s p)"
    "reserved (pages s1 p) = reserved (pages s p)"
    "has_property (pages s1 p) = (p = base \<or> \<not> in_range base n p \<and> has_property (pages s p))" for p
    using fresh by (auto simp: s1_def)
  from inv have I: "distinct ?L" "apart (sz s) (set ?L)" "\<And>p. has_property (pages s p) \<longleftrightarrow> p \<in> set ?L"
    "\<And>p. p \<in> free_set s \<Longrightarrow> \<not> reserved (pages s p)" "nr_free s = (\<Sum>p\<leftarrow>?L. sz s p)"
    by (auto simp: area_inv_def)
  have pos: "0 < sz s p" if "p \<in> set ?L" for p using I(2) that by (simp add: apart_def)
  have off: "\<not> in_range base n p" if "p \<in> set ?L" for p
    using fresh free_setI[OF that, of p] pos[OF that] by auto
  have disj: "beside (sz s1) base p" if "p \<in> set ?L" for p
  proof -
    have "p \<noteq> base" using off[OF that] n by (auto simp: in_range_def)
    moreover have "in_range base n base" using n by (simp add: in_range_def)
    with fresh have "\<not> (p < base \<and> base < p + sz s p)" using free_setI[OF that, of base] by auto
    ultimately show ?thesis using off[OF that] by (auto simp: beside_def in_range_def s1(3))
  qed
  have sz1: "sz s1 p = sz s p" if "p \<in> set ?L" for p
    using disj[OF that] by (auto simp: beside_def s1(3))
  have "apart (sz s1) (set ?L)" using I(2) sz1 by (auto simp: apart_def)
  moreover have "has_property (pages s1 p) \<longleftrightarrow> p = base \<or> p \<in> set ?L" for p
    using I(3) off s1(5) by auto
  ultimately have ci: "coal_inv s1 base ?L"
    using I(1) n disj by (auto simp: coal_inv_def s1(1,3))
  obtain b s2 where co: "coalesce ?L base s1 = (b, s2)" by fastforce
  from coalesce_ok[OF ci co] have c2: "coal_inv s2 b []" "coal_frame s1 base s2 b" by auto
  let ?s3 = "s2\<lparr>nr_free := nr_free s2 + n\<rparr>"
  have fs1: "free_set s1 = free_set s" using sz1 by (simp add: free_set_def block_def s1(1))
  have b1: "block s1 base = {base..<base + n}" by (simp add: block_def s1(3))
  have sum1: "(\<Sum>p\<leftarrow>?L. sz s1 p) = (\<Sum>p\<leftarrow>?L. sz s p)" using sz1 by (rule sum_list_map_cong)
  have F: "block s2 b \<union> free_set s2 = {base..<base + n} \<union> free_set s"
    "nr_free s2 = nr_free s" "\<And>p. reserved (pages s2 p) = reserved (pages s p)"
    "(\<Sum>p\<leftarrow>free_list s2. sz s2 p) + sz s2 b = (\<Sum>p\<leftarrow>?L. sz s p) + n"
    "sorted ?L \<longrightarrow> sorted (free_list s2)"
    using c2(2) unfolding coal_frame_def fs1 b1 s1(1,2,4) sum1 by (simp_all add: s1(3))
  have "coal_inv ?s3 b []" using c2(1) by (simp add: coal_inv_def)
  moreover have "nr_free ?s3 = (\<Sum>p\<leftarrow>free_list ?s3. sz ?s3 p) + sz ?s3 b" using F(2,4) I(5) by simp
  moreover have bf: "block ?s3 b \<union> free_set ?s3 = {base..<base + n} \<union> free_set s"
    using F(1) by (simp add: block_def free_set_def)
  moreover have "\<forall>p \<in> block ?s3 b \<union> free_set ?s3. \<not> reserved (pages ?s3 p)"
    using fresh I(4) F(3) unfolding bf by (auto simp: in_range_def)
  ultimately obtain s' where "place_block b ?s3 = Some s'" "area_inv s'"
    "free_set s' = {base..<base + n} \<union> free_set s" "nr_free s' = nr_free ?s3" "pages s' = pages s2"
    "sorted (free_list s2) \<longrightarrow> sorted (free_list s')"
    using place_block_ok[of ?s3 b] by auto
  moreover have "firstfit_free_pages s base n = place_block b ?s3"
    using n I(3) fresh off co by (auto simp: firstfit_free_pages_def Let_def in_range_def s1_def)
  ultimately show ?thesis using F(2,3,5) by auto
qed

subsection \<open>Allocation takes a block's first pages\<close>

definition rest_of :: "free_area \<Rightarrow> nat \<Rightarrow> nat \<Rightarrow> nat list" where
  "rest_of s p n = (if sz s p > n then [p + n] else [])"

lemma alloc_block_ok:
  assumes inv: "area_inv s" and p: "p \<in> set (free_list s)" "n \<le> sz s p" and n: "0 < n"
    and list: "mset (free_list s') = mset (remove1 p (free_list s) @ rest_of s p n)"
    and cnt: "nr_free s' = nr_free s - n"
    and szs: "\<And>q. sz s' q = (if sz s p > n \<and> q = p + n then sz s p - n else sz s q)"
    and hp: "\<And>q. has_property (pages s' q) =
       (q \<noteq> p \<and> (sz s p > n \<and> q = p + n \<or> has_property (pages s q)))"
    and res: "\<And>q. reserved (pages s' q) = reserved (pages s q)"
  shows "area_inv s' \<and> {p..<p + n} \<subseteq> free_set s \<and> free_set s' = free_set s - {p..<p + n} \<and>
    n \<le> nr_free s"
proof -
  let ?L = "free_list s"
  let ?R = "set (rest_of s p n)"
  from inv have I: "distinct ?L" "apart (sz s) (set ?L)" "\<And>q. has_property (pages s q) \<longleftrightarrow> q \<in> set ?L"
    "\<And>q. q \<in> free_set s \<Longrightarrow> \<not> reserved (pages s q)" "nr_free s = (\<Sum>q\<leftarrow>?L. sz s q)"
    by (auto simp: area_inv_def)
  have S: "set (free_list s') = (set ?L - {p}) \<union> ?R"
    using mset_eq_setD[OF list] I(1) by simp
  have far: "q < p \<longrightarrow> q + sz s q < p" "p < q \<longrightarrow> p + sz s p < q" "0 < sz s q" if "q \<in> set ?L" for q
    using I(2) p(1) that by (auto simp: apart_def)
  have new: "p + n \<notin> set ?L" if "sz s p > n" using far[of "p + n"] that n by auto
  have "distinct (free_list s')"
    unfolding mset_eq_imp_distinct_iff[OF list] using new I(1) by (simp add: rest_of_def)
  moreover have sq: "sz s' q = sz s q" if "q \<in> set ?L - {p}" for q using szs[of q] that new by auto
  have rest: "q = p + n" "sz s' q = sz s p - n" "n < sz s p" if "q \<in> ?R" for q
    using that by (simp_all add: rest_of_def szs split: if_splits)
  have "apart (sz s') (set (free_list s'))"
    unfolding apart_def S
  proof (intro conjI ballI impI)
    fix a assume "a \<in> set ?L - {p} \<union> ?R"
    then show "0 < sz s' a" using sq[of a] far(3)[of a] rest[of a] by auto
  next
    fix a c assume ac: "a \<in> set ?L - {p} \<union> ?R" "c \<in> set ?L - {p} \<union> ?R" "a < c"
    have old: "a + sz s a < c" if "a \<in> set ?L" "c \<in> set ?L" using I(2) that ac(3) by (simp add: apart_def)
    show "a + sz s' a < c"
      using ac old sq[of a] rest[of a] rest[of c] far[of a] far[of c] n by auto
  qed
  moreover have "\<forall>q. has_property (pages s' q) \<longleftrightarrow> q \<in> set (free_list s')"
    unfolding S hp I(3) using n by (auto simp: rest_of_def)
  moreover have fs: "free_set s' = free_set s - {p..<p + n}"
  proof -
    have "free_set s' = (\<Union>q \<in> set ?L - {p}. block s q) \<union> {p + n..<p + sz s p}"
      using sq n by (auto simp: free_set_def block_def S szs rest_of_def split: if_splits)
    moreover have "(\<Union>q \<in> set ?L - {p}. block s q) \<inter> block s p = {}"
      using far by (fastforce simp: block_def)
    moreover have "free_set s = (\<Union>q \<in> set ?L - {p}. block s q) \<union> block s p"
      using p(1) by (auto simp: free_set_def)
    ultimately show ?thesis using p(2) by (auto simp: block_def)
  qed
  moreover have "nr_free s = sz s p + (\<Sum>q\<leftarrow>remove1 p ?L. sz s q)"
    using I(5) sum_list_map_remove1[OF p(1), of "sz s"] by simp
  moreover have "(\<Sum>q\<leftarrow>free_list s'. sz s' q) = (\<Sum>q\<leftarrow>remove1 p ?L. sz s q) + (sz s p - n)"
  proof -
    have "(\<Sum>q\<leftarrow>remove1 p ?L. sz s' q) = (\<Sum>q\<leftarrow>remove1 p ?L. sz s q)"
      using sq I(1) by (intro sum_list_map_cong) auto
    then show ?thesis using sum_list_map_mset[OF list, of "sz s'"] p(2) by (simp add: szs rest_of_def)
  qed
  moreover have "{p..<p + n} \<subseteq> free_set s" using free_setI[OF p(1)] p(2) by auto
  ultimately show ?thesis using cnt res I(4) p(2) unfolding area_inv_def by auto
qed

lemma first_block_Some:
  assumes "first_block s n = Some p"
  shows "p \<in> set (free_list s)" "n \<le> sz s p"
  using assms by (auto simp: first_block_def find_Some_iff)

lemma first_block_None: "first_block s n = None \<Longrightarrow> q \<in> set (free_list s) \<Longrightarrow> sz s q < n"
  by (auto simp: first_block_def find_None_iff)

lemma best_block_best:
  assumes "case best of None \<Rightarrow> True | Some b \<Rightarrow> n \<le> sz s b"
  shows "case best_block s n ps best of
      None \<Rightarrow> best = None \<and> (\<forall>q \<in> set ps. sz s q < n)
    | Some b \<Rightarrow> b \<in> set ps \<union> set_option best \<and> n \<le> sz s b \<and>
        (\<forall>q \<in> set ps \<union> set_option best. n \<le> sz s q \<longrightarrow> sz s b \<le> sz s q)"
  using assms
proof (induction ps arbitrary: best)
  case (Cons p ps)
  let ?b = "if sz s p \<ge> n \<and> (case best of None \<Rightarrow> True | Some b \<Rightarrow> sz s p < sz s b) then Some p else best"
  have "case ?b of None \<Rightarrow> True | Some b \<Rightarrow> n \<le> sz s b" using Cons.prems by (auto split: option.splits)
  from Cons.IH[OF this] Cons.prems show ?case
    by (cases best) (auto split: option.splits if_splits intro: order.trans)
qed (auto split: option.splits)

lemma insert_after_mset: "p \<in> set xs \<Longrightarrow> distinct xs \<Longrightarrow> mset (insert_after p e xs) = add_mset e (mset xs)"
  by (induction xs) auto

lemma firstfit_alloc_ok:
  assumes inv: "area_inv s" and n: "0 < n"
  shows "\<exists>r s'. firstfit_alloc_pages s n = Some (r, s') \<and> area_inv s' \<and>
    (\<forall>q. reserved (pages s' q) = reserved (pages s q)) \<and>
    (case r of None \<Rightarrow> s' = s \<and> (\<forall>p \<in> set (free_list s). sz s p < n)
     | Some p \<Rightarrow> {p..<p + n} \<subseteq> free_set s \<and> free_set s' = free_set s - {p..<p + n} \<and> nr_free s' + n = nr_free s)"
proof -
  have small: "sz s p \<le> nr_free s" if "p \<in> set (free_list s)" for p
    using that inv by (simp add: area_inv_def member_le_sum_list)
  show ?thesis
  proof (cases "first_block s n")
    case None
    from first_block_None[OF None] n inv None show ?thesis
      by (intro exI[of _ None] exI[of _ s]) (simp add: firstfit_alloc_pages_def)
  next
    case (Some p)
    note P = first_block_Some[OF Some]
    let ?s1 = "if sz s p > n then (let t = upd_page (p + n) (\<lambda>q. q\<lparr>property := sz s p - n, has_property := True\<rparr>) s
        in t\<lparr>free_list := insert_after p (p + n) (free_list t)\<rparr>) else s"
    let ?s' = "upd_page p (\<lambda>q. q\<lparr>has_property := False\<rparr>)
        (?s1\<lparr>free_list := remove1 p (free_list ?s1), nr_free := nr_free ?s1 - n\<rparr>)"
    have e: "firstfit_alloc_pages s n = Some (Some p, ?s')"
      using n Some small[OF P(1)] P(2) by (simp add: firstfit_alloc_pages_def Let_def)
    have d: "distinct (free_list s)" using inv by (simp add: area_inv_def)
    have "area_inv ?s' \<and> {p..<p + n} \<subseteq> free_set s \<and> free_set ?s' = free_set s - {p..<p + n} \<and> n \<le> nr_free s"
      using n P by (intro alloc_block_ok[OF inv P n])
        (auto simp: Let_def rest_of_def insert_after_mset[OF P(1) d])
    then show ?thesis
      unfolding e by (intro exI[of _ "Some p"] exI[of _ ?s']) (simp add: Let_def)
  qed
qed

lemma best_alloc_ok:
  assumes inv: "area_inv s" and n: "0 < n"
  shows "\<exists>r s'. best_alloc_pages s n = Some (r, s') \<and> area_inv s' \<and>
    (\<forall>q. reserved (pages s' q) = reserved (pages s q)) \<and>
    (case r of None \<Rightarrow> s' = s \<and> (\<forall>p \<in> set (free_list s). sz s p < n)
     | Some p \<Rightarrow> {p..<p + n} \<subseteq> free_set s \<and> free_set s' = free_set s - {p..<p + n} \<and> nr_free s' + n = nr_free s)"
proof -
  have small: "sz s p \<le> nr_free s" if "p \<in> set (free_list s)" for p
    using that inv by (simp add: area_inv_def member_le_sum_list)
  note B = best_block_best[of n s None "free_list s"]
  show ?thesis
  proof (cases "best_block s n (free_list s) None")
    case None
    with B n inv show ?thesis
      by (intro exI[of _ None] exI[of _ s]) (simp add: best_alloc_pages_def)
  next
    case (Some p)
    with B have P: "p \<in> set (free_list s)" "n \<le> sz s p" by simp_all
    let ?s1 = "if sz s p > n then (let t = upd_page (p + n) (\<lambda>q. q\<lparr>property := sz s p - n, has_property := True\<rparr>) s
        in t\<lparr>free_list := (p + n) # free_list t\<rparr>) else s"
    let ?s' = "upd_page p (\<lambda>q. q\<lparr>has_property := False\<rparr>)
        (?s1\<lparr>free_list := remove1 p (free_list ?s1), nr_free := nr_free ?s1 - n\<rparr>)"
    have e: "best_alloc_pages s n = Some (Some p, ?s')"
      using n Some small[OF P(1)] P(2) by (simp add: best_alloc_pages_def Let_def)
    have "area_inv ?s' \<and> {p..<p + n} \<subseteq> free_set s \<and> free_set ?s' = free_set s - {p..<p + n} \<and> n \<le> nr_free s"
      using n P by (intro alloc_block_ok[OF inv P n]) (auto simp: Let_def rest_of_def)
    then show ?thesis
      unfolding e by (intro exI[of _ "Some p"] exI[of _ ?s']) (simp add: Let_def)
  qed
qed

lemma sum_block_card:
  "distinct L \<Longrightarrow> apart (sz s) (set L) \<Longrightarrow> (\<Sum>p\<leftarrow>L. sz s p) = card (\<Union>p \<in> set L. block s p)"
proof (induction L)
  case (Cons p L)
  have "apart (sz s) (set L)" using Cons.prems(2) by (auto simp: apart_def)
  moreover have "block s p \<inter> block s q = {}" if "q \<in> set L" for q
  proof -
    have "p \<noteq> q" using that Cons.prems(1) by auto
    then have "p < q \<or> q < p" by arith
    then have "p + sz s p < q \<or> q + sz s q < p" using that Cons.prems(2) by (auto simp: apart_def)
    then show ?thesis by (auto simp: block_def)
  qed
  then have "block s p \<inter> (\<Union>q \<in> set L. block s q) = {}" by blast
  moreover have "finite (block s q)" "card (block s q) = sz s q" for q by (simp_all add: block_def)
  ultimately show ?case using Cons by (simp add: card_Un_disjoint)
qed simp

lemma nr_free_card: "area_inv s \<Longrightarrow> nr_free s = card (free_set s)"
  by (simp add: area_inv_def free_set_def sum_block_card)

subsection \<open>The contract of struct pmm_manager\<close>

type_synonym alloc_op = "free_area \<Rightarrow> nat \<Rightarrow> (nat option \<times> free_area) option"
type_synonym free_op = "free_area \<Rightarrow> nat \<Rightarrow> nat \<Rightarrow> free_area option"

text \<open>
  A caller's requests, and the regions it holds: \<open>Release i\<close> gives back the \<open>i\<close>th of them.
\<close>

datatype request = Request nat | Release nat

fun serve :: "alloc_op \<Rightarrow> free_op \<Rightarrow> request \<Rightarrow> free_area \<times> (nat \<times> nat) list \<Rightarrow> (free_area \<times> (nat \<times> nat) list) option" where
  "serve al fr (Request n) (s, held) = do {
     (r, s) \<leftarrow> al s n;
     Some (s, case r of None \<Rightarrow> held | Some p \<Rightarrow> (p, n) # held) }"
| "serve al fr (Release i) (s, held) =
     (if i < length held then do {
        s \<leftarrow> fr s (fst (held ! i)) (snd (held ! i));
        Some (s, take i held @ drop (Suc i) held) }
      else Some (s, held))"

fun serve_all :: "alloc_op \<Rightarrow> free_op \<Rightarrow> request list \<Rightarrow> free_area \<times> (nat \<times> nat) list \<Rightarrow> (free_area \<times> (nat \<times> nat) list) option" where
  "serve_all al fr [] st = Some st"
| "serve_all al fr (r # rs) st = do { st \<leftarrow> serve al fr r st; serve_all al fr rs st }"

definition region :: "nat \<times> nat \<Rightarrow> nat set" where
  "region h = {fst h..<fst h + snd h}"

definition held_ok :: "free_area \<times> (nat \<times> nat) list \<Rightarrow> bool" where
  "held_ok st \<longleftrightarrow> sorted_wrt (\<lambda>g h. region g \<inter> region h = {}) (snd st) \<and>
     (\<forall>h \<in> set (snd st). 0 < snd h \<and> region h \<inter> free_set (fst st) = {} \<and>
        (\<forall>p \<in> region h. \<not> reserved (pages (fst st) p)))"

locale page_allocator =
  fixes al :: alloc_op and fr :: free_op and ainv :: "free_area \<Rightarrow> bool"
  assumes alloc_ok: "ainv s \<Longrightarrow> 0 < n \<Longrightarrow>
      \<exists>r s'. al s n = Some (r, s') \<and> ainv s' \<and> (\<forall>q. reserved (pages s' q) = reserved (pages s q)) \<and>
        (case r of None \<Rightarrow> s' = s \<and> (\<forall>p \<in> set (free_list s). sz s p < n)
         | Some p \<Rightarrow> {p..<p + n} \<subseteq> free_set s \<and> free_set s' = free_set s - {p..<p + n} \<and> nr_free s' + n = nr_free s)"
    and free_ok: "ainv s \<Longrightarrow> 0 < n \<Longrightarrow>
      \<forall>p. in_range b n p \<longrightarrow> p \<notin> free_set s \<and> \<not> reserved (pages s p) \<Longrightarrow>
      \<exists>s'. fr s b n = Some s' \<and> ainv s' \<and> free_set s' = free_set s \<union> {b..<b + n} \<and>
        nr_free s' = nr_free s + n \<and> (\<forall>p. reserved (pages s' p) = reserved (pages s p))"
    and inv_area: "ainv s \<Longrightarrow> area_inv s"
begin

lemma serve_request:
  assumes "ainv (fst st)" "held_ok st" "0 < n"
  shows "\<exists>st'. serve al fr (Request n) st = Some st' \<and> ainv (fst st') \<and> held_ok st' \<and>
    nr_free (fst st') + sum_list (map snd (snd st')) = nr_free (fst st) + sum_list (map snd (snd st))"
proof -
  obtain s held where [simp]: "st = (s, held)" by (cases st)
  from alloc_ok[of s n] assms(1,3) obtain r s' where A: "al s n = Some (r, s')" "ainv s'"
    "\<And>q. reserved (pages s' q) = reserved (pages s q)"
    "case r of None \<Rightarrow> s' = s \<and> (\<forall>p \<in> set (free_list s). sz s p < n)
     | Some p \<Rightarrow> {p..<p + n} \<subseteq> free_set s \<and> free_set s' = free_set s - {p..<p + n} \<and> nr_free s' + n = nr_free s"
    by auto
  have unres: "\<not> reserved (pages s p)" if "p \<in> free_set s" for p
    using that inv_area assms(1) by (auto simp: area_inv_def)
  show ?thesis
  proof (cases r)
    case None
    with A assms show ?thesis by simp
  next
    case (Some p)
    with A(4) have S: "{p..<p + n} \<subseteq> free_set s" "free_set s' = free_set s - {p..<p + n}"
      "nr_free s' + n = nr_free s" by simp_all
    have h: "sorted_wrt (\<lambda>g h. region g \<inter> region h = {}) held" "0 < snd h" "region h \<inter> free_set s = {}"
      "\<And>p. p \<in> region h \<Longrightarrow> \<not> reserved (pages s p)" if "h \<in> set held" for h
      using assms(2) that by (auto simp: held_ok_def)
    have sw: "sorted_wrt (\<lambda>g h. region g \<inter> region h = {}) held" using assms(2) by (simp add: held_ok_def)
    have new: "region (p, n) \<subseteq> free_set s" "region (p, n) \<inter> free_set s' = {}"
      using S by (auto simp: region_def)
    then have "region (p, n) \<inter> region h = {}" "region h \<inter> free_set s' = {}" if "h \<in> set held" for h
      using h(3)[OF that] S(2) by blast+
    with sw new h unres assms(3) have "held_ok (s', (p, n) # held)"
      by (auto simp: held_ok_def A(3))
    with A(1,2) S(3) Some show ?thesis by simp
  qed
qed

lemma serve_release:
  assumes "ainv (fst st)" "held_ok st"
  shows "\<exists>st'. serve al fr (Release i) st = Some st' \<and> ainv (fst st') \<and> held_ok st' \<and>
    nr_free (fst st') + sum_list (map snd (snd st')) = nr_free (fst st) + sum_list (map snd (snd st))"
proof -
  obtain s held where [simp]: "st = (s, held)" by (cases st)
  show ?thesis
  proof (cases "i < length held")
    case True
    define g where "g = held ! i"
    let ?rest = "take i held @ drop (Suc i) held"
    have split: "held = take i held @ g # drop (Suc i) held" using True by (simp add: g_def id_take_nth_drop)
    from assms(2) True have g: "0 < snd g" "region g \<inter> free_set s = {}" "\<And>p. p \<in> region g \<Longrightarrow> \<not> reserved (pages s p)"
      by (auto simp: held_ok_def g_def)
    have dis: "region g \<inter> region h = {}" "h \<in> set held" if "h \<in> set ?rest" for h
    proof -
      from assms(2) have "sorted_wrt (\<lambda>g h. region g \<inter> region h = {}) (take i held @ g # drop (Suc i) held)"
        using split by (simp add: held_ok_def)
      with that show "region g \<inter> region h = {}" by (auto simp: sorted_wrt_append)
      from that show "h \<in> set held" by (auto dest: in_set_takeD in_set_dropD)
    qed
    have sw: "sorted_wrt (\<lambda>g h. region g \<inter> region h = {}) ?rest"
    proof -
      from assms(2) have "sorted_wrt (\<lambda>g h. region g \<inter> region h = {}) (take i held @ g # drop (Suc i) held)"
        using split by (simp add: held_ok_def)
      then show ?thesis by (simp add: sorted_wrt_append)
    qed
    have "\<forall>p. in_range (fst g) (snd g) p \<longrightarrow> p \<notin> free_set s \<and> \<not> reserved (pages s p)"
      using g(2,3) by (auto simp: region_def in_range_def)
    from free_ok[OF _ g(1) this] assms(1) obtain s' where F: "fr s (fst g) (snd g) = Some s'" "ainv s'"
      "free_set s' = free_set s \<union> region g" "nr_free s' = nr_free s + snd g"
      "\<And>p. reserved (pages s' p) = reserved (pages s p)"
      by (auto simp: region_def)
    have "0 < snd h \<and> region h \<inter> free_set s' = {} \<and> (\<forall>p \<in> region h. \<not> reserved (pages s' p))"
      if "h \<in> set ?rest" for h
    proof -
      have "0 < snd h" "region h \<inter> free_set s = {}" "\<forall>p \<in> region h. \<not> reserved (pages s p)"
        using assms(2) dis(2)[OF that] by (auto simp: held_ok_def)
      with dis(1)[OF that] show ?thesis unfolding F(3,5) by blast
    qed
    with sw have "held_ok (s', ?rest)" by (simp add: held_ok_def)
    moreover have "sum_list (map snd held) = snd g + sum_list (map snd ?rest)"
      by (subst split) simp
    ultimately show ?thesis using True F by (simp flip: g_def)
  qed (use assms in simp)
qed

lemma serve_all_ok:
  assumes "ainv (fst st)" "held_ok st" "\<forall>n. Request n \<in> set rs \<longrightarrow> 0 < n"
  shows "\<exists>st'. serve_all al fr rs st = Some st' \<and> ainv (fst st') \<and> held_ok st' \<and>
    nr_free (fst st') + sum_list (map snd (snd st')) = nr_free (fst st) + sum_list (map snd (snd st))"
  using assms
proof (induction rs arbitrary: st)
  case (Cons r rs)
  have "\<exists>st'. serve al fr r st = Some st' \<and> ainv (fst st') \<and> held_ok st' \<and>
    nr_free (fst st') + sum_list (map snd (snd st')) = nr_free (fst st) + sum_list (map snd (snd st))"
    using Cons.prems serve_request serve_release by (cases r) auto
  then obtain st1 where "serve al fr r st = Some st1" "ainv (fst st1)" "held_ok st1"
    "nr_free (fst st1) + sum_list (map snd (snd st1)) = nr_free (fst st) + sum_list (map snd (snd st))" by blast
  with Cons.IH[of st1] Cons.prems(3) show ?case by auto
qed simp

end

subsection \<open>First fit keeps the list in address order\<close>

definition firstfit_inv :: "free_area \<Rightarrow> bool" where
  "firstfit_inv s \<longleftrightarrow> area_inv s \<and> sorted (free_list s)"

lemma firstfit_alloc_sorted:
  assumes inv: "firstfit_inv s" and al: "firstfit_alloc_pages s n = Some (r, s')" and n: "0 < n"
  shows "sorted (free_list s')"
proof (cases "r")
  case None
  with al inv show ?thesis
    by (auto simp: firstfit_alloc_pages_def firstfit_inv_def Let_def split: if_splits option.splits)
next
  case (Some p)
  with al have p: "first_block s n = Some p"
    and L': "free_list s' = (if sz s p > n then remove1 p (insert_after p (p + n) (free_list s))
      else remove1 p (free_list s))"
    by (auto simp: firstfit_alloc_pages_def Let_def split: if_splits option.splits)
  note P = first_block_Some[OF p]
  obtain xs ys where L: "free_list s = xs @ p # ys" using split_list[OF P(1)] by blast
  from inv have d: "distinct (xs @ p # ys)" "sorted (xs @ p # ys)" "apart (sz s) (set (xs @ p # ys))"
    by (simp_all add: firstfit_inv_def area_inv_def L)
  have far: "p + n \<le> q" if "q \<in> set ys" for q
  proof -
    have "p < q" using d(1,2) that by (auto simp: sorted_append nat_less_le)
    then show ?thesis using d(3) that P(2) by (auto simp: apart_def)
  qed
  have "remove1 p (insert_after p (p + n) (free_list s)) = xs @ (p + n) # ys"
    using d(1) by (simp add: L insert_after_split remove1_append)
  moreover have "remove1 p (free_list s) = xs @ ys" using d(1) by (simp add: L remove1_append)
  ultimately show ?thesis using d(2) far by (auto simp: L' sorted_append intro: le_add1 order.trans)
qed

interpretation ff: page_allocator firstfit_alloc_pages firstfit_free_pages firstfit_inv
proof
  fix s :: free_area and n b :: nat
  show "\<exists>r s'. firstfit_alloc_pages s n = Some (r, s') \<and> firstfit_inv s' \<and>
      (\<forall>q. reserved (pages s' q) = reserved (pages s q)) \<and>
      (case r of None \<Rightarrow> s' = s \<and> (\<forall>p \<in> set (free_list s). sz s p < n)
       | Some p \<Rightarrow> {p..<p + n} \<subseteq> free_set s \<and> free_set s' = free_set s - {p..<p + n} \<and> nr_free s' + n = nr_free s)"
    if "firstfit_inv s" "0 < n"
    using firstfit_alloc_ok[of s n] firstfit_alloc_sorted[OF that(1) _ that(2)] that
    unfolding firstfit_inv_def by blast
  show "\<exists>s'. firstfit_free_pages s b n = Some s' \<and> firstfit_inv s' \<and> free_set s' = free_set s \<union> {b..<b + n} \<and>
        nr_free s' = nr_free s + n \<and> (\<forall>p. reserved (pages s' p) = reserved (pages s p))"
    if "firstfit_inv s" "0 < n" "\<forall>p. in_range b n p \<longrightarrow> p \<notin> free_set s \<and> \<not> reserved (pages s p)"
    using free_pages_ok[of s n b] that unfolding firstfit_inv_def by blast
qed (simp add: firstfit_inv_def)

interpretation bf: page_allocator best_alloc_pages best_free_pages area_inv
proof
  fix s :: free_area and n b :: nat
  show "\<exists>s'. best_free_pages s b n = Some s' \<and> area_inv s' \<and> free_set s' = free_set s \<union> {b..<b + n} \<and>
        nr_free s' = nr_free s + n \<and> (\<forall>p. reserved (pages s' p) = reserved (pages s p))"
    if "area_inv s" "0 < n" "\<forall>p. in_range b n p \<longrightarrow> p \<notin> free_set s \<and> \<not> reserved (pages s p)"
    using free_pages_ok[OF that] unfolding best_free_pages_def by blast
qed (use best_alloc_ok in blast)+

subsection \<open>The free set determines the blocks\<close>

lemma block_starts:
  assumes "area_inv s"
  shows "set (free_list s) = {p \<in> free_set s. p = 0 \<or> p - 1 \<notin> free_set s}"
proof -
  have ap: "0 < sz s p" "p < q \<Longrightarrow> p + sz s p < q" if "p \<in> set (free_list s)" "q \<in> set (free_list s)" for p q
    using assms that by (auto simp: area_inv_def apart_def)
  have "p - 1 \<notin> free_set s" if p: "p \<in> set (free_list s)" "p \<noteq> 0" for p
  proof
    assume "p - 1 \<in> free_set s"
    then obtain q where q: "q \<in> set (free_list s)" "q \<le> p - 1" "p - 1 < q + sz s q"
      by (auto simp: free_set_def block_def)
    then have "q < p" using p(2) by simp
    then have "q + sz s q < p" using ap(2)[OF q(1) p(1)] by simp
    with q(3) show False by simp
  qed
  moreover have "p \<in> free_set s" if "p \<in> set (free_list s)" for p
    using free_setI[OF that] ap(1)[OF that that] by simp
  moreover have "p \<in> set (free_list s)" if "p \<in> free_set s" "p = 0 \<or> p - 1 \<notin> free_set s" for p
  proof -
    from that(1) obtain q where q: "q \<in> set (free_list s)" "q \<le> p" "p < q + sz s q"
      by (auto simp: free_set_def block_def)
    have "q = p"
    proof (rule ccontr)
      assume "q \<noteq> p"
      with q(2,3) have "q \<le> p - 1" "p - 1 < q + sz s q" "p \<noteq> 0" by linarith+
      with free_setI[OF q(1)] that(2) show False by blast
    qed
    with q show ?thesis by simp
  qed
  ultimately show ?thesis by blast
qed

lemma block_end:
  assumes "area_inv s" "p \<in> set (free_list s)"
  shows "p + sz s p \<notin> free_set s"
proof
  assume "p + sz s p \<in> free_set s"
  then obtain q where q: "q \<in> set (free_list s)" "q \<le> p + sz s p" "p + sz s p < q + sz s q"
    by (auto simp: free_set_def block_def)
  have F: "0 < sz s p" "p < q \<Longrightarrow> p + sz s p < q" "q < p \<Longrightarrow> q + sz s q < p"
    if "q \<in> set (free_list s)" for q using assms that by (auto simp: area_inv_def apart_def)
  consider "q = p" | "p < q" | "q < p" by linarith
  then show False
  proof cases
    case 2
    with F(2)[OF q(1)] q(2) show False by simp
  next
    case 3
    with F(3)[OF q(1)] q(3) show False by simp
  qed (use q(3) in simp)
qed

lemma free_set_determines:
  assumes "area_inv s" "area_inv s'" "free_set s' = free_set s"
  shows "set (free_list s') = set (free_list s)" "p \<in> set (free_list s) \<Longrightarrow> sz s' p = sz s p"
proof -
  show e: "set (free_list s') = set (free_list s)" using block_starts assms by simp
  assume p: "p \<in> set (free_list s)"
  then have "p + sz s p \<notin> free_set s" "p + sz s' p \<notin> free_set s"
    using block_end[OF assms(1) p] block_end[OF assms(2), of p] assms(3) e by simp_all
  moreover have "p + k \<in> free_set s" if "k < sz s p \<or> k < sz s' p" for k
    using that free_setI[of p s "p + k"] free_setI[of p s' "p + k"] p e assms(3) by auto
  ultimately show "sz s' p = sz s p" by (metis nat_neq_iff)
qed

lemma firstfit_alloc_free:
  assumes "firstfit_inv s" "0 < n" "firstfit_alloc_pages s n = Some (Some p, s1)"
  shows "\<exists>s2. firstfit_free_pages s1 p n = Some s2 \<and> free_list s2 = free_list s \<and> nr_free s2 = nr_free s \<and>
    (\<forall>q \<in> set (free_list s). sz s2 q = sz s q)"
proof -
  from ff.alloc_ok[OF assms(1,2)] assms(3) have A: "firstfit_inv s1" "{p..<p + n} \<subseteq> free_set s"
    "free_set s1 = free_set s - {p..<p + n}" "nr_free s1 + n = nr_free s"
    "\<And>q. reserved (pages s1 q) = reserved (pages s q)" by auto
  have "\<forall>q. in_range p n q \<longrightarrow> q \<notin> free_set s1 \<and> \<not> reserved (pages s1 q)"
    using A(2,3,5) assms(1) by (auto simp: in_range_def firstfit_inv_def area_inv_def)
  from ff.free_ok[OF A(1) assms(2) this] obtain s2 where F: "firstfit_free_pages s1 p n = Some s2"
    "firstfit_inv s2" "free_set s2 = free_set s" "nr_free s2 = nr_free s" using A(2,3,4) by auto
  have ai: "area_inv s" "area_inv s2" using assms(1) F(2) by (simp_all add: firstfit_inv_def)
  note D = free_set_determines[OF ai F(3)]
  have "free_list s2 = free_list s"
    using D(1) assms(1) F(2) by (intro sorted_distinct_set_unique) (simp_all add: firstfit_inv_def area_inv_def)
  with F D(2) show ?thesis by auto
qed

lemma init_memmap_ok:
  assumes inv: "firstfit_inv s" and n: "0 < n" and res: "\<forall>p. in_range base n p \<longrightarrow> reserved (pages s p)"
    and after: "\<forall>p \<in> set (free_list s). p + sz s p < base"
  shows "\<exists>s'. firstfit_init_memmap s base n = Some s' \<and> firstfit_inv s' \<and>
    free_set s' = free_set s \<union> {base..<base + n} \<and> nr_free s' = nr_free s + n"
proof -
  let ?s0 = "s\<lparr>pages := (\<lambda>p. if in_range base n p then (pages s p)\<lparr>reserved := False,
     has_property := False, property := 0, ref := 0\<rparr> else pages s p)\<rparr>"
  let ?s1 = "upd_page base (\<lambda>q. q\<lparr>property := n, has_property := True\<rparr>) ?s0"
  define s' where "s' = ?s1\<lparr>nr_free := nr_free s + n, free_list := free_list s @ [base]\<rparr>"
  have e: "firstfit_init_memmap s base n = Some s'"
    using n res by (simp add: firstfit_init_memmap_def Let_def in_range_def s'_def)
  from inv have I: "distinct (free_list s)" "apart (sz s) (set (free_list s))" "sorted (free_list s)"
    "\<And>p. has_property (pages s p) \<longleftrightarrow> p \<in> set (free_list s)"
    "\<And>p. p \<in> free_set s \<Longrightarrow> \<not> reserved (pages s p)" "nr_free s = (\<Sum>p\<leftarrow>free_list s. sz s p)"
    by (auto simp: firstfit_inv_def area_inv_def)
  have lt: "p < base" "\<not> in_range base n p" if "p \<in> set (free_list s)" for p
    using after that by (auto simp: in_range_def)
  have new: "free_list s' = free_list s @ [base]" "nr_free s' = nr_free s + n" "sz s' base = n"
    "\<And>p. p \<in> set (free_list s) \<Longrightarrow> sz s' p = sz s p"
    "\<And>p. has_property (pages s' p) \<longleftrightarrow> p = base \<or> \<not> in_range base n p \<and> has_property (pages s p)"
    "\<And>p. reserved (pages s' p) \<longleftrightarrow> \<not> in_range base n p \<and> reserved (pages s p)"
    using n lt by (auto simp: s'_def in_range_def)
  have fs: "free_set s' = free_set s \<union> {base..<base + n}"
    using new(1,3,4) by (auto simp: free_set_def block_def)
  have "apart (sz s') (set (free_list s'))"
    using I(2) n after new(1,3,4) lt by (auto simp: apart_def)
  moreover have "(\<Sum>p\<leftarrow>free_list s'. sz s' p) = nr_free s'"
    using new(1-4) I(6) sum_list_map_cong[of "free_list s" "sz s'" "sz s"] by simp
  moreover have "distinct (free_list s')" "sorted (free_list s')"
    using I(1,3) lt new(1) by (auto simp: sorted_append less_imp_le)
  moreover have "\<forall>p. has_property (pages s' p) \<longleftrightarrow> p \<in> set (free_list s')" using new(1,5) I(4) lt by auto
  moreover have "\<forall>p \<in> free_set s'. \<not> reserved (pages s' p)"
    unfolding fs using I(5) new(6) by (auto simp: in_range_def)
  ultimately show ?thesis using e fs new(2) by (simp add: firstfit_inv_def area_inv_def)
qed

subsection \<open>Properties\<close>

text \<open>Memory before \<^verbatim>\<open>page_init\<close> releases any of it: every page is reserved.\<close>

definition reserved_memory :: free_area where
  "reserved_memory = \<lparr>pages = (\<lambda>_. \<lparr>ref = 0, reserved = True, has_property = False, property = 0, zone_num = 0\<rparr>),
     free_list = [], nr_free = 0\<rparr>"

lemma reserved_memory_ok [simp]:
  "firstfit_inv reserved_memory" "free_list reserved_memory = []" "reserved (pages reserved_memory p)"
  "nr_free reserved_memory = 0" "free_set reserved_memory = {}"
  by (simp_all add: reserved_memory_def firstfit_inv_def area_inv_def apart_def free_set_def)

text \<open>
  C13. First fit hands out disjoint memory, for any sequence of requests and releases: no call panics,
  the regions held at any time are pairwise disjoint and disjoint from the free pages, and free
  and held pages always add up to the same number.
\<close>

theorem firstfit_no_overlap:
  assumes "firstfit_inv (fst st)" "held_ok st" "\<forall>n. Request n \<in> set rs \<longrightarrow> 0 < n"
  shows "\<exists>st'. serve_all firstfit_alloc_pages firstfit_free_pages rs st = Some st' \<and>
    firstfit_inv (fst st') \<and> held_ok st' \<and>
    nr_free (fst st') + sum_list (map snd (snd st')) = nr_free (fst st) + sum_list (map snd (snd st))"
  using ff.serve_all_ok[OF assms] .

theorem firstfit_no_overlap_witness:
  "\<exists>s st'. firstfit_init_memmap reserved_memory 4 16 = Some s \<and>
     serve_all firstfit_alloc_pages firstfit_free_pages [Request 3, Request 5, Release 1, Request 2] (s, []) = Some st' \<and>
     held_ok st'"
proof -
  obtain s where s: "firstfit_init_memmap reserved_memory 4 16 = Some s" "firstfit_inv s"
    using init_memmap_ok[of reserved_memory 16 4] by auto
  moreover have "held_ok (s, [])" by (simp add: held_ok_def)
  moreover have "\<forall>n. Request n \<in> set [Request 3, Request 5, Release 1, Request 2] \<longrightarrow> 0 < n" by auto
  ultimately obtain st' where "held_ok st'"
    "serve_all firstfit_alloc_pages firstfit_free_pages [Request 3, Request 5, Release 1, Request 2] (s, []) = Some st'"
    using firstfit_no_overlap[of "(s, [])" "[Request 3, Request 5, Release 1, Request 2]"]
    unfolding fst_conv by blast
  with s(1) show ?thesis by blast
qed

text \<open>
  C14. Best fit hands out disjoint memory in the same sense, although it does not keep its list in
  address order.
\<close>

theorem bestfit_no_overlap:
  assumes "area_inv (fst st)" "held_ok st" "\<forall>n. Request n \<in> set rs \<longrightarrow> 0 < n"
  shows "\<exists>st'. serve_all best_alloc_pages best_free_pages rs st = Some st' \<and>
    area_inv (fst st') \<and> held_ok st' \<and>
    nr_free (fst st') + sum_list (map snd (snd st')) = nr_free (fst st) + sum_list (map snd (snd st))"
  using bf.serve_all_ok[OF assms] .

theorem bestfit_no_overlap_witness:
  "\<exists>s st'. best_init_memmap reserved_memory 4 16 = Some s \<and>
     serve_all best_alloc_pages best_free_pages [Request 3, Request 5, Release 1, Request 2] (s, []) = Some st' \<and>
     held_ok st'"
proof -
  obtain s where s: "best_init_memmap reserved_memory 4 16 = Some s" "area_inv s"
    using init_memmap_ok[of reserved_memory 16 4] ff.inv_area by (auto simp: best_init_memmap_def)
  moreover have "held_ok (s, [])" by (simp add: held_ok_def)
  moreover have "\<forall>n. Request n \<in> set [Request 3, Request 5, Release 1, Request 2] \<longrightarrow> 0 < n" by auto
  ultimately obtain st' where "held_ok st'"
    "serve_all best_alloc_pages best_free_pages [Request 3, Request 5, Release 1, Request 2] (s, []) = Some st'"
    using bestfit_no_overlap[of "(s, [])" "[Request 3, Request 5, Release 1, Request 2]"]
    unfolding fst_conv by blast
  with s(1) show ?thesis by blast
qed

text \<open>
  C15. Releasing what first fit has just handed out restores the allocator exactly: the same list of
  blocks with the same sizes, and the same count, so splitting and merging are inverse.
\<close>

theorem firstfit_roundtrip:
  assumes "firstfit_inv s" "0 < n" "firstfit_alloc_pages s n = Some (Some p, s1)"
  shows "\<exists>s2. firstfit_free_pages s1 p n = Some s2 \<and> free_list s2 = free_list s \<and> nr_free s2 = nr_free s \<and>
    (\<forall>q \<in> set (free_list s). property (pages s2 q) = property (pages s q))"
  using firstfit_alloc_free[OF assms] .

theorem firstfit_roundtrip_witness:
  "\<exists>s s1 s2. firstfit_init_memmap reserved_memory 4 16 = Some s \<and>
     firstfit_alloc_pages s 3 = Some (Some 4, s1) \<and> firstfit_free_pages s1 4 3 = Some s2 \<and>
     free_list s2 = free_list s"
proof -
  obtain s where s: "firstfit_init_memmap reserved_memory 4 16 = Some s" "firstfit_inv s"
    using init_memmap_ok[of reserved_memory 16 4] by auto
  have "free_list s = [4]" "nr_free s = 16" "property (pages s 4) = 16"
    using s(1) by (auto simp: firstfit_init_memmap_def Let_def split: if_splits)
  then obtain s1 where "firstfit_alloc_pages s 3 = Some (Some 4, s1)"
    by (simp add: firstfit_alloc_pages_def first_block_def Let_def)
  with s firstfit_roundtrip[of s 3 4 s1] show ?thesis by auto
qed



end
