(* ===== verification/Pgtable.thy ===== *)
theory Pgtable
  imports Pmm_Area
begin

text \<open>
  The two-level page tables of \<^verbatim>\<open>kern/mm/pmm.c\<close> on top of the first-fit page allocator, which is the
  one \<^verbatim>\<open>init_pmm_manager\<close> installs. A page is named by its number; the state adds to the allocator's
  the words of every frame, so that page directories and page tables are ordinary frames which the
  routines read and write through their entries. The abstract view of a set of page directories is
  the function \<open>pte\<close> from slots (directory, directory index, table index) to entries; every routine
  is shown to be an update of that function which keeps reference counts equal to the number of
  slots that map a page, and which never touches a frame in use for something else.
\<close>

unbundle bit_operations_syntax

definition PTE_P :: u32 where "PTE_P = 1"
definition PTE_W :: u32 where "PTE_W = 2"
definition PTE_U :: u32 where "PTE_U = 4"
definition PTE_USER :: u32 where "PTE_USER = PTE_U OR PTE_W OR PTE_P"
definition PGSIZE :: u32 where "PGSIZE = 4096"
definition PTSIZE :: u32 where "PTSIZE = PGSIZE * 1024"
definition USERBASE :: u32 where "USERBASE = 0x00200000"
definition USERTOP :: u32 where "USERTOP = 0xB0000000"
definition KERNBASE :: u32 where "KERNBASE = 0xC0000000"
definition KMEMSIZE :: u32 where "KMEMSIZE = 0x38000000"
definition KERNTOP :: u32 where "KERNTOP = KERNBASE + KMEMSIZE"

lemmas mmu_defs = PTE_P_def PTE_W_def PTE_U_def PTE_USER_def PGSIZE_def PTSIZE_def USERBASE_def USERTOP_def
  KERNBASE_def KMEMSIZE_def KERNTOP_def

definition PDX :: "u32 \<Rightarrow> nat" where "PDX la = unat (drop_bit 22 la AND 0x3FF)"
definition PTX :: "u32 \<Rightarrow> nat" where "PTX la = unat (drop_bit 12 la AND 0x3FF)"
definition PPN :: "u32 \<Rightarrow> nat" where "PPN la = unat (drop_bit 12 la)"
definition PTE_ADDR :: "u32 \<Rightarrow> u32" where "PTE_ADDR w = w AND NOT 0xFFF"

definition ROUNDDOWN :: "u32 \<Rightarrow> u32 \<Rightarrow> u32" where "ROUNDDOWN a n = a - a mod n"
definition ROUNDUP :: "u32 \<Rightarrow> u32 \<Rightarrow> u32" where "ROUNDUP a n = ROUNDDOWN (a + n - 1) n"

definition USER_ACCESS :: "u32 \<Rightarrow> u32 \<Rightarrow> bool" where
  "USER_ACCESS a b \<longleftrightarrow> USERBASE \<le> a \<and> a < b \<and> b \<le> USERTOP"

definition KERN_ACCESS :: "u32 \<Rightarrow> u32 \<Rightarrow> bool" where
  "KERN_ACCESS a b \<longleftrightarrow> KERNBASE \<le> a \<and> a < b \<and> b \<le> KERNTOP"

subsection \<open>Memory\<close>

record pgmem =
  area :: free_area
  frame :: "nat \<Rightarrow> nat \<Rightarrow> u32"
  npage :: nat
  swap_init_ok :: bool

definition page2pa :: "nat \<Rightarrow> u32" where "page2pa p = push_bit 12 (of_nat p)"

definition pa2page :: "u32 \<Rightarrow> pgmem \<Rightarrow> nat option" where
  "pa2page pa s = (if PPN pa \<ge> npage s then None else Some (PPN pa))"

definition present :: "u32 \<Rightarrow> bool" where "present w \<longleftrightarrow> w AND PTE_P \<noteq> 0"

definition pte2page :: "u32 \<Rightarrow> pgmem \<Rightarrow> nat option" where
  "pte2page w s = (if \<not> present w then None else pa2page (PTE_ADDR w) s)"

definition pde2page :: "u32 \<Rightarrow> pgmem \<Rightarrow> nat option" where
  "pde2page w s = pa2page (PTE_ADDR w) s"

text \<open>\<^verbatim>\<open>KADDR\<close> as the frame it makes accessible.\<close>

definition kaddr_frame :: "u32 \<Rightarrow> pgmem \<Rightarrow> nat option" where
  "kaddr_frame pa s = (if PPN pa \<ge> npage s then None else Some (PPN pa))"

definition page_ref :: "nat \<Rightarrow> pgmem \<Rightarrow> int" where "page_ref p s = ref (pages (area s) p)"

definition set_page_ref :: "nat \<Rightarrow> int \<Rightarrow> pgmem \<Rightarrow> pgmem" where
  "set_page_ref p v s = s\<lparr>area := upd_page p (\<lambda>q. q\<lparr>ref := v\<rparr>) (area s)\<rparr>"

definition page_ref_inc :: "nat \<Rightarrow> pgmem \<Rightarrow> int \<times> pgmem" where
  "page_ref_inc p s = (page_ref p s + 1, set_page_ref p (page_ref p s + 1) s)"

definition page_ref_dec :: "nat \<Rightarrow> pgmem \<Rightarrow> int \<times> pgmem" where
  "page_ref_dec p s = (page_ref p s - 1, set_page_ref p (page_ref p s - 1) s)"

definition set_word :: "nat \<Rightarrow> nat \<Rightarrow> u32 \<Rightarrow> pgmem \<Rightarrow> pgmem" where
  "set_word f i w s = s\<lparr>frame := (frame s)(f := (frame s f)(i := w))\<rparr>"

definition set_frame :: "nat \<Rightarrow> (nat \<Rightarrow> u32) \<Rightarrow> pgmem \<Rightarrow> pgmem" where
  "set_frame f ws s = s\<lparr>frame := (frame s)(f := ws)\<rparr>"

subsection \<open>Pages\<close>

text \<open>
  A request for one page that fails while swapping is on calls \<^verbatim>\<open>swap_out(check_mm_struct, ...)\<close>; outside
  the self tests that run at boot \<^verbatim>\<open>check_mm_struct\<close> is null, and the swap manager reads through it.
\<close>

definition alloc_pages :: "nat \<Rightarrow> pgmem \<Rightarrow> (nat option \<times> pgmem) option" where
  "alloc_pages n s = do {
     (r, a) \<leftarrow> firstfit_alloc_pages (area s) n;
     if r \<noteq> None \<or> n > 1 \<or> \<not> swap_init_ok s then Some (r, s\<lparr>area := a\<rparr>) else kpanic }"

definition free_pages :: "nat \<Rightarrow> nat \<Rightarrow> pgmem \<Rightarrow> pgmem option" where
  "free_pages base n s = map_option (\<lambda>a. s\<lparr>area := a\<rparr>) (firstfit_free_pages (area s) base n)"

definition nr_free_pages :: "pgmem \<Rightarrow> nat" where
  "nr_free_pages s = firstfit_nr_free_pages (area s)"

subsection \<open>Page tables\<close>

text \<open>A pointer to an entry is the frame of its table and its index; \<open>d\<close> is the frame of the directory.\<close>

definition get_pte :: "nat \<Rightarrow> u32 \<Rightarrow> bool \<Rightarrow> pgmem \<Rightarrow> ((nat \<times> nat) option \<times> pgmem) option" where
  "get_pte d la create s = do {
     (ok, s) \<leftarrow>
       (if \<not> present (frame s d (PDX la)) then
          (if \<not> create then Some (False, s)
           else do {
             (r, s) \<leftarrow> alloc_pages 1 s;
             (case r of None \<Rightarrow> Some (False, s)
              | Some p \<Rightarrow> do {
                  let s = set_page_ref p 1 s;
                  let pa = page2pa p;
                  f \<leftarrow> kaddr_frame pa s;
                  let s = set_frame f (\<lambda>_. 0) s;
                  Some (True, set_word d (PDX la) (pa OR PTE_U OR PTE_W OR PTE_P) s) }) })
        else Some (True, s));
     if \<not> ok then Some (None, s)
     else do {
       t \<leftarrow> kaddr_frame (PTE_ADDR (frame s d (PDX la))) s;
       Some (Some (t, PTX la), s) } }"

definition get_page :: "nat \<Rightarrow> u32 \<Rightarrow> pgmem \<Rightarrow> (nat option \<times> pgmem) option" where
  "get_page d la s = do {
     (ptep, s) \<leftarrow> get_pte d la False s;
     (case ptep of
        Some (t, j) \<Rightarrow> if present (frame s t j) then map_option (\<lambda>p. (Some p, s)) (pte2page (frame s t j) s)
                       else Some (None, s)
      | None \<Rightarrow> Some (None, s)) }"

definition page_remove_pte :: "nat \<times> nat \<Rightarrow> pgmem \<Rightarrow> pgmem option" where
  "page_remove_pte ptep s =
     (let (t, j) = ptep in
      if present (frame s t j) then do {
        page \<leftarrow> pte2page (frame s t j) s;
        let (n, s) = page_ref_dec page s;
        s \<leftarrow> (if n = 0 then free_pages page 1 s else Some s);
        Some (set_word t j 0 s) }
      else Some s)"

definition page_remove :: "nat \<Rightarrow> u32 \<Rightarrow> pgmem \<Rightarrow> pgmem option" where
  "page_remove d la s = do {
     (ptep, s) \<leftarrow> get_pte d la False s;
     (case ptep of None \<Rightarrow> Some s | Some e \<Rightarrow> page_remove_pte e s) }"

definition page_insert :: "nat \<Rightarrow> nat \<Rightarrow> u32 \<Rightarrow> u32 \<Rightarrow> pgmem \<Rightarrow> (int \<times> pgmem) option" where
  "page_insert d page la perm s = do {
     (ptep, s) \<leftarrow> get_pte d la True s;
     (case ptep of
        None \<Rightarrow> Some (- E_NO_MEM, s)
      | Some (t, j) \<Rightarrow> do {
          let (_, s) = page_ref_inc page s;
          s \<leftarrow> (if present (frame s t j) then do {
                  p \<leftarrow> pte2page (frame s t j) s;
                  if p = page then Some (snd (page_ref_dec page s)) else page_remove_pte (t, j) s }
                else Some s);
          Some (0, set_word t j (page2pa page OR PTE_P OR perm) s) }) }"

text \<open>The swap manager's part of \<^verbatim>\<open>pgdir_alloc_page\<close> runs during the boot-time self tests only.\<close>

definition pgdir_alloc_page :: "nat \<Rightarrow> u32 \<Rightarrow> u32 \<Rightarrow> pgmem \<Rightarrow> (nat option \<times> pgmem) option" where
  "pgdir_alloc_page d la perm s = do {
     (r, s) \<leftarrow> alloc_pages 1 s;
     (case r of None \<Rightarrow> Some (None, s)
      | Some page \<Rightarrow> do {
          (ret, s) \<leftarrow> page_insert d page la perm s;
          if ret \<noteq> 0 then do { s \<leftarrow> free_pages page 1 s; Some (None, s) }
          else Some (Some page, s) }) }"

subsection \<open>Ranges\<close>

partial_function (option) unmap_loop :: "nat \<Rightarrow> u32 \<Rightarrow> u32 \<Rightarrow> pgmem \<Rightarrow> pgmem option" where
  "unmap_loop d a b s = do {
     (ptep, s) \<leftarrow> get_pte d a False s;
     (a, s) \<leftarrow> (case ptep of
        None \<Rightarrow> Some (ROUNDDOWN (a + PTSIZE) PTSIZE, s)
      | Some (t, j) \<Rightarrow> do {
          s \<leftarrow> (if frame s t j \<noteq> 0 then page_remove_pte (t, j) s else Some s);
          Some (a + PGSIZE, s) });
     if a \<noteq> 0 \<and> a < b then unmap_loop d a b s else Some s }"

definition unmap_range :: "nat \<Rightarrow> u32 \<Rightarrow> u32 \<Rightarrow> pgmem \<Rightarrow> pgmem option" where
  "unmap_range d a b s = do {
     kassert (a mod PGSIZE = 0 \<and> b mod PGSIZE = 0);
     kassert (USER_ACCESS a b);
     unmap_loop d a b s }"

partial_function (option) exit_loop :: "nat \<Rightarrow> u32 \<Rightarrow> u32 \<Rightarrow> pgmem \<Rightarrow> pgmem option" where
  "exit_loop d a b s = do {
     let i = PDX a;
     s \<leftarrow> (if present (frame s d i) then do {
             p \<leftarrow> pde2page (frame s d i) s;
             s \<leftarrow> free_pages p 1 s;
             Some (set_word d i 0 s) }
           else Some s);
     let a = a + PTSIZE;
     if a \<noteq> 0 \<and> a < b then exit_loop d a b s else Some s }"

definition exit_range :: "nat \<Rightarrow> u32 \<Rightarrow> u32 \<Rightarrow> pgmem \<Rightarrow> pgmem option" where
  "exit_range d a b s = do {
     kassert (a mod PGSIZE = 0 \<and> b mod PGSIZE = 0);
     kassert (USER_ACCESS a b);
     exit_loop d (ROUNDDOWN a PTSIZE) b s }"

text \<open>The body of the loop for an entry that is present: \<open>(t, j)\<close> is the entry of the source, \<open>a\<close> its address.\<close>

definition copy_page :: "nat \<Rightarrow> nat \<times> nat \<Rightarrow> u32 \<Rightarrow> pgmem \<Rightarrow> (int \<times> pgmem) option" where
  "copy_page to ptep a s = do {
     let (t, j) = ptep;
     (nptep, s) \<leftarrow> get_pte to a True s;
     if nptep = None then Some (- E_NO_MEM, s)
     else do {
       let perm = frame s t j AND PTE_USER;
       page \<leftarrow> pte2page (frame s t j) s;
       (np, s) \<leftarrow> alloc_pages 1 s;
       npage \<leftarrow> np;
       src_f \<leftarrow> kaddr_frame (page2pa page) s;
       dst_f \<leftarrow> kaddr_frame (page2pa npage) s;
       let s = set_frame dst_f (frame s src_f) s;
       (ret, s) \<leftarrow> page_insert to npage a perm s;
       kassert (ret = 0);
       Some (0, s) } }"

partial_function (option) copy_loop :: "nat \<Rightarrow> nat \<Rightarrow> u32 \<Rightarrow> u32 \<Rightarrow> pgmem \<Rightarrow> (int \<times> pgmem) option" where
  "copy_loop to src a b s = do {
     (ptep, s) \<leftarrow> get_pte src a False s;
     (case ptep of
        None \<Rightarrow> (let a = ROUNDDOWN (a + PTSIZE) PTSIZE in
                 if a \<noteq> 0 \<and> a < b then copy_loop to src a b s else Some (0, s))
      | Some (t, j) \<Rightarrow> do {
          (r, s) \<leftarrow> (if present (frame s t j) then copy_page to (t, j) a s else Some (0, s));
          if r \<noteq> 0 then Some (r, s)
          else (let a = a + PGSIZE in
                if a \<noteq> 0 \<and> a < b then copy_loop to src a b s else Some (0, s)) }) }"

definition copy_range :: "nat \<Rightarrow> nat \<Rightarrow> u32 \<Rightarrow> u32 \<Rightarrow> pgmem \<Rightarrow> (int \<times> pgmem) option" where
  "copy_range to src a b s = do {
     kassert (a mod PGSIZE = 0 \<and> b mod PGSIZE = 0);
     kassert (USER_ACCESS a b);
     copy_loop to src a b s }"

definition boot_map_step :: "nat \<Rightarrow> u32 \<Rightarrow> u32 \<Rightarrow> u32 \<Rightarrow> pgmem \<Rightarrow> pgmem option" where
  "boot_map_step d la pa perm s = do {
     (ptep, s) \<leftarrow> get_pte d la True s;
     (t, j) \<leftarrow> ptep;
     Some (set_word t j (pa OR PTE_P OR perm) s) }"

fun boot_map_loop :: "nat \<Rightarrow> nat \<Rightarrow> u32 \<Rightarrow> u32 \<Rightarrow> u32 \<Rightarrow> pgmem \<Rightarrow> pgmem option" where
  "boot_map_loop 0 d la pa perm s = Some s"
| "boot_map_loop (Suc n) d la pa perm s = do {
     s \<leftarrow> boot_map_step d la pa perm s;
     boot_map_loop n d (la + PGSIZE) (pa + PGSIZE) perm s }"

definition boot_map_segment :: "nat \<Rightarrow> u32 \<Rightarrow> u32 \<Rightarrow> u32 \<Rightarrow> u32 \<Rightarrow> pgmem \<Rightarrow> pgmem option" where
  "boot_map_segment d la len pa perm s = do {
     kassert (la AND 0xFFF = pa AND 0xFFF);
     let n = ROUNDUP (len + (la AND 0xFFF)) PGSIZE div PGSIZE;
     boot_map_loop (unat n) d (ROUNDDOWN la PGSIZE) (ROUNDDOWN pa PGSIZE) perm s }"

subsection \<open>Listing\<close>

text \<open>\<^verbatim>\<open>get_pgtable_items\<close>: the next run of present entries with equal permissions, as (perm, left, right).\<close>

definition get_pgtable_items :: "nat \<Rightarrow> nat \<Rightarrow> (nat \<Rightarrow> u32) \<Rightarrow> (u32 \<times> nat \<times> nat) option" where
  "get_pgtable_items right start tbl =
     (if start \<ge> right then None
      else case find (\<lambda>i. present (tbl i)) [start..<right] of None \<Rightarrow> None
        | Some l \<Rightarrow>
            (let perm = tbl l AND PTE_USER
             in Some (perm, l, Suc l + length (takeWhile (\<lambda>i. tbl i AND PTE_USER = perm) [Suc l..<right]))))"

definition perm2str :: "u32 \<Rightarrow> string" where
  "perm2str perm = [if perm AND PTE_U \<noteq> 0 then CHR ''u'' else CHR ''-'', CHR ''r'',
     if perm AND PTE_W \<noteq> 0 then CHR ''w'' else CHR ''-'']"

subsection \<open>Words\<close>

lemma present_bit: "present w \<longleftrightarrow> bit w 0"
proof -
  have "w AND 1 = take_bit 1 w" by (simp add: take_bit_eq_mask mask_eq_exp_minus_1)
  then show ?thesis by (simp add: present_def PTE_P_def take_bit_Suc_from_most bit_0 flip: odd_iff_mod_2_eq_one)
qed

lemma mask12: "(0xFFF :: u32) = mask 12"
  by (simp add: mask_eq_exp_minus_1)

lemma mask10: "(0x3FF :: u32) = mask 10"
  by (simp add: mask_eq_exp_minus_1)

lemma PPN_PTE_ADDR [simp]: "PPN (PTE_ADDR w) = PPN w"
proof -
  have "drop_bit 12 (w AND NOT (mask 12)) = drop_bit 12 w"
    by (rule bit_word_eqI) (auto simp: bit_simps dest: bit_imp_le_length)
  then show ?thesis by (simp add: PPN_def PTE_ADDR_def mask12)
qed

lemma PPN_div: "PPN la = unat la div 4096"
  by (simp add: PPN_def drop_bit_eq_div unat_div_distrib)

lemma PDX_div: "PDX la = unat la div 4194304"
proof -
  have "unat la < 4294967296" using unsigned_less[of la] by simp
  then have "unat la div 4194304 < 1024" by simp
  moreover have "PDX la = unat la div 4194304 mod 1024"
    by (simp add: PDX_def mask10 drop_bit_eq_div unat_div_distrib unat_mod_distrib take_bit_eq_mod flip: take_bit_eq_mask)
  ultimately show ?thesis by simp
qed

lemma PTX_mod: "PTX la = unat la div 4096 mod 1024"
  by (simp add: PTX_def mask10 drop_bit_eq_div unat_div_distrib unat_mod_distrib take_bit_eq_mod flip: take_bit_eq_mask)

lemma unat_page2pa: "p < 2 ^ 20 \<Longrightarrow> unat (page2pa p) = p * 4096"
  by (simp add: page2pa_def push_bit_eq_mult unat_mult_lem[THEN iffD1] unsigned_of_nat unat_word_ariths take_bit_eq_mod)

lemma PPN_page2pa [simp]: "p < 2 ^ 20 \<Longrightarrow> PPN (page2pa p) = p"
  by (simp add: PPN_div unat_page2pa)

lemma PPN_entry [simp]:
  assumes "p < 2 ^ 20" "w < 4096"
  shows "PPN (page2pa p OR w) = p"
proof -
  have "unat w div 4096 = 0" using assms(2) by (simp add: word_less_nat_alt)
  then have "drop_bit 12 w = 0" by (metis PPN_def PPN_div unat_eq_zero)
  then have "drop_bit 12 (page2pa p OR w) = drop_bit 12 (page2pa p)" by simp
  then show ?thesis using assms(1) PPN_page2pa by (simp add: PPN_def)
qed

lemma or_less_page:
  fixes v w :: u32
  assumes "v < 4096" "w < 4096"
  shows "v OR w < 4096"
proof -
  have "unat v < 2 ^ 12" "unat w < 2 ^ 12" using assms by (simp_all add: word_less_nat_alt)
  then have "take_bit 12 (unat v OR unat w) = unat v OR unat w" by (simp only: take_bit_or take_bit_nat_eq_self)
  then have "unat (v OR w) < 2 ^ 12" by (simp only: unsigned_or_eq take_bit_nat_eq_self_iff)
  then show ?thesis by (simp add: word_less_nat_alt)
qed

lemma PDX_less: "la < USERTOP \<Longrightarrow> PDX la < 704"
  by (simp add: PDX_div word_less_nat_alt USERTOP_def)

lemma PTX_less [simp]: "PTX la < 1024"
  by (simp add: PTX_mod)

lemma present_OR [simp]: "present (v OR w) \<longleftrightarrow> present v \<or> present w"
  by (simp add: present_bit bit_simps)

lemma present_PTE_P [simp]: "present PTE_P" and present_0 [simp]: "\<not> present 0"
  by (simp_all add: present_bit PTE_P_def)

subsection \<open>The allocator seen from here\<close>

lemma firstfit_alloc_ref:
  "firstfit_alloc_pages a n = Some (r, a') \<Longrightarrow> ref (pages a' q) = ref (pages a q)"
  by (auto simp: firstfit_alloc_pages_def Let_def split: if_splits option.splits)

lemma coalesce_ref: "coalesce ps b a = (b', a') \<Longrightarrow> ref (pages a' q) = ref (pages a q)"
proof (induction ps arbitrary: b a)
  case (Cons p ps)
  from Cons.prems show ?case
    by (auto simp: Let_def split: if_splits dest!: Cons.IH)
qed simp

lemma firstfit_free_ref:
  "firstfit_free_pages a b n = Some a' \<Longrightarrow> ref (pages a' q) = (if in_range b n q then 0 else ref (pages a q))"
  by (auto simp: firstfit_free_pages_def place_block_def Let_def in_range_def split: if_splits prod.splits dest!: coalesce_ref)

lemma alloc_page_ok:
  assumes inv: "firstfit_inv (area s)" and free: "0 < nr_free (area s)"
  shows "\<exists>p a. alloc_pages 1 s = Some (Some p, s\<lparr>area := a\<rparr>) \<and> p \<in> free_set (area s) \<and> firstfit_inv a \<and>
    free_set a = free_set (area s) - {p} \<and> nr_free a + 1 = nr_free (area s) \<and>
    (\<forall>q. reserved (pages a q) = reserved (pages (area s) q) \<and> ref (pages a q) = ref (pages (area s) q))"
proof -
  from ff.alloc_ok[OF inv, of 1] obtain r a where r: "firstfit_alloc_pages (area s) 1 = Some (r, a)" "firstfit_inv a"
    "\<And>q. reserved (pages a q) = reserved (pages (area s) q)"
    "case r of None \<Rightarrow> a = area s \<and> (\<forall>p \<in> set (free_list (area s)). sz (area s) p < 1)
     | Some p \<Rightarrow> {p..<p + 1} \<subseteq> free_set (area s) \<and> free_set a = free_set (area s) - {p..<p + 1} \<and> nr_free a + 1 = nr_free (area s)"
    by auto
  have "r \<noteq> None"
  proof
    assume "r = None"
    with r(4) have "map (sz (area s)) (free_list (area s)) = map (\<lambda>_. 0) (free_list (area s))" by simp
    moreover have "nr_free (area s) = (\<Sum>p\<leftarrow>free_list (area s). sz (area s) p)"
      using inv by (simp add: firstfit_inv_def area_inv_def)
    ultimately show False using free by (simp only: sum_list_0)
  qed
  then obtain p where p: "r = Some p" by blast
  have "{p..<p + 1} = {p}" by auto
  with r(4) p have "p \<in> free_set (area s)" "free_set a = free_set (area s) - {p}" "nr_free a + 1 = nr_free (area s)" by simp_all
  with r(1-3) p firstfit_alloc_ref[OF r(1)] show ?thesis by (auto simp: alloc_pages_def)
qed

lemma free_page_ok:
  assumes inv: "firstfit_inv (area s)" and p: "p \<notin> free_set (area s)" "\<not> reserved (pages (area s) p)"
  shows "\<exists>a. free_pages p 1 s = Some (s\<lparr>area := a\<rparr>) \<and> firstfit_inv a \<and> free_set a = insert p (free_set (area s)) \<and>
    nr_free a = nr_free (area s) + 1 \<and>
    (\<forall>q. reserved (pages a q) = reserved (pages (area s) q) \<and> ref (pages a q) = (if q = p then 0 else ref (pages (area s) q)))"
proof -
  have "in_range p 1 q \<longleftrightarrow> q = p" for q by (auto simp: in_range_def)
  with ff.free_ok[OF inv, of 1 p] p obtain a where a: "firstfit_free_pages (area s) p 1 = Some a" "firstfit_inv a"
    "free_set a = free_set (area s) \<union> {p..<p + 1}" "nr_free a = nr_free (area s) + 1"
    "\<And>q. reserved (pages a q) = reserved (pages (area s) q)" by auto
  have "{p..<p + 1} = {p}" by auto
  with a firstfit_free_ref[OF a(1)] \<open>\<And>q. in_range p 1 q \<longleftrightarrow> q = p\<close> show ?thesis by (auto simp: free_pages_def)
qed

text \<open>Reference counts play no part in the allocator's invariant.\<close>

lemma firstfit_inv_ref [simp]: "firstfit_inv (upd_page p (\<lambda>q. q\<lparr>ref := v\<rparr>) a) = firstfit_inv a"
  "free_set (upd_page p (\<lambda>q. q\<lparr>ref := v\<rparr>) a) = free_set a"
proof -
  have P: "property (pages (upd_page p (\<lambda>q. q\<lparr>ref := v\<rparr>) a) q) = property (pages a q)"
    "has_property (pages (upd_page p (\<lambda>q. q\<lparr>ref := v\<rparr>) a) q) = has_property (pages a q)"
    "reserved (pages (upd_page p (\<lambda>q. q\<lparr>ref := v\<rparr>) a) q) = reserved (pages a q)" for q by simp_all
  show F: "free_set (upd_page p (\<lambda>q. q\<lparr>ref := v\<rparr>) a) = free_set a" unfolding free_set_def block_def P by simp
  show "firstfit_inv (upd_page p (\<lambda>q. q\<lparr>ref := v\<rparr>) a) = firstfit_inv a"
    unfolding firstfit_inv_def area_inv_def F P by simp
qed

subsection \<open>The abstract view\<close>

type_synonym slot = "nat \<times> nat \<times> nat"

definition pte :: "pgmem \<Rightarrow> slot \<Rightarrow> u32" where
  "pte s = (\<lambda>(d, i, j). if present (frame s d i) then frame s (PPN (frame s d i)) j else 0)"

definition tab :: "pgmem \<Rightarrow> nat \<times> nat \<Rightarrow> nat" where
  "tab s = (\<lambda>(d, i). PPN (frame s d i))"

text \<open>The slots of the user part of the directories \<open>D\<close>, and the page tables they have there.\<close>

definition slots :: "nat set \<Rightarrow> slot set" where
  "slots D = D \<times> {..<704} \<times> {..<1024}"

definition tables :: "nat set \<Rightarrow> pgmem \<Rightarrow> (nat \<times> nat) set" where
  "tables D s = {(d, i). d \<in> D \<and> i < 704 \<and> present (frame s d i)}"

definition table_frames :: "nat set \<Rightarrow> pgmem \<Rightarrow> nat set" where
  "table_frames D s = tab s ` tables D s"

definition used :: "pgmem \<Rightarrow> nat \<Rightarrow> bool" where
  "used s p \<longleftrightarrow> p < npage s \<and> p \<notin> free_set (area s) \<and> \<not> reserved (pages (area s) p)"

definition occ :: "nat set \<Rightarrow> pgmem \<Rightarrow> nat \<Rightarrow> slot set" where
  "occ D s p = {x \<in> slots D. present (pte s x) \<and> PPN (pte s x) = p}"

definition data_page :: "nat set \<Rightarrow> pgmem \<Rightarrow> nat \<Rightarrow> bool" where
  "data_page D s p \<longleftrightarrow> used s p \<and> p \<notin> D \<and> p \<notin> table_frames D s"

text \<open>
  The invariant: tables and directories are distinct allocated frames, every mapped page is an allocated
  frame that is neither, and a page is referenced once per slot that maps it, plus \<open>ex\<close> times from
  elsewhere.
\<close>

definition pt_inv :: "nat set \<Rightarrow> (nat \<Rightarrow> int) \<Rightarrow> pgmem \<Rightarrow> bool" where
  "pt_inv D ex s \<longleftrightarrow> firstfit_inv (area s) \<and> npage s \<le> 2 ^ 20 \<and> finite D \<and> free_set (area s) \<subseteq> {..<npage s} \<and>
     inj_on (tab s) (tables D s) \<and> D \<inter> table_frames D s = {} \<and>
     (\<forall>p \<in> D \<union> table_frames D s. used s p) \<and>
     (\<forall>x \<in> slots D. present (pte s x) \<longrightarrow> data_page D s (PPN (pte s x))) \<and>
     (\<forall>p. 0 \<le> ex p \<and> (ex p \<noteq> 0 \<longrightarrow> data_page D s p)) \<and>
     (\<forall>p. p \<notin> table_frames D s \<longrightarrow> page_ref p s = int (card (occ D s p)) + ex p)"

lemma pt_invD:
  assumes "pt_inv D ex s"
  shows "firstfit_inv (area s)" "npage s \<le> 2 ^ 20" "finite D" "free_set (area s) \<subseteq> {..<npage s}"
    "inj_on (tab s) (tables D s)" "D \<inter> table_frames D s = {}" "p \<in> D \<Longrightarrow> used s p" "p \<in> table_frames D s \<Longrightarrow> used s p"
    "x \<in> slots D \<Longrightarrow> present (pte s x) \<Longrightarrow> data_page D s (PPN (pte s x))"
    "0 \<le> ex p" "ex p \<noteq> 0 \<Longrightarrow> data_page D s p"
    "p \<notin> table_frames D s \<Longrightarrow> page_ref p s = int (card (occ D s p)) + ex p"
  using assms unfolding pt_inv_def by blast+

lemma finite_occ [simp]: "finite D \<Longrightarrow> finite (occ D s p)"
  by (simp add: occ_def slots_def)

text \<open>The view depends on the frames only.\<close>

lemma view_cong:
  assumes "frame s' = frame s"
  shows "pte s' = pte s" "tab s' = tab s" "tables D s' = tables D s" "table_frames D s' = table_frames D s"
    "occ D s' p = occ D s p"
  unfolding pte_def tab_def tables_def table_frames_def occ_def assms by (rule refl)+

text \<open>The sole effect on everything but the entries: data pages stay what they were.\<close>

definition keeps_data :: "nat set \<Rightarrow> pgmem \<Rightarrow> pgmem \<Rightarrow> bool" where
  "keeps_data D s s' \<longleftrightarrow> npage s' = npage s \<and> swap_init_ok s' = swap_init_ok s \<and>
     (\<forall>p. data_page D s p \<longrightarrow> data_page D s' p \<and> frame s' p = frame s p)"

lemma table_lt:
  assumes "pt_inv D ex s" "(d, i) \<in> tables D s"
  shows "tab s (d, i) < npage s" "tab s (d, i) < 2 ^ 20" "tab s (d, i) \<in> table_frames D s" "tab s (d, i) \<notin> D"
proof -
  show t: "tab s (d, i) \<in> table_frames D s" using assms(2) by (simp add: table_frames_def)
  show "tab s (d, i) < npage s" using pt_invD(8)[OF assms(1) t] by (simp add: used_def)
  with pt_invD(2)[OF assms(1)] show "tab s (d, i) < 2 ^ 20" by simp
  show "tab s (d, i) \<notin> D" using pt_invD(6)[OF assms(1)] t by blast
qed

lemma get_pte_find:
  assumes "pt_inv D ex s" "d \<in> D" "la < USERTOP"
  shows "get_pte d la False s =
    Some (if present (frame s d (PDX la)) then Some (tab s (d, PDX la), PTX la) else None, s)"
proof (cases "present (frame s d (PDX la))")
  case True
  then have "(d, PDX la) \<in> tables D s" using assms PDX_less by (simp add: tables_def)
  from table_lt(1)[OF assms(1) this] True show ?thesis
    by (simp add: get_pte_def kaddr_frame_def tab_def)
qed (simp add: get_pte_def)

text \<open>Writing an entry.\<close>

lemma set_word_view:
  assumes inv: "pt_inv D ex s" and x: "(d, i) \<in> tables D s"
    and s': "s' = set_word (tab s (d, i)) j w s"
  shows "tables D s' = tables D s" "y \<in> tables D s \<Longrightarrow> tab s' y = tab s y" "table_frames D s' = table_frames D s"
    "z \<in> slots D \<Longrightarrow> pte s' z = (if z = (d, i, j) then w else pte s z)"
proof -
  have f: "frame s' p = (if p = tab s (d, i) then (frame s p)(j := w) else frame s p)" for p
    by (simp add: s' set_word_def)
  have D: "frame s' p = frame s p" if "p \<in> D" for p using f table_lt(4)[OF inv x] that by auto
  show T: "tables D s' = tables D s" by (auto simp: tables_def D)
  show t: "tab s' y = tab s y" if "y \<in> tables D s" for y using that by (auto simp: tab_def tables_def D)
  show "table_frames D s' = table_frames D s" unfolding table_frames_def T using t by (simp cong: image_cong)
  show "pte s' z = (if z = (d, i, j) then w else pte s z)" if "z \<in> slots D" for z
  proof -
    obtain d' i' j' where z: "z = (d', i', j')" by (cases z)
    have d': "d' \<in> D" "i' < 704" using that by (auto simp: z slots_def)
    show ?thesis
    proof (cases "present (frame s d' i')")
      case False
      then have "(d', i') \<noteq> (d, i)" using x by (auto simp: tables_def)
      then show ?thesis using False D[OF d'(1)] by (auto simp: z pte_def)
    next
      case True
      then have y: "(d', i') \<in> tables D s" using d' by (simp add: tables_def)
      have eq: "tab s (d', i') = tab s (d, i) \<longleftrightarrow> (d', i') = (d, i)"
        using inj_on_eq_iff[OF pt_invD(5)[OF inv] y x] .
      have "pte s' z = frame s' (tab s (d', i')) j'" using True D[OF d'(1)] by (simp add: z pte_def tab_def)
      moreover have "pte s z = frame s (tab s (d', i')) j'" using True by (simp add: z pte_def tab_def)
      ultimately show ?thesis using eq by (auto simp: f z)
    qed
  qed
qed

lemma occ_upd:
  assumes "\<And>z. z \<in> slots D \<Longrightarrow> pte s' z = (if z = x then w else pte s z)" "x \<in> slots D"
  shows "occ D s' p = (if present w \<and> PPN w = p then insert x (occ D s p - {x}) else occ D s p - {x})"
proof (rule set_eqI)
  fix z
  show "z \<in> occ D s' p \<longleftrightarrow> z \<in> (if present w \<and> PPN w = p then insert x (occ D s p - {x}) else occ D s p - {x})"
    using assms(1)[of z] assms(2) by (cases "z = x"; cases "z \<in> slots D") (simp_all add: occ_def)
qed

lemma inv_set_word:
  assumes inv: "pt_inv D ex s" and x: "(d, i) \<in> tables D s" "j < 1024"
    and w: "present w \<Longrightarrow> data_page D s (PPN w)"
    and ex': "\<And>p. ex' p = ex p + of_bool (present (pte s (d, i, j)) \<and> PPN (pte s (d, i, j)) = p) - of_bool (present w \<and> PPN w = p)"
      "\<And>p. 0 \<le> ex' p"
  shows "pt_inv D ex' (set_word (tab s (d, i)) j w s)"
proof -
  let ?s = "set_word (tab s (d, i)) j w s" and ?x = "(d, i, j)"
  note V = set_word_view[OF inv x(1) refl[of "set_word (tab s (d, i)) j w s"]]
  have xs: "?x \<in> slots D" using x by (auto simp: tables_def slots_def)
  have a: "area ?s = area s" "npage ?s = npage s" by (simp_all add: set_word_def)
  have u: "used ?s = used s" "data_page D ?s = data_page D s" "page_ref p ?s = page_ref p s" for p
    by (simp_all add: used_def data_page_def fun_eq_iff a V(3) page_ref_def)
  have dp: "data_page D s p" if "ex' p \<noteq> 0" for p
    using that pt_invD(11)[OF inv, of p] pt_invD(9)[OF inv xs] w by (auto simp: ex'(1) of_bool_def split: if_splits)
  have card: "int (card (occ D ?s p)) + ex' p = int (card (occ D s p)) + ex p" for p
  proof -
    have fin: "finite (occ D s p)" using pt_invD(3)[OF inv] by simp
    have mem: "?x \<in> occ D s p \<longleftrightarrow> present (pte s ?x) \<and> PPN (pte s ?x) = p" using xs by (simp add: occ_def)
    have "occ D ?s p = (if present w \<and> PPN w = p then insert ?x (occ D s p - {?x}) else occ D s p - {?x})"
      by (rule occ_upd[OF _ xs]) (use V(4) in simp)
    moreover have "card (occ D s p - {?x}) + (if ?x \<in> occ D s p then 1 else 0) = card (occ D s p)"
      using card.remove[OF fin, of ?x] by auto
    ultimately show ?thesis using fin by (auto simp: ex'(1) mem card_insert_if)
  qed
  have inj: "inj_on (tab ?s) (tables D ?s)"
    unfolding V(1) using pt_invD(5)[OF inv] by (simp add: inj_on_def V(2))
  show ?thesis unfolding pt_inv_def a u V(3)
    using pt_invD(1-4,6-8)[OF inv] inj pt_invD(9)[OF inv] V(4) w dp ex'(2) card pt_invD(12)[OF inv] by auto
qed

text \<open>Changes of the allocator's state alone.\<close>

lemma data_page_ref [simp]: "data_page D (set_page_ref p v s) q = data_page D s q"
proof -
  have "table_frames D (set_page_ref p v s) = table_frames D s" by (rule view_cong) (simp add: set_page_ref_def)
  then show ?thesis by (simp add: data_page_def used_def) (simp add: set_page_ref_def)
qed

lemma inv_ref:
  assumes inv: "pt_inv D ex s" and p: "data_page D s p" and e: "0 \<le> ex p + v"
  shows "pt_inv D (ex(p := ex p + v)) (set_page_ref p (page_ref p s + v) s)"
proof -
  let ?s = "set_page_ref p (page_ref p s + v) s"
  have f: "frame ?s = frame s" "npage ?s = npage s" by (simp_all add: set_page_ref_def)
  note V = view_cong[OF f(1)]
  have u: "used ?s = used s" "data_page D ?s = data_page D s"
    by (simp_all add: used_def data_page_def fun_eq_iff f V(4)) (simp_all add: set_page_ref_def)
  have r: "page_ref q ?s = page_ref q s + (if q = p then v else 0)" for q
    by (simp add: page_ref_def set_page_ref_def)
  have a: "firstfit_inv (area ?s) = firstfit_inv (area s)" "free_set (area ?s) = free_set (area s)"
    by (simp_all add: set_page_ref_def)
  show ?thesis unfolding pt_inv_def V f u a r
    using pt_invD(1-8)[OF inv] pt_invD(9)[OF inv] pt_invD(10,11,12)[OF inv] p e by auto
qed

lemma inv_free:
  assumes inv: "pt_inv D ex s" and p: "data_page D s p" and z: "page_ref p s = 0"
  shows "\<exists>a. free_pages p 1 s = Some (s\<lparr>area := a\<rparr>) \<and> pt_inv D ex (s\<lparr>area := a\<rparr>) \<and>
    free_set a = insert p (free_set (area s)) \<and> nr_free a = nr_free (area s) + 1 \<and>
    (\<forall>q. data_page D (s\<lparr>area := a\<rparr>) q \<longleftrightarrow> data_page D s q \<and> q \<noteq> p) \<and>
    (\<forall>q. page_ref q (s\<lparr>area := a\<rparr>) = page_ref q s)"
proof -
  from p have u: "p < npage s" "p \<notin> free_set (area s)" "\<not> reserved (pages (area s) p)" "p \<notin> D" "p \<notin> table_frames D s"
    by (simp_all add: data_page_def used_def)
  have "int (card (occ D s p)) + ex p = 0" using pt_invD(12)[OF inv u(5)] z by simp
  with pt_invD(10)[OF inv, of p] have o: "card (occ D s p) = 0" "ex p = 0" by simp_all
  then have o': "occ D s p = {}" using pt_invD(3)[OF inv] by simp
  from free_page_ok[OF pt_invD(1)[OF inv] u(2,3)] obtain a where
    a: "free_pages p 1 s = Some (s\<lparr>area := a\<rparr>)" "firstfit_inv a" "free_set a = insert p (free_set (area s))"
      "nr_free a = nr_free (area s) + 1"
      "\<And>q. reserved (pages a q) = reserved (pages (area s) q)" "\<And>q. ref (pages a q) = (if q = p then 0 else ref (pages (area s) q))"
    by blast
  let ?s = "s\<lparr>area := a\<rparr>"
  have V: "pte ?s = pte s" "tab ?s = tab s" "tables D ?s = tables D s" "table_frames D ?s = table_frames D s" "occ D ?s q = occ D s q" for q
    using view_cong[of ?s s] by simp_all
  have U: "used ?s q \<longleftrightarrow> used s q \<and> q \<noteq> p" "data_page D ?s q \<longleftrightarrow> data_page D s q \<and> q \<noteq> p" for q
    by (auto simp: used_def data_page_def a(3,5) V(4))
  have R: "page_ref q ?s = page_ref q s" for q using z a(6) by (simp add: page_ref_def)
  have np: "PPN (pte s x) \<noteq> p" if "x \<in> slots D" "present (pte s x)" for x
    using o' that unfolding occ_def by blast
  have "pt_inv D ex ?s" unfolding pt_inv_def V U R
    using pt_invD(2-8)[OF inv] pt_invD(9)[OF inv] pt_invD(10-12)[OF inv] u np a(2,3) o(2) by auto
  with a(1,3,4) U(2) R show ?thesis by blast
qed

lemma keeps_data_refl [simp]: "keeps_data D s s"
  by (simp add: keeps_data_def)

lemma keeps_data_trans: "keeps_data D s s' \<Longrightarrow> keeps_data D s' s'' \<Longrightarrow> keeps_data D s s''"
  by (simp add: keeps_data_def)

lemma free_pages_set_word: "free_pages p n (set_word f i w s) = map_option (set_word f i w) (free_pages p n s)"
  by (cases "firstfit_free_pages (area s) p n") (simp_all add: free_pages_def set_word_def)

text \<open>Clearing an entry.\<close>

lemma page_remove_pte_ok:
  assumes inv: "pt_inv D ex s" and x: "(d, i) \<in> tables D s" "j < 1024"
  shows "\<exists>s'. page_remove_pte (tab s (d, i), j) s = Some s' \<and> pt_inv D ex s' \<and>
    (\<forall>z \<in> slots D. pte s' z = (if z = (d, i, j) \<and> present (pte s z) then 0 else pte s z)) \<and>
    tables D s' = tables D s \<and> (\<forall>y \<in> tables D s. tab s' y = tab s y) \<and> nr_free (area s) \<le> nr_free (area s') \<and>
    npage s' = npage s \<and> swap_init_ok s' = swap_init_ok s \<and>
    (\<forall>p. data_page D s p \<longrightarrow> frame s' p = frame s p \<and> (0 < page_ref p s' \<longrightarrow> data_page D s' p)) \<and>
    (\<forall>p. p \<notin> table_frames D s \<longrightarrow> page_ref p s' = page_ref p s - of_bool (present (pte s (d, i, j)) \<and> PPN (pte s (d, i, j)) = p))"
proof (cases "present (frame s (tab s (d, i)) j)")
  case False
  have e: "pte s (d, i, j) = frame s (tab s (d, i)) j" using x by (simp add: pte_def tab_def tables_def)
  then have "\<forall>z \<in> slots D. pte s z = (if z = (d, i, j) \<and> present (pte s z) then 0 else pte s z)" using False by auto
  with inv False e show ?thesis by (auto simp: page_remove_pte_def)
next
  case True
  let ?t = "tab s (d, i)" and ?x = "(d, i, j)"
  have xs: "?x \<in> slots D" using x by (auto simp: tables_def slots_def)
  have e: "pte s ?x = frame s ?t j" using x by (simp add: pte_def tab_def tables_def)
  define p where "p = PPN (pte s ?x)"
  have dp: "data_page D s p" using pt_invD(9)[OF inv xs] True e by (simp add: p_def)
  have pp: "PPN (frame s ?t j) = p" by (simp add: p_def e)
  have p2: "pte2page (frame s ?t j) s = Some p"
    using True dp by (simp add: pte2page_def pa2page_def p_def e data_page_def used_def)
  define s1 where "s1 = set_word ?t j 0 s"
  note V = set_word_view[OF inv x(1) s1_def]
  have i1: "pt_inv D (ex(p := ex p + 1)) s1" unfolding s1_def
    by (rule inv_set_word[OF inv x]) (use True e pt_invD(10)[OF inv] in \<open>auto simp: p_def add_increasing2\<close>)
  have a1: "area s1 = area s" "npage s1 = npage s" "swap_init_ok s1 = swap_init_ok s" by (simp_all add: s1_def set_word_def)
  have dp1: "data_page D s1 q = data_page D s q" for q by (simp add: data_page_def used_def a1 V(3))
  define s2 where "s2 = set_page_ref p (page_ref p s1 + (- 1)) s1"
  have f2: "frame s2 = frame s1" "npage s2 = npage s" "swap_init_ok s2 = swap_init_ok s" "nr_free (area s2) = nr_free (area s)"
    by (simp_all add: s2_def set_page_ref_def a1)
  note V2 = view_cong[OF f2(1)]
  have r2: "page_ref q s2 = page_ref q s - of_bool (q = p)" for q
    by (simp add: s2_def page_ref_def set_page_ref_def a1)
  have "(ex(p := ex p + 1))(p := (ex(p := ex p + 1)) p + (- 1)) = ex" by simp
  with inv_ref[OF i1, of p "- 1"] dp dp1 pt_invD(10)[OF inv, of p] have i2: "pt_inv D ex s2" by (simp add: s2_def)
  have dp2: "data_page D s2 q = data_page D s q" for q
    using dp1[of q] by (simp add: s2_def)
  have fr: "frame s1 q = frame s q" if "data_page D s q" for q
    using that table_lt(3)[OF inv x(1)] by (auto simp: s1_def set_word_def data_page_def)
  have step: "page_remove_pte (?t, j) s = (if page_ref p s2 = 0 then free_pages p 1 s2 else Some s2)"
  proof -
    have "s2 = set_word ?t j 0 (set_page_ref p (page_ref p s - 1) s)"
      by (simp add: s2_def s1_def set_page_ref_def set_word_def page_ref_def)
    moreover have "page_ref p s2 = page_ref p s - 1" using r2[of p] by simp
    ultimately show ?thesis using True p2
      by (simp add: page_remove_pte_def page_ref_dec_def free_pages_set_word Let_def Option.bind_map_option split: bind_split)
  qed
  have z2: "pte s2 z = (if z = ?x \<and> present (pte s z) then 0 else pte s z)" if "z \<in> slots D" for z
    using V(4)[OF that] True e by (auto simp: V2)
  have t2: "tables D s2 = tables D s" "y \<in> tables D s \<Longrightarrow> tab s2 y = tab s y" "table_frames D s2 = table_frames D s" for y
    using V by (simp_all add: V2)
  show ?thesis
  proof (cases "page_ref p s2 = 0")
    case False
    then show ?thesis unfolding step using i2 z2 t2 f2 dp2 fr r2 True e pp by auto
  next
    case free: True
    from inv_free[OF i2 _ free] dp dp2 obtain a where a: "free_pages p 1 s2 = Some (s2\<lparr>area := a\<rparr>)" "pt_inv D ex (s2\<lparr>area := a\<rparr>)"
      "nr_free a = nr_free (area s2) + 1"
      "\<And>q. data_page D (s2\<lparr>area := a\<rparr>) q \<longleftrightarrow> data_page D s2 q \<and> q \<noteq> p"
      "\<And>q. page_ref q (s2\<lparr>area := a\<rparr>) = page_ref q s2" by blast
    define s3 where "s3 = s2\<lparr>area := a\<rparr>"
    have f3: "frame s3 = frame s2" "npage s3 = npage s" "swap_init_ok s3 = swap_init_ok s" "nr_free (area s) \<le> nr_free (area s3)"
      using f2 a(3) by (simp_all add: s3_def)
    note V3 = view_cong[OF f3(1)]
    have "page_remove_pte (?t, j) s = Some s3" "pt_inv D ex s3" using step free a(1,2) by (simp_all add: s3_def)
    moreover have "frame s3 q = frame s q \<and> (0 < page_ref q s3 \<longrightarrow> data_page D s3 q)" if "data_page D s q" for q
      using that fr[OF that] f2(1) f3(1) dp2 a(4,5)[of q] free by (auto simp: s3_def)
    moreover have "page_ref q s3 = page_ref q s - of_bool (present (pte s ?x) \<and> PPN (pte s ?x) = q)" for q
      using a(5)[of q] r2[of q] True e by (auto simp: s3_def p_def)
    ultimately show ?thesis using z2 t2 f3 by (auto simp: V3)
  qed
qed

text \<open>Entering a new, empty page table.\<close>

lemma inv_new_table:
  assumes inv: "pt_inv D ex s" and d: "d \<in> D" "i < 704" "\<not> present (frame s d i)"
    and p: "p \<in> free_set (area s)" "firstfit_inv a" "free_set a = free_set (area s) - {p}"
      "\<And>q. reserved (pages a q) = reserved (pages (area s) q)" "\<And>q. ref (pages a q) = ref (pages (area s) q)"
    and s': "s' = set_word d i (page2pa p OR PTE_U OR PTE_W OR PTE_P) (set_frame p (\<lambda>_. 0) (set_page_ref p 1 (s\<lparr>area := a\<rparr>)))"
  shows "pt_inv D ex s'" "tables D s' = insert (d, i) (tables D s)" "tab s' (d, i) = p"
    "y \<in> tables D s \<Longrightarrow> tab s' y = tab s y"
    "z \<in> slots D \<Longrightarrow> pte s' z = pte s z" "keeps_data D s s'"
    "q \<notin> table_frames D s' \<Longrightarrow> page_ref q s' = page_ref q s"
proof -
  let ?w = "page2pa p OR PTE_U OR PTE_W OR PTE_P"
  have pl: "p < npage s" "p < 2 ^ 20" using pt_invD(2,4)[OF inv] p(1) by auto
  have pD: "p \<notin> D" "p \<noteq> d" using pt_invD(7)[OF inv] p(1) d(1) by (auto simp: used_def)
  have pT: "p \<notin> table_frames D s" using pt_invD(8)[OF inv] p(1) by (auto simp: used_def)
  have w: "present ?w" "PPN ?w = p" using pl by (simp_all add: mmu_defs) (simp add: present_bit)
  have f: "frame s' q = (if q = d then (frame s d)(i := ?w) else if q = p then (\<lambda>_. 0) else frame s q)" for q
    using pD by (auto simp: s' set_word_def set_frame_def set_page_ref_def)
  have fD: "frame s' d' i' = (if (d', i') = (d, i) then ?w else frame s d' i')" if "d' \<in> D" for d' i'
    using that pD by (auto simp: f)
  show T: "tables D s' = insert (d, i) (tables D s)" using d w(1) by (auto simp: tables_def fD split: if_splits)
  show td: "tab s' (d, i) = p" using fD[OF d(1)] w(2) by (simp add: tab_def)
  show tt: "tab s' y = tab s y" if "y \<in> tables D s" for y
    using that d(3) by (auto simp: tab_def tables_def fD)
  have TF: "table_frames D s' = insert p (table_frames D s)"
    unfolding table_frames_def T using td tt by (simp cong: image_cong)
  show P: "pte s' z = pte s z" if "z \<in> slots D" for z
  proof -
    obtain d' i' j' where z: "z = (d', i', j')" by (cases z)
    have d': "d' \<in> D" "i' < 704" using that by (auto simp: z slots_def)
    show ?thesis
    proof (cases "(d', i') = (d, i)")
      case True
      then show ?thesis using d(3) pD f[of p] fD[OF d'(1)] w by (auto simp: z pte_def)
    next
      case False
      then have e: "frame s' d' i' = frame s d' i'" using fD[OF d'(1)] by auto
      show ?thesis
      proof (cases "present (frame s d' i')")
        case True
        then have "(d', i') \<in> tables D s" using d' by (simp add: tables_def)
        from table_lt(3,4)[OF inv this] pT d(1) have "tab s (d', i') \<noteq> p" "tab s (d', i') \<noteq> d" by auto
        then show ?thesis using True e by (auto simp: z pte_def f tab_def)
      qed (simp add: z pte_def e)
    qed
  qed
  have a: "area s' = upd_page p (\<lambda>q. q\<lparr>ref := 1\<rparr>) a" "npage s' = npage s" "swap_init_ok s' = swap_init_ok s"
    by (simp_all add: s' set_word_def set_frame_def set_page_ref_def)
  have F: "free_set (area s') = free_set (area s) - {p}" "firstfit_inv (area s')" using p by (simp_all add: a)
  have res: "\<not> reserved (pages (area s) p)" using pt_invD(1)[OF inv] p(1) by (simp add: firstfit_inv_def area_inv_def)
  have res': "reserved (pages (area s') q) = reserved (pages (area s) q)" for q using p(4) by (simp add: a(1))
  have U: "used s' q \<longleftrightarrow> used s q \<or> q = p" for q
    unfolding used_def F a(2) res' using res pl(1) by auto
  have dp: "data_page D s' q \<longleftrightarrow> data_page D s q" for q
    using U[of q] p(1) by (auto simp: data_page_def TF used_def)
  have occ: "occ D s' q = occ D s q" for q using P by (auto simp: occ_def)
  show R: "page_ref q s' = page_ref q s" if "q \<notin> table_frames D s'" for q
    using that p(5) by (auto simp: page_ref_def a TF)
  have inj: "inj_on (tab s') (tables D s')"
  proof -
    have "inj_on (tab s') (tables D s)" using pt_invD(5)[OF inv] by (simp add: inj_on_def tt)
    moreover have "tab s' (d, i) \<notin> tab s' ` tables D s" using pT td tt by (auto simp: table_frames_def)
    ultimately show ?thesis unfolding T inj_on_insert by blast
  qed
  have dj: "D \<inter> table_frames D s' = {}" "\<forall>q \<in> D \<union> table_frames D s'. used s' q"
    using pt_invD(6)[OF inv] pD(1) pt_invD(7,8)[OF inv] U by (auto simp: TF)
  have "\<forall>q. q \<notin> table_frames D s' \<longrightarrow> page_ref q s' = int (card (occ D s' q)) + ex q"
    using R pt_invD(12)[OF inv] by (auto simp: TF occ)
  with dj show "pt_inv D ex s'" unfolding pt_inv_def a(2) dp
    using pt_invD(2-4)[OF inv] F inj pt_invD(9)[OF inv] P pt_invD(10,11)[OF inv] by auto
  show "keeps_data D s s'"
    unfolding keeps_data_def a(2,3) dp
    using pD pt_invD(7)[OF inv d(1)] p(1) d(1) by (auto simp: f data_page_def used_def)
qed

lemma get_pte_make:
  assumes inv: "pt_inv D ex s" and d: "d \<in> D" "la < USERTOP" and n: "0 < nr_free (area s)"
  shows "\<exists>s'. get_pte d la True s = Some (Some (tab s' (d, PDX la), PTX la), s') \<and> pt_inv D ex s' \<and>
    (d, PDX la) \<in> tables D s' \<and> (\<forall>z \<in> slots D. pte s' z = pte s z) \<and> keeps_data D s s' \<and>
    nr_free (area s) \<le> nr_free (area s') + 1 \<and> tables D s \<subseteq> tables D s' \<and> (\<forall>y \<in> tables D s. tab s' y = tab s y)"
proof (cases "present (frame s d (PDX la))")
  case True
  then have t: "(d, PDX la) \<in> tables D s" using d PDX_less by (simp add: tables_def)
  have "get_pte d la True s = Some (Some (tab s (d, PDX la), PTX la), s)"
    using table_lt(1)[OF inv t] True by (simp add: get_pte_def kaddr_frame_def tab_def)
  with inv t show ?thesis by auto
next
  case False
  from alloc_page_ok[OF pt_invD(1)[OF inv] n] obtain p a where
    a: "alloc_pages 1 s = Some (Some p, s\<lparr>area := a\<rparr>)" "p \<in> free_set (area s)" "firstfit_inv a"
      "free_set a = free_set (area s) - {p}" "nr_free a + 1 = nr_free (area s)"
      "\<And>q. reserved (pages a q) = reserved (pages (area s) q)" "\<And>q. ref (pages a q) = ref (pages (area s) q)" by blast
  define s' where "s' = set_word d (PDX la) (page2pa p OR PTE_U OR PTE_W OR PTE_P) (set_frame p (\<lambda>_. 0) (set_page_ref p 1 (s\<lparr>area := a\<rparr>)))"
  note N = inv_new_table[OF inv d(1) PDX_less[OF d(2)] False a(2-4,6,7) s'_def]
  have pl: "p < npage s" "p < 2 ^ 20" using pt_invD(2,4)[OF inv] a(2) by auto
  have fr: "npage s' = npage s" "PPN (frame s' d (PDX la)) = p" "nr_free (area s') = nr_free a"
    using N(3) by (simp_all add: s'_def set_word_def set_frame_def set_page_ref_def tab_def)
  have "get_pte d la True s = Some (Some (tab s' (d, PDX la), PTX la), s')"
    using False a(1) pl fr by (simp add: get_pte_def kaddr_frame_def Let_def tab_def flip: s'_def)
      (simp add: set_page_ref_def flip: s'_def)
  with N fr(3) a(5) show ?thesis by auto
qed

subsection \<open>Mapping a page\<close>

text \<open>
  Making room in an entry for a page \<open>p\<close> whose count was raised already: \<open>ex3\<close> are the references from
  elsewhere in the state \<open>s3\<close> just before the new entry is written.
\<close>

lemma page_insert_clear:
  assumes inv: "pt_inv D (ex(p := ex p + 1)) s" and e0: "\<And>q. 0 \<le> ex q" and x: "(d, i) \<in> tables D s" "j < 1024"
    and p: "data_page D s p" "0 < page_ref p s"
  shows "\<exists>s3 ex3. (if present (frame s (tab s (d, i)) j) then do {
                  q \<leftarrow> pte2page (frame s (tab s (d, i)) j) s;
                  if q = p then Some (snd (page_ref_dec p s)) else page_remove_pte (tab s (d, i), j) s }
                else Some s) = Some s3 \<and> pt_inv D ex3 s3 \<and>
    (\<forall>q. ex q = ex3 q + of_bool (present (pte s3 (d, i, j)) \<and> PPN (pte s3 (d, i, j)) = q) - of_bool (q = p)) \<and>
    tables D s3 = tables D s \<and> tab s3 (d, i) = tab s (d, i) \<and> data_page D s3 p \<and>
    npage s3 = npage s \<and> swap_init_ok s3 = swap_init_ok s \<and> nr_free (area s) \<le> nr_free (area s3) \<and>
    (\<forall>z \<in> slots D. z \<noteq> (d, i, j) \<longrightarrow> pte s3 z = pte s z) \<and>
    (\<forall>q. data_page D s q \<longrightarrow> frame s3 q = frame s q \<and> (0 < page_ref q s3 \<longrightarrow> data_page D s3 q))"
proof -
  let ?x = "(d, i, j)"
  have xs: "?x \<in> slots D" using x by (auto simp: tables_def slots_def)
  have e: "frame s (tab s (d, i)) j = pte s ?x" using x by (simp add: pte_def tab_def tables_def)
  have q: "pte2page (pte s ?x) s = Some (PPN (pte s ?x))" if "present (pte s ?x)"
    using pt_invD(9)[OF inv xs that] that by (simp add: pte2page_def pa2page_def data_page_def used_def)
  consider "\<not> present (pte s ?x)" | "present (pte s ?x)" "PPN (pte s ?x) = p" | "present (pte s ?x)" "PPN (pte s ?x) \<noteq> p" by blast
  then show ?thesis
  proof cases
    case 1
    then show ?thesis using inv p by (intro exI[of _ s] exI[of _ "ex(p := ex p + 1)"]) (simp add: e)
  next
    case 2
    define s3 where "s3 = set_page_ref p (page_ref p s + - 1) s"
    have "frame s3 = frame s" "npage s3 = npage s" "swap_init_ok s3 = swap_init_ok s" "nr_free (area s3) = nr_free (area s)"
      by (simp_all add: s3_def set_page_ref_def)
    note V = this view_cong[OF this(1)]
    have "pt_inv D ex s3" using inv_ref[OF inv p(1), of "- 1"] e0 by (simp add: s3_def)
    moreover have "data_page D s3 q = data_page D s q" for q by (simp add: s3_def)
    ultimately show ?thesis using 2 p(1) q e
      by (intro exI[of _ s3] exI[of _ ex]) (simp add: V, simp add: page_ref_dec_def s3_def)
  next
    case 3
    from page_remove_pte_ok[OF inv x] obtain s3 where s3: "page_remove_pte (tab s (d, i), j) s = Some s3"
      "pt_inv D (ex(p := ex p + 1)) s3" "\<And>z. z \<in> slots D \<Longrightarrow> pte s3 z = (if z = ?x \<and> present (pte s z) then 0 else pte s z)"
      "tables D s3 = tables D s" "\<forall>y \<in> tables D s. tab s3 y = tab s y" "nr_free (area s) \<le> nr_free (area s3)"
      "npage s3 = npage s" "swap_init_ok s3 = swap_init_ok s"
      "\<And>q. data_page D s q \<Longrightarrow> frame s3 q = frame s q \<and> (0 < page_ref q s3 \<longrightarrow> data_page D s3 q)"
      "\<And>q. q \<notin> table_frames D s \<Longrightarrow> page_ref q s3 = page_ref q s - of_bool (present (pte s ?x) \<and> PPN (pte s ?x) = q)"
      by blast
    have "0 < page_ref p s3" using s3(10)[of p] p 3(2) by (simp add: data_page_def)
    then have "data_page D s3 p" using s3(9)[OF p(1)] by simp
    moreover have "\<not> present (pte s3 ?x)" using s3(3)[OF xs] 3 by simp
    moreover have "pte s3 z = pte s z" if "z \<in> slots D" "z \<noteq> ?x" for z using s3(3)[OF that(1)] that(2) by simp
    ultimately show ?thesis using 3 q e s3(1,2,4,6-9) bspec[OF s3(5) x(1)]
      by (intro exI[of _ s3] exI[of _ "ex(p := ex p + 1)"]) simp
  qed
qed

lemma page_insert_ok:
  assumes inv: "pt_inv D ex s" and d: "d \<in> D" "la < USERTOP" and n: "0 < nr_free (area s)"
    and p: "data_page D s p" and perm: "perm < 4096"
  shows "\<exists>s'. page_insert d p la perm s = Some (0, s') \<and> pt_inv D ex s' \<and>
    (\<forall>z \<in> slots D. pte s' z = (if z = (d, PDX la, PTX la) then page2pa p OR PTE_P OR perm else pte s z)) \<and>
    npage s' = npage s \<and> swap_init_ok s' = swap_init_ok s \<and> nr_free (area s) \<le> nr_free (area s') + 1 \<and>
    (\<forall>q. data_page D s q \<longrightarrow> frame s' q = frame s q \<and> (0 < page_ref q s' \<longrightarrow> data_page D s' q))"
proof -
  let ?x = "(d, PDX la, PTX la)" and ?w = "page2pa p OR PTE_P OR perm"
  from get_pte_make[OF inv d n] obtain s1 where s1: "get_pte d la True s = Some (Some (tab s1 (d, PDX la), PTX la), s1)"
    "pt_inv D ex s1" "(d, PDX la) \<in> tables D s1" "\<And>z. z \<in> slots D \<Longrightarrow> pte s1 z = pte s z" "keeps_data D s s1"
    "nr_free (area s) \<le> nr_free (area s1) + 1" by blast
  have xs: "?x \<in> slots D" using d PDX_less by (simp add: slots_def)
  let ?t = "tab s1 (d, PDX la)"
  have e: "pte s1 ?x = frame s1 ?t (PTX la)" using s1(3) by (simp add: pte_def tab_def tables_def)
  have p1: "data_page D s1 p" using s1(5) p by (simp add: keeps_data_def)
  have pl: "p < 2 ^ 20" using p pt_invD(2)[OF inv] by (simp add: data_page_def used_def)
  have "PTE_P OR perm < 4096" using perm by (intro or_less_page) (simp_all add: PTE_P_def)
  then have w: "present ?w" "PPN ?w = p" using pl by simp_all
  define s2 where "s2 = set_page_ref p (page_ref p s1 + 1) s1"
  have i2: "pt_inv D (ex(p := ex p + 1)) s2"
    unfolding s2_def by (rule inv_ref[OF s1(2) p1]) (use pt_invD(10)[OF inv, of p] in simp)
  have f2: "frame s2 = frame s1" "npage s2 = npage s1" "swap_init_ok s2 = swap_init_ok s1" "nr_free (area s2) = nr_free (area s1)"
    by (simp_all add: s2_def set_page_ref_def)
  note V2 = view_cong[OF f2(1)]
  have d2: "data_page D s2 q = data_page D s1 q" for q by (simp add: s2_def)
  have t2: "(d, PDX la) \<in> tables D s2" "tab s2 (d, PDX la) = ?t" using s1(3) by (simp_all add: V2)
  have "0 \<le> page_ref p s1"
    using pt_invD(10,12)[OF s1(2), of p] p1 by (simp add: data_page_def)
  then have r2: "0 < page_ref p s2" by (simp add: s2_def page_ref_def set_page_ref_def)
  have p2: "data_page D s2 p" using p1 d2 by simp
  from page_insert_clear[OF i2 pt_invD(10)[OF inv] t2(1) PTX_less[of la] p2 r2, unfolded t2(2)]
  obtain s3 ex3 where S3: "(if present (frame s2 ?t (PTX la)) then do {
                  q \<leftarrow> pte2page (frame s2 ?t (PTX la)) s2;
                  if q = p then Some (snd (page_ref_dec p s2)) else page_remove_pte (?t, PTX la) s2 }
                else Some s2) = Some s3" "pt_inv D ex3 s3"
    "\<And>q. ex q = ex3 q + of_bool (present (pte s3 ?x) \<and> PPN (pte s3 ?x) = q) - of_bool (q = p)"
    "tables D s3 = tables D s2" "tab s3 (d, PDX la) = ?t" "data_page D s3 p"
    "npage s3 = npage s2" "swap_init_ok s3 = swap_init_ok s2" "nr_free (area s2) \<le> nr_free (area s3)"
    "\<forall>z \<in> slots D. z \<noteq> ?x \<longrightarrow> pte s3 z = pte s2 z"
    "\<And>q. data_page D s2 q \<Longrightarrow> frame s3 q = frame s2 q \<and> (0 < page_ref q s3 \<longrightarrow> data_page D s3 q)"
    by blast
  have ins: "page_insert d p la perm s = Some (0, set_word ?t (PTX la) ?w s3)"
  proof -
    have "page_ref_inc p s1 = (page_ref p s1 + 1, s2)" by (simp add: page_ref_inc_def s2_def)
    then show ?thesis using S3(1) by (auto simp: page_insert_def s1(1) bind_eq_Some_conv split: if_splits)
  qed
  let ?s = "set_word (tab s3 (d, PDX la)) (PTX la) ?w s3"
  have T: "(d, PDX la) \<in> tables D s3" using S3(4) t2(1) by simp
  have i4: "pt_inv D ex ?s"
    by (rule inv_set_word[OF S3(2) T]) (use w S3(3,6) pt_invD(10)[OF inv] in \<open>simp_all add: eq_commute\<close>)
  note V = set_word_view[OF S3(2) T refl[of ?s]]
  have dp: "data_page D ?s q = data_page D s3 q" "page_ref q ?s = page_ref q s3" for q
    using V(3) by (simp_all add: data_page_def used_def page_ref_def) (simp_all add: set_word_def)
  have fr: "frame ?s q = frame s3 q" if "data_page D s1 q" for q
    using that S3(5) table_lt(3)[OF s1(2,3)] by (auto simp: set_word_def data_page_def)
  have "data_page D s q \<Longrightarrow> data_page D s1 q \<and> frame s1 q = frame s q" for q using s1(5) by (simp add: keeps_data_def)
  then have "\<forall>q. data_page D s q \<longrightarrow> frame ?s q = frame s q \<and> (0 < page_ref q ?s \<longrightarrow> data_page D ?s q)"
    using fr S3(11) d2 f2(1) unfolding dp by auto
  moreover have "\<forall>z \<in> slots D. pte ?s z = (if z = ?x then ?w else pte s z)" using V(4) S3(10) s1(4) by (auto simp: V2)
  moreover have "npage ?s = npage s" "swap_init_ok ?s = swap_init_ok s" "nr_free (area s) \<le> nr_free (area ?s) + 1"
    using S3(7-9) f2 s1(5,6) by (simp_all add: set_word_def keeps_data_def)
  ultimately show ?thesis using ins i4 unfolding S3(5) by blast
qed

lemma inv_alloc:
  assumes inv: "pt_inv D ex s" and n: "0 < nr_free (area s)"
  shows "\<exists>p s'. alloc_pages 1 s = Some (Some p, s') \<and> pt_inv D ex s' \<and> data_page D s' p \<and> \<not> data_page D s p \<and>
    page_ref p s' = 0 \<and> p < npage s \<and> pte s' = pte s \<and> frame s' = frame s \<and> keeps_data D s s' \<and> nr_free (area s') + 1 = nr_free (area s)"
proof -
  from alloc_page_ok[OF pt_invD(1)[OF inv] n] obtain p a where
    a: "alloc_pages 1 s = Some (Some p, s\<lparr>area := a\<rparr>)" "p \<in> free_set (area s)" "firstfit_inv a"
      "free_set a = free_set (area s) - {p}" "nr_free a + 1 = nr_free (area s)"
      "\<And>q. reserved (pages a q) = reserved (pages (area s) q)" "\<And>q. ref (pages a q) = ref (pages (area s) q)" by blast
  define s' where "s' = s\<lparr>area := a\<rparr>"
  have "frame s' = frame s" "npage s' = npage s" "swap_init_ok s' = swap_init_ok s" "area s' = a" by (simp_all add: s'_def)
  note V = this view_cong[OF this(1)]
  have res: "\<not> reserved (pages (area s) p)" using pt_invD(1)[OF inv] a(2) by (simp add: firstfit_inv_def area_inv_def)
  have pl: "p < npage s" using pt_invD(4)[OF inv] a(2) by auto
  have U: "used s' q \<longleftrightarrow> used s q \<or> q = p" for q
    unfolding used_def V(2,4) a(4,6) using res pl by auto
  have pD: "p \<notin> D" "p \<notin> table_frames D s" using pt_invD(7,8)[OF inv] a(2) by (auto simp: used_def)
  have dp: "data_page D s' q \<longleftrightarrow> data_page D s q \<or> q = p" for q
    using U pD by (auto simp: data_page_def V)
  have R: "page_ref q s' = page_ref q s" for q using a(7) by (simp add: page_ref_def V)
  have nd: "\<not> data_page D s p" using a(2) by (simp add: data_page_def used_def)
  then have "ex p = 0" using pt_invD(11)[OF inv] by blast
  moreover have "occ D s p = {}" using pt_invD(9)[OF inv] nd unfolding occ_def by blast
  ultimately have "page_ref p s' = 0" using pt_invD(12)[OF inv pD(2)] R by simp
  moreover have "pt_inv D ex s'" unfolding pt_inv_def V dp R U a(4)
    using pt_invD(2-6)[OF inv] a(3) pt_invD(7-12)[OF inv] by auto
  moreover have "keeps_data D s s'" using dp by (simp add: keeps_data_def V)
  ultimately show ?thesis using a(1,5) dp nd pl V by (auto simp flip: s'_def)
qed

lemma pgdir_alloc_page_ok:
  assumes inv: "pt_inv D ex s" and d: "d \<in> D" "la < USERTOP" and n: "2 \<le> nr_free (area s)" and perm: "perm < 4096"
  shows "\<exists>p s'. pgdir_alloc_page d la perm s = Some (Some p, s') \<and> pt_inv D ex s' \<and> \<not> data_page D s p \<and> p < npage s \<and>
    (\<forall>z \<in> slots D. pte s' z = (if z = (d, PDX la, PTX la) then page2pa p OR PTE_P OR perm else pte s z)) \<and>
    nr_free (area s) \<le> nr_free (area s') + 2"
proof -
  from inv_alloc[OF inv] n obtain p s1 where s1: "alloc_pages 1 s = Some (Some p, s1)" "pt_inv D ex s1" "data_page D s1 p"
    "\<not> data_page D s p" "p < npage s" "pte s1 = pte s" "nr_free (area s1) + 1 = nr_free (area s)" by auto
  from page_insert_ok[OF s1(2) d _ s1(3) perm] s1(7) n obtain s' where s': "page_insert d p la perm s1 = Some (0, s')" "pt_inv D ex s'"
    "\<forall>z \<in> slots D. pte s' z = (if z = (d, PDX la, PTX la) then page2pa p OR PTE_P OR perm else pte s1 z)"
    "nr_free (area s1) \<le> nr_free (area s') + 1" by auto
  have "pgdir_alloc_page d la perm s = Some (Some p, s')" using s1(1) s'(1) by (simp add: pgdir_alloc_page_def)
  with s1 s' show ?thesis by (intro exI[of _ p] exI[of _ s']) auto
qed

subsection \<open>Unmapping a range\<close>

lemma unat_round:
  fixes a n :: u32
  assumes "n \<noteq> 0"
  shows "unat (ROUNDDOWN a n) = unat a div unat n * unat n"
proof -
  have "a mod n \<le> a" by (simp add: word_le_nat_alt unat_mod_distrib)
  then have "unat (ROUNDDOWN a n) = unat a - unat a mod unat n"
    by (simp add: ROUNDDOWN_def unat_sub unat_mod_distrib)
  then show ?thesis by (simp add: minus_mod_eq_div_mult)
qed

lemma unat_next_page: "a < USERTOP \<Longrightarrow> unat (a + PGSIZE) = unat a + 4096"
  by (simp add: unat_plus_simple[THEN iffD1] word_less_nat_alt USERTOP_def PGSIZE_def no_olen_add_nat[THEN iffD2])

lemma unat_next_table:
  assumes "a < USERTOP"
  shows "unat (ROUNDDOWN (a + PTSIZE) PTSIZE) = (PDX a + 1) * 4194304"
proof -
  have "unat (a + PTSIZE) = unat a + 4194304" using assms
    by (simp add: unat_plus_simple[THEN iffD1] word_less_nat_alt USERTOP_def PGSIZE_def PTSIZE_def no_olen_add_nat[THEN iffD2])
  moreover have "PTSIZE \<noteq> 0" "unat PTSIZE = 4194304" by (simp_all add: PTSIZE_def PGSIZE_def)
  moreover have "(unat a + 4194304) div 4194304 = unat a div 4194304 + 1" by (rule div_add_self2) simp
  ultimately show ?thesis by (simp add: unat_round PDX_div)
qed

text \<open>The address of the page of a slot, and the slots of a directory in a range.\<close>

definition slot_addr :: "slot \<Rightarrow> nat" where
  "slot_addr = (\<lambda>(d, i, j). (i * 1024 + j) * 4096)"

lemma slot_addr_self: "a mod PGSIZE = 0 \<Longrightarrow> slot_addr (d, PDX a, PTX a) = unat a"
proof -
  assume "a mod PGSIZE = 0"
  moreover have "unat (a mod PGSIZE) = unat a mod 4096" by (simp add: unat_mod_distrib PGSIZE_def)
  ultimately have "unat a mod 4096 = 0" by simp
  then have "unat a = unat a div 4096 * 4096" using div_mult_mod_eq[of "unat a" 4096] by linarith
  moreover have "unat a div 4096 = PDX a * 1024 + PTX a"
  proof -
    have "unat a div 4194304 = unat a div 4096 div 1024" by (simp flip: div_mult2_eq)
    then show ?thesis by (simp add: PDX_div PTX_mod)
  qed
  ultimately show ?thesis by (simp add: slot_addr_def)
qed

lemma aligned_iff: "a mod PGSIZE = 0 \<longleftrightarrow> unat a mod 4096 = 0"
proof -
  have "unat (a mod PGSIZE) = unat a mod 4096" by (simp add: unat_mod_distrib PGSIZE_def)
  then show ?thesis by (metis unat_eq_zero)
qed

lemma slot_addr_inj:
  assumes "j < 1024" "j' < 1024" "slot_addr (d, i, j) = slot_addr (d', i', j')"
  shows "i = i'" "j = j'"
proof -
  from assms(3) have e: "i * 1024 + j = i' * 1024 + j'" by (simp add: slot_addr_def)
  then have "(i * 1024 + j) div 1024 = (i' * 1024 + j') div 1024" by simp
  then show "i = i'" using assms(1,2) by simp
  with e show "j = j'" by simp
qed

definition unmapped :: "nat set \<Rightarrow> nat \<Rightarrow> nat \<Rightarrow> nat \<Rightarrow> pgmem \<Rightarrow> pgmem \<Rightarrow> bool" where
  "unmapped D d l u s s' \<longleftrightarrow>
     (\<forall>z \<in> slots D. pte s' z = (if fst z = d \<and> l \<le> slot_addr z \<and> slot_addr z < u \<and> present (pte s z) then 0 else pte s z)) \<and>
     tables D s' = tables D s \<and> (\<forall>y \<in> tables D s. tab s' y = tab s y) \<and> npage s' = npage s \<and> nr_free (area s) \<le> nr_free (area s')"

lemma unmapped_trans:
  assumes "unmapped D d l m s s1" "unmapped D d m u s1 s2" "l \<le> m" "m \<le> u"
  shows "unmapped D d l u s s2"
proof -
  have "pte s2 z = (if fst z = d \<and> l \<le> slot_addr z \<and> slot_addr z < u \<and> present (pte s z) then 0 else pte s z)"
    if z: "z \<in> slots D" for z
  proof -
    have 1: "pte s1 z = (if fst z = d \<and> l \<le> slot_addr z \<and> slot_addr z < m \<and> present (pte s z) then 0 else pte s z)"
      using assms(1) z unfolding unmapped_def by blast
    have 2: "pte s2 z = (if fst z = d \<and> m \<le> slot_addr z \<and> slot_addr z < u \<and> present (pte s1 z) then 0 else pte s1 z)"
      using assms(2) z unfolding unmapped_def by blast
    show ?thesis using 1 2 assms(3,4) by (cases "slot_addr z < m") auto
  qed
  then show ?thesis using assms(1,2) by (auto simp: unmapped_def)
qed

lemma unmap_step_absent:
  assumes inv: "pt_inv D ex s" and d: "d \<in> D" and a: "a mod PGSIZE = 0" "a < USERTOP" and np: "\<not> present (frame s d (PDX a))"
    and u: "u \<le> (PDX a + 1) * 4194304"
  shows "unmapped D d (unat a) u s s"
proof -
  have "\<not> present (pte s z)" if z: "fst z = d" "unat a \<le> slot_addr z" "slot_addr z < u" "z \<in> slots D" for z
  proof -
    obtain i j where zz: "z = (d, i, j)" "j < 1024" using z by (cases z) (auto simp: slots_def)
    have 1: "PDX a * 4194304 \<le> unat a" by (simp add: PDX_div)
    have "i = PDX a"
    proof (rule antisym)
      have "(i * 1024 + j) * 4096 < (PDX a + 1) * 4194304" using z(3) u by (simp add: zz slot_addr_def)
      then show "i \<le> PDX a" by simp
      have "PDX a * 4194304 \<le> (i * 1024 + j) * 4096" using z(2) 1 by (simp add: zz slot_addr_def)
      then show "PDX a \<le> i" using zz(2) by simp
    qed
    with np show ?thesis by (simp add: zz pte_def)
  qed
  then show ?thesis unfolding unmapped_def by auto
qed

lemma slot_only:
  assumes a: "a mod PGSIZE = 0" and z: "z \<in> slots D" and u: "unat a < u" "u \<le> unat a + 4096"
  shows "z = (d, PDX a, PTX a) \<longleftrightarrow> fst z = d \<and> unat a \<le> slot_addr z \<and> slot_addr z < u"
proof
  let ?x = "(d, PDX a, PTX a)"
  have xa: "slot_addr ?x = unat a" using slot_addr_self[OF a] .
  show "z = ?x \<Longrightarrow> fst z = d \<and> unat a \<le> slot_addr z \<and> slot_addr z < u" using xa u by simp
  assume zz: "fst z = d \<and> unat a \<le> slot_addr z \<and> slot_addr z < u"
  then obtain i j where z': "z = (d, i, j)" "j < 1024" using z by (cases z) (auto simp: slots_def)
  define m where "m = i * 1024 + j"
  define n where "n = PDX a * 1024 + PTX a"
  have "slot_addr z = m * 4096" "unat a = n * 4096" using xa by (simp_all add: z' slot_addr_def m_def n_def)
  with zz u have "n * 4096 \<le> m * 4096" "m * 4096 < (n + 1) * 4096" by simp_all
  then have "m = n" by simp
  then have "slot_addr z = slot_addr ?x" by (simp add: z' slot_addr_def m_def n_def)
  then show "z = ?x" using slot_addr_inj[OF z'(2) PTX_less, of d i d "PDX a" a] by (simp add: z')
qed

lemma unmap_step_present:
  assumes inv: "pt_inv D ex s" and d: "d \<in> D" and a: "a mod PGSIZE = 0" "a < USERTOP" and p: "present (frame s d (PDX a))"
  defines "t \<equiv> tab s (d, PDX a)"
  shows "\<exists>s'. (if frame s t (PTX a) \<noteq> 0 then page_remove_pte (t, PTX a) s else Some s) = Some s' \<and> pt_inv D ex s' \<and>
    (\<forall>u. unat a < u \<longrightarrow> u \<le> unat a + 4096 \<longrightarrow> unmapped D d (unat a) u s s')"
proof -
  let ?x = "(d, PDX a, PTX a)"
  have x: "(d, PDX a) \<in> tables D s" using d p PDX_less[OF a(2)] by (simp add: tables_def)
  have e: "pte s ?x = frame s t (PTX a)" using p by (simp add: t_def pte_def tab_def)
  note only = slot_only[OF a(1)]
  show ?thesis
  proof (cases "frame s t (PTX a) = 0")
    case True
    then have np: "\<not> present (pte s ?x)" by (simp add: e)
    have "unmapped D d (unat a) u s s" if u: "unat a < u" "u \<le> unat a + 4096" for u
    proof -
      have "\<not> (fst z = d \<and> unat a \<le> slot_addr z \<and> slot_addr z < u \<and> present (pte s z))" if "z \<in> slots D" for z
        using only[OF that u] np by metis
      then show ?thesis unfolding unmapped_def by auto
    qed
    with inv True show ?thesis by auto
  next
    case False
    from page_remove_pte_ok[OF inv x PTX_less] obtain s' where s': "page_remove_pte (t, PTX a) s = Some s'" "pt_inv D ex s'"
      "\<forall>z \<in> slots D. pte s' z = (if z = ?x \<and> present (pte s z) then 0 else pte s z)"
      "tables D s' = tables D s" "\<forall>y \<in> tables D s. tab s' y = tab s y" "npage s' = npage s" "nr_free (area s) \<le> nr_free (area s')"
      unfolding t_def by blast
    have "unmapped D d (unat a) u s s'" if "unat a < u" "u \<le> unat a + 4096" for u
      unfolding unmapped_def using s'(3-7) only[OF _ that] by simp
    with s'(1,2) False show ?thesis by auto
  qed
qed

lemma unmap_loop_ok:
  assumes "pt_inv D ex s" "d \<in> D" "a mod PGSIZE = 0" "a < b" "b \<le> USERTOP"
  shows "\<exists>s'. unmap_loop d a b s = Some s' \<and> pt_inv D ex s' \<and> unmapped D d (unat a) (unat b) s s'"
  using assms
proof (induction "unat b - unat a" arbitrary: a s rule: less_induct)
  case less
  note inv = less.prems(1) and d = less.prems(2)
  have a: "a < USERTOP" using less.prems(4,5) by simp
  have ab: "unat a < unat b" using less.prems(4) by (simp add: word_less_nat_alt)
  have rec: "\<exists>s'. (if a' \<noteq> 0 \<and> a' < b then unmap_loop d a' b s1 else Some s1) = Some s' \<and> pt_inv D ex s' \<and>
      unmapped D d (unat a) (unat b) s s'"
    if s1: "pt_inv D ex s1" "a' mod PGSIZE = 0" "unat a < unat a'"
      and un: "\<And>u. unat a < u \<Longrightarrow> u \<le> unat a' \<Longrightarrow> unmapped D d (unat a) u s s1" for a' s1
  proof (cases "a' < b")
    case True
    then have "unat a' < unat b" by (simp add: word_less_nat_alt)
    with s1(3) have m: "unat b - unat a' < unat b - unat a" by linarith
    from less.hyps[OF m s1(1) d s1(2) True less.prems(5)] obtain s' where s': "unmap_loop d a' b s1 = Some s'" "pt_inv D ex s'"
      "unmapped D d (unat a') (unat b) s1 s'" by blast
    have "unmapped D d (unat a) (unat b) s s'"
      by (rule unmapped_trans[OF un s'(3)]) (use s1(3) \<open>unat a' < unat b\<close> in simp_all)
    with s'(1,2) True s1(3) show ?thesis by auto
  next
    case False
    then have "unat b \<le> unat a'" by (simp add: word_le_nat_alt not_less)
    with un ab s1(1) False show ?thesis by auto
  qed
  show ?case
  proof (cases "present (frame s d (PDX a))")
    case False
    let ?a = "ROUNDDOWN (a + PTSIZE) PTSIZE"
    have ua: "unat ?a = (PDX a + 1) * 4194304" using unat_next_table[OF a] .
    have lt: "unat a < unat ?a" unfolding ua PDX_div using dividend_less_div_times[of 4194304 "unat a"] by simp
    have "unmap_loop d a b s = (if ?a \<noteq> 0 \<and> ?a < b then unmap_loop d ?a b s else Some s)"
      by (subst unmap_loop.simps) (simp add: get_pte_find[OF inv d a] False)
    moreover have "?a mod PGSIZE = 0" unfolding aligned_iff ua by simp
    ultimately show ?thesis using rec[OF inv _ lt] unmap_step_absent[OF inv d less.prems(3) a False] ua by simp
  next
    case True
    from unmap_step_present[OF inv d less.prems(3) a True] obtain s1 where
      s1: "(if frame s (tab s (d, PDX a)) (PTX a) \<noteq> 0 then page_remove_pte (tab s (d, PDX a), PTX a) s else Some s) = Some s1"
        "pt_inv D ex s1" "\<And>u. unat a < u \<Longrightarrow> u \<le> unat a + 4096 \<Longrightarrow> unmapped D d (unat a) u s s1" by blast
    have "unmap_loop d a b s = (if a + PGSIZE \<noteq> 0 \<and> a + PGSIZE < b then unmap_loop d (a + PGSIZE) b s1 else Some s1)"
      by (subst unmap_loop.simps) (simp only: get_pte_find[OF inv d a] True if_True Option.bind.simps prod.case option.case s1(1))
    moreover have "(a + PGSIZE) mod PGSIZE = 0" using less.prems(3) unat_next_page[OF a] by (simp add: aligned_iff)
    ultimately show ?thesis using rec[OF s1(2), of "a + PGSIZE"] s1(3) unat_next_page[OF a] by simp
  qed
qed

subsection \<open>Copying a range\<close>

definition content :: "pgmem \<Rightarrow> slot \<Rightarrow> nat \<Rightarrow> u32" where
  "content s z = frame s (PPN (pte s z))"

text \<open>The slot of directory \<open>to\<close> is a private copy, in \<open>s'\<close>, of the page that \<open>src\<close> maps at the same address in \<open>s\<close>.\<close>

definition private_copy :: "nat set \<Rightarrow> slot \<Rightarrow> slot \<Rightarrow> pgmem \<Rightarrow> pgmem \<Rightarrow> bool" where
  "private_copy D x y s s' \<longleftrightarrow> present (pte s' y) \<and> pte s' y AND PTE_USER = pte s x AND PTE_USER \<and>
     content s' y = content s x \<and> (\<forall>z \<in> slots D. present (pte s z) \<longrightarrow> PPN (pte s z) \<noteq> PPN (pte s' y))"

definition same_slot :: "slot \<Rightarrow> pgmem \<Rightarrow> pgmem \<Rightarrow> bool" where
  "same_slot z s s' \<longleftrightarrow> pte s' z = pte s z \<and> (present (pte s z) \<longrightarrow> content s' z = content s z)"

definition copied :: "nat set \<Rightarrow> nat \<Rightarrow> nat \<Rightarrow> nat set \<Rightarrow> pgmem \<Rightarrow> pgmem \<Rightarrow> bool" where
  "copied D to src A s s' \<longleftrightarrow>
     (\<forall>d i j. (d, i, j) \<in> slots D \<longrightarrow>
        (if d = to \<and> slot_addr (d, i, j) \<in> A \<and> present (pte s (src, i, j))
         then private_copy D (src, i, j) (to, i, j) s s' else same_slot (d, i, j) s s'))"

definition unmapped_in :: "nat set \<Rightarrow> nat \<Rightarrow> nat set \<Rightarrow> pgmem \<Rightarrow> bool" where
  "unmapped_in D d A s \<longleftrightarrow> (\<forall>z \<in> slots D. fst z = d \<and> slot_addr z \<in> A \<longrightarrow> \<not> present (pte s z))"

lemma copied_refl:
  assumes "\<And>i j. (src, i, j) \<in> slots D \<Longrightarrow> slot_addr (src, i, j) \<in> A \<Longrightarrow> \<not> present (pte s (src, i, j))"
    "src \<in> D"
  shows "copied D to src A s s"
  using assms by (auto simp: copied_def same_slot_def slots_def slot_addr_def)

lemma copied_trans:
  assumes c: "copied D to src A s s1" "copied D to src B s1 s2" and AB: "A \<inter> B = {}"
    and D: "to \<noteq> src" "src \<in> D" and free: "unmapped_in D to A s"
  shows "copied D to src (A \<union> B) s s2"
  unfolding copied_def
proof (intro allI impI)
  fix d i j assume z: "(d, i, j) \<in> slots D"
  have x: "(src, i, j) \<in> slots D" using z D(2) by (simp add: slots_def)
  have addr: "slot_addr (src, i, j) = slot_addr (d, i, j)" by (simp add: slot_addr_def)
  have C1: "if d = to \<and> slot_addr (d, i, j) \<in> A \<and> present (pte s (src, i, j))
         then private_copy D (src, i, j) (to, i, j) s s1 else same_slot (d, i, j) s s1" if "(d, i, j) \<in> slots D" for d i j
    using c(1) that unfolding copied_def by blast
  have C2: "if d = to \<and> slot_addr (d, i, j) \<in> B \<and> present (pte s1 (src, i, j))
         then private_copy D (src, i, j) (to, i, j) s1 s2 else same_slot (d, i, j) s1 s2"
    using c(2) z unfolding copied_def by blast
  have src1: "same_slot (src, i, j) s s1" using C1[OF x] D(1) by simp
  have keep: "same_slot y s s1" if y: "y \<in> slots D" "present (pte s y)" for y
  proof -
    obtain d' i' j' where yy: "y = (d', i', j')" by (cases y)
    have "\<not> (d' = to \<and> slot_addr y \<in> A)"
      using free y unfolding unmapped_in_def by (auto simp: yy)
    then show ?thesis using C1[of d' i' j'] y(1) unfolding yy by argo
  qed
  show "if d = to \<and> slot_addr (d, i, j) \<in> A \<union> B \<and> present (pte s (src, i, j))
        then private_copy D (src, i, j) (to, i, j) s s2 else same_slot (d, i, j) s s2"
  proof (cases "d = to \<and> slot_addr (d, i, j) \<in> A \<union> B \<and> present (pte s (src, i, j))")
    case False
    then have "same_slot (d, i, j) s s1" using C1[OF z] by (auto split: if_splits)
    moreover have "same_slot (d, i, j) s1 s2"
      using C2 False src1 by (auto simp: same_slot_def split: if_splits)
    ultimately show ?thesis using False by (auto simp: same_slot_def)
  next
    case True
    show ?thesis
    proof (cases "slot_addr (d, i, j) \<in> A")
      case lt: True
      then have "private_copy D (src, i, j) (to, i, j) s s1" using C1[OF z] True by auto
      moreover have "same_slot (to, i, j) s1 s2" using C2 lt True AB by (auto split: if_splits)
      ultimately show ?thesis using True by (auto simp: private_copy_def same_slot_def)
    next
      case False
      then have p: "private_copy D (src, i, j) (to, i, j) s1 s2" using C2 True src1 by (auto simp: same_slot_def)
      have "PPN (pte s y) \<noteq> PPN (pte s2 (to, i, j))" if "y \<in> slots D" "present (pte s y)" for y
        using keep[OF that] p that by (auto simp: private_copy_def same_slot_def)
      then show ?thesis using p src1 True by (auto simp: private_copy_def same_slot_def)
    qed
  qed
qed

lemma copied_unmapped:
  assumes "copied D to src A s s1" "unmapped_in D to B s" "A \<inter> B = {}"
  shows "unmapped_in D to B s1"
  unfolding unmapped_in_def
proof (intro ballI impI)
  fix z assume z: "z \<in> slots D" "fst z = to \<and> slot_addr z \<in> B"
  then have "slot_addr z \<notin> A" using assms(3) by auto
  with z have "same_slot z s s1" using assms(1) by (cases z) (auto simp: copied_def)
  moreover have "\<not> present (pte s z)" using assms(2) z unfolding unmapped_in_def by auto
  ultimately show "\<not> present (pte s1 z)" by (simp add: same_slot_def)
qed

lemma entry_perm:
  assumes "present w"
  shows "(page2pa p OR PTE_P OR (w AND PTE_USER)) AND PTE_USER = w AND PTE_USER"
proof -
  have u: "PTE_USER = mask 3" by (simp add: mmu_defs mask_eq_exp_minus_1)
  show ?thesis unfolding u
    by (rule bit_word_eqI) (use assms in \<open>auto simp: bit_simps page2pa_def PTE_P_def present_bit bit_1_iff\<close>)
qed

lemma PTE_P_less: "PTE_P < 4096"
  by (simp add: PTE_P_def)

lemma user_perm_less: "w AND PTE_USER < 4096"
proof -
  have "w AND PTE_USER \<le> PTE_USER" by (simp add: word_and_le1)
  moreover have "PTE_USER < 4096" by (simp add: mmu_defs)
  ultimately show ?thesis by simp
qed

lemma inv_set_frame:
  assumes inv: "pt_inv D ex s" and p: "data_page D s p" and s': "s' = set_frame p ws s"
  shows "pt_inv D ex s'" "z \<in> slots D \<Longrightarrow> pte s' z = pte s z" "data_page D s' q = data_page D s q"
proof -
  have f: "frame s' q = (if q = p then ws else frame s q)" for q by (simp add: s' set_frame_def)
  have pD: "p \<notin> D" "p \<notin> table_frames D s" using p by (simp_all add: data_page_def)
  have D: "frame s' q = frame s q" if "q \<in> D \<or> q \<in> table_frames D s" for q using that pD by (auto simp: f)
  have T: "tables D s' = tables D s" by (auto simp: tables_def D)
  have t: "tab s' y = tab s y" if "y \<in> tables D s" for y using that by (auto simp: tab_def tables_def D)
  have TF: "table_frames D s' = table_frames D s" unfolding table_frames_def T using t by (simp cong: image_cong)
  show P: "pte s' z = pte s z" if "z \<in> slots D" for z
  proof -
    obtain d i j where z: "z = (d, i, j)" "d \<in> D" "i < 704" using \<open>z \<in> slots D\<close> by (cases z) (auto simp: slots_def)
    show ?thesis
    proof (cases "present (frame s d i)")
      case True
      then have "tab s (d, i) \<in> table_frames D s" using z by (auto simp: table_frames_def tables_def)
      then show ?thesis using True D z by (simp add: z pte_def tab_def)
    qed (use D z in \<open>simp add: pte_def\<close>)
  qed
  have a: "area s' = area s" "npage s' = npage s" by (simp_all add: s' set_frame_def)
  show dp: "data_page D s' q = data_page D s q" for q by (simp add: data_page_def used_def a TF)
  have U: "used s' = used s" "page_ref q s' = page_ref q s" for q by (simp_all add: used_def page_ref_def a fun_eq_iff)
  have occ: "occ D s' q = occ D s q" for q using P by (auto simp: occ_def)
  have inj: "inj_on (tab s') (tables D s)" using pt_invD(5)[OF inv] by (simp add: inj_on_def t)
  show "pt_inv D ex s'" unfolding pt_inv_def a T TF dp U occ
    using pt_invD(1-4,6-8)[OF inv] inj pt_invD(9)[OF inv] P pt_invD(10-12)[OF inv] by auto
qed

lemma copy_page_ok:
  assumes inv: "pt_inv D ex s" and D: "to \<in> D" "src \<in> D" "to \<noteq> src" and a: "a < USERTOP"
    and p: "present (frame s src (PDX a))" "present (pte s (src, PDX a, PTX a))" "\<not> present (pte s (to, PDX a, PTX a))"
    and n: "3 \<le> nr_free (area s)"
  shows "\<exists>s'. copy_page to (tab s (src, PDX a), PTX a) a s = Some (0, s') \<and> pt_inv D ex s' \<and>
    nr_free (area s) \<le> nr_free (area s') + 3 \<and> npage s' = npage s \<and>
    (\<forall>z \<in> slots D. z \<noteq> (to, PDX a, PTX a) \<longrightarrow> same_slot z s s') \<and>
    private_copy D (src, PDX a, PTX a) (to, PDX a, PTX a) s s'"
proof -
  let ?x = "(src, PDX a, PTX a)" and ?y = "(to, PDX a, PTX a)" and ?t = "tab s (src, PDX a)"
  have xs: "?x \<in> slots D" "?y \<in> slots D" using D PDX_less[OF a] by (simp_all add: slots_def)
  have t: "(src, PDX a) \<in> tables D s" using D p(1) PDX_less[OF a] by (simp add: tables_def)
  from get_pte_make[OF inv D(1) a] n obtain s1 where s1:
    "get_pte to a True s = Some (Some (tab s1 (to, PDX a), PTX a), s1)" "pt_inv D ex s1"
    "\<And>z. z \<in> slots D \<Longrightarrow> pte s1 z = pte s z" "keeps_data D s s1" "nr_free (area s) \<le> nr_free (area s1) + 1"
    "tables D s \<subseteq> tables D s1" "tab s1 (src, PDX a) = ?t" using t by auto
  have e1: "frame s1 ?t (PTX a) = pte s ?x"
    using s1(3)[OF xs(1)] s1(6,7) t by (auto simp: pte_def tab_def tables_def)
  define q where "q = PPN (pte s ?x)"
  have q: "data_page D s q" using pt_invD(9)[OF inv xs(1) p(2)] by (simp add: q_def)
  have q1: "data_page D s1 q" "frame s1 q = frame s q" using s1(4) q by (simp_all add: keeps_data_def)
  have ql: "q < npage s1" "q < 2 ^ 20" using q1 pt_invD(2)[OF s1(2)] by (simp_all add: data_page_def used_def)
  have p2p: "pte2page (pte s ?x) s1 = Some q" using p(2) ql by (simp add: pte2page_def pa2page_def q_def)
  from inv_alloc[OF s1(2)] s1(5) n obtain np s2 where s2: "alloc_pages 1 s1 = Some (Some np, s2)" "pt_inv D ex s2" "data_page D s2 np"
    "\<not> data_page D s1 np" "np < npage s1" "pte s2 = pte s1" "frame s2 = frame s1" "keeps_data D s1 s2" "nr_free (area s2) + 1 = nr_free (area s1)"
    by auto
  have nl: "npage s2 = npage s" "npage s1 = npage s" "np < 2 ^ 20" using s1(4) s2(5,8) pt_invD(2)[OF s1(2)] by (simp_all add: keeps_data_def)
  define s3 where "s3 = set_frame np (frame s1 q) s2"
  note F = inv_set_frame[OF s2(2,3) s3_def]
  have f3: "frame s3 r = (if r = np then frame s q else frame s1 r)" for r by (simp add: s3_def set_frame_def s2(7) q1)
  have s3q: "set_frame np (frame s q) s2 = s3" by (simp add: s3_def q1)
  have a3: "area s3 = area s2" "npage s3 = npage s" by (simp_all add: s3_def set_frame_def nl)
  have z3: "pte s3 z = pte s z" if "z \<in> slots D" for z using F(2)[OF that] that s2(6) s1(3) by simp
  let ?perm = "pte s ?x AND PTE_USER"
  have n3: "0 < nr_free (area s3)" using a3 s2(9) s1(5) n by simp
  have d3: "data_page D s3 np" using F(3) s2(3) by simp
  from page_insert_ok[OF F(1) D(1) a n3 d3 user_perm_less[of "pte s ?x"]] obtain s4 where
    s4: "page_insert to np a ?perm s3 = Some (0, s4)" "pt_inv D ex s4"
      "\<And>z. z \<in> slots D \<Longrightarrow> pte s4 z = (if z = ?y then page2pa np OR PTE_P OR ?perm else pte s3 z)" "npage s4 = npage s3"
      "nr_free (area s3) \<le> nr_free (area s4) + 1" "\<And>r. data_page D s3 r \<Longrightarrow> frame s4 r = frame s3 r" by blast
  have run: "copy_page to (?t, PTX a) a s = Some (0, s4)"
    using s1(1) s2(1) s4(1) p2p ql nl s2(5) q1
    by (simp add: copy_page_def e1 kaddr_frame_def s2(7) s3q)
  have np: "PPN (pte s z) \<noteq> np" "data_page D s3 (PPN (pte s z))" if "z \<in> slots D" "present (pte s z)" for z
  proof -
    have "data_page D s1 (PPN (pte s z))" using pt_invD(9)[OF s1(2) that(1)] s1(3)[OF that(1)] that(2) by simp
    with s2(4) show "PPN (pte s z) \<noteq> np" by auto
    show "data_page D s3 (PPN (pte s z))" using pt_invD(9)[OF F(1) that(1)] z3[OF that(1)] that(2) by simp
  qed
  have w: "PPN (pte s4 ?y) = np" "present (pte s4 ?y)"
    using s4(3)[OF xs(2)] nl(3) or_less_page[OF _ user_perm_less[of "pte s ?x"], of PTE_P] PTE_P_less by simp_all
  have "same_slot z s s4" if z: "z \<in> slots D" "z \<noteq> ?y" for z
  proof -
    have "frame s4 (PPN (pte s z)) = frame s (PPN (pte s z))" if "present (pte s z)"
      using s4(6)[OF np(2)[OF z(1) that]] np(1)[OF z(1) that] s1(4) pt_invD(9)[OF inv z(1) that] by (simp add: f3 keeps_data_def)
    then show ?thesis using s4(3)[OF z(1)] z(2) z3[OF z(1)] by (simp add: same_slot_def content_def)
  qed
  moreover have "content s4 ?y = content s ?x"
    using s4(6)[OF d3] by (simp add: content_def w f3 q_def)
  then have "private_copy D ?x ?y s s4"
    using w np(1) entry_perm[OF p(2), of np] s4(3)[OF xs(2)] by (simp add: private_copy_def)
  moreover have "nr_free (area s) \<le> nr_free (area s4) + 3" using s1(5) s2(9) s4(5) a3 by simp
  ultimately show ?thesis using run s4(2,4) a3(2) by auto
qed

lemma copy_loop_ok:
  assumes "pt_inv D ex s" "to \<in> D" "src \<in> D" "to \<noteq> src" "a mod PGSIZE = 0" "b mod PGSIZE = 0" "a < b" "b \<le> USERTOP"
    "unmapped_in D to {unat a..<unat b} s" "3 * ((unat b - unat a) div 4096) \<le> nr_free (area s)"
  shows "\<exists>s'. copy_loop to src a b s = Some (0, s') \<and> pt_inv D ex s' \<and> copied D to src {unat a..<unat b} s s' \<and>
    nr_free (area s) \<le> nr_free (area s') + 3 * ((unat b - unat a) div 4096)"
  using assms
proof (induction "unat b - unat a" arbitrary: a s rule: less_induct)
  case less
  note inv = less.prems(1) and D = less.prems(2-4) and free = less.prems(9)
  have a: "a < USERTOP" using less.prems(7,8) by simp
  have ab: "unat a < unat b" using less.prems(7) by (simp add: word_less_nat_alt)
  have al: "unat a mod 4096 = 0" "unat b mod 4096 = 0" using less.prems(5,6) by (simp_all add: aligned_iff)
  have rec: "\<exists>s'. (if a' \<noteq> 0 \<and> a' < b then copy_loop to src a' b s1 else Some (0, s1)) = Some (0, s') \<and> pt_inv D ex s' \<and>
      copied D to src {unat a..<unat b} s s' \<and> nr_free (area s) \<le> nr_free (area s') + 3 * ((unat b - unat a) div 4096)"
    if s1: "pt_inv D ex s1" "a' mod PGSIZE = 0" "unat a < unat a'"
      and c: "\<And>u. unat a < u \<Longrightarrow> u \<le> unat a' \<Longrightarrow> copied D to src {unat a..<u} s s1"
      and n: "unat a' \<le> unat b \<Longrightarrow> 3 * ((unat b - unat a') div 4096) \<le> nr_free (area s1)"
      and nn: "nr_free (area s) \<le> nr_free (area s1) + 3 * ((unat b - unat a) div 4096 - (unat b - unat a') div 4096)" for a' s1
  proof (cases "a' < b")
    case True
    then have lt: "unat a' < unat b" by (simp add: word_less_nat_alt)
    with s1(3) have m: "unat b - unat a' < unat b - unat a" by linarith
    have c': "copied D to src {unat a..<unat a'} s s1" using c s1(3) by simp
    have "unmapped_in D to {unat a'..<unat b} s" using free s1(3) by (auto simp: unmapped_in_def)
    from copied_unmapped[OF c' this] have "unmapped_in D to {unat a'..<unat b} s1" by simp
    from less.hyps[OF m s1(1) D s1(2) less.prems(6) True less.prems(8) this] n lt obtain s' where
      s': "copy_loop to src a' b s1 = Some (0, s')" "pt_inv D ex s'" "copied D to src {unat a'..<unat b} s1 s'"
        "nr_free (area s1) \<le> nr_free (area s') + 3 * ((unat b - unat a') div 4096)" by auto
    have "(unat b - unat a') div 4096 \<le> (unat b - unat a) div 4096" using s1(3) by (intro div_le_mono) simp
    with nn s'(4) have "nr_free (area s) \<le> nr_free (area s') + 3 * ((unat b - unat a) div 4096)" by linarith
    moreover
    have "copied D to src {unat a..<unat b} s s'"
    proof -
      have "{unat a..<unat b} = {unat a..<unat a'} \<union> {unat a'..<unat b}" using s1(3) lt by auto
      moreover have "unmapped_in D to {unat a..<unat a'} s" using free lt by (auto simp: unmapped_in_def)
      ultimately show ?thesis using copied_trans[OF c' s'(3) _ D(3,2)] by auto
    qed
    ultimately show ?thesis using s'(1,2) True s1(3) by auto
  next
    case False
    then have "unat b \<le> unat a'" by (simp add: word_le_nat_alt not_less)
    with c ab s1(1) False nn show ?thesis by auto
  qed
  show ?case
  proof (cases "present (frame s src (PDX a))")
    case False
    let ?a = "ROUNDDOWN (a + PTSIZE) PTSIZE"
    have ua: "unat ?a = (PDX a + 1) * 4194304" using unat_next_table[OF a] .
    have lt: "unat a < unat ?a" unfolding ua PDX_div using dividend_less_div_times[of 4194304 "unat a"] by simp
    have run: "copy_loop to src a b s = (if ?a \<noteq> 0 \<and> ?a < b then copy_loop to src ?a b s else Some (0, s))"
      by (subst copy_loop.simps) (simp add: get_pte_find[OF inv D(2) a] False Let_def)
    have al': "?a mod PGSIZE = 0" unfolding aligned_iff ua by simp
    have cr: "copied D to src {unat a..<u} s s" if "u \<le> unat ?a" for u
    proof (rule copied_refl[OF _ D(2)])
      fix i j assume "(src, i, j) \<in> slots D" "slot_addr (src, i, j) \<in> {unat a..<u}"
      with unmap_step_absent[OF inv D(2) less.prems(5) a False, of u] that ua
      show "\<not> present (pte s (src, i, j))" by (auto simp: unmapped_def dest!: bspec)
    qed
    have "3 * ((unat b - unat ?a) div 4096) \<le> nr_free (area s)"
    proof -
      have "(unat b - unat ?a) div 4096 \<le> (unat b - unat a) div 4096" using lt by (intro div_le_mono) simp
      then show ?thesis using less.prems(10) by linarith
    qed
    then show ?thesis unfolding run by (intro rec[OF inv al' lt] cr) simp_all
  next
    case True
    let ?x = "(src, PDX a, PTX a)" and ?y = "(to, PDX a, PTX a)" and ?t = "tab s (src, PDX a)"
    have ua: "unat (a + PGSIZE) = unat a + 4096" using unat_next_page[OF a] .
    have al': "(a + PGSIZE) mod PGSIZE = 0" using less.prems(5) ua by (simp add: aligned_iff)
    have xs: "?x \<in> slots D" "?y \<in> slots D" using D PDX_less[OF a] by (simp_all add: slots_def)
    have e: "frame s ?t (PTX a) = pte s ?x" using True by (simp add: pte_def tab_def)
    have step: "(unat b - unat a) div 4096 = Suc ((unat b - unat (a + PGSIZE)) div 4096)"
    proof -
      have "4096 dvd unat b - unat a" using al by (simp add: mod_eq_0_iff_dvd)
      then have "4096 \<le> unat b - unat a" using ab by (simp add: dvd_imp_le)
      then show ?thesis unfolding ua by (simp add: div_if[of "unat b - unat a" 4096] diff_diff_left)
    qed
    have free_y: "\<not> present (pte s ?y)"
      using free xs(2) ab slot_addr_self[OF less.prems(5), of to] unfolding unmapped_in_def by force
    have cp: "\<exists>s1. (if present (pte s ?x) then copy_page to (?t, PTX a) a s else Some (0, s)) = Some (0, s1) \<and> pt_inv D ex s1 \<and>
      nr_free (area s) \<le> nr_free (area s1) + 3 \<and> (\<forall>u. unat a < u \<longrightarrow> u \<le> unat a + 4096 \<longrightarrow> copied D to src {unat a..<u} s s1)"
    proof (cases "present (pte s ?x)")
      case px: True
      have "3 \<le> nr_free (area s)" using less.prems(10) step by simp
      from copy_page_ok[OF inv D a True px free_y this] obtain s1 where
        s1: "copy_page to (?t, PTX a) a s = Some (0, s1)" "pt_inv D ex s1" "nr_free (area s) \<le> nr_free (area s1) + 3"
          "\<And>z. z \<in> slots D \<Longrightarrow> z \<noteq> ?y \<Longrightarrow> same_slot z s s1" "private_copy D ?x ?y s s1" by blast
      have "copied D to src {unat a..<u} s s1" if u: "unat a < u" "u \<le> unat a + 4096" for u
        unfolding copied_def
      proof (intro allI impI)
        fix d i j assume z: "(d, i, j) \<in> slots D"
        have o: "(d, i, j) = ?y \<longleftrightarrow> d = to \<and> unat a \<le> slot_addr (d, i, j) \<and> slot_addr (d, i, j) < u"
          using slot_only[OF less.prems(5) z u, of to] by simp
        show "if d = to \<and> slot_addr (d, i, j) \<in> {unat a..<u} \<and> present (pte s (src, i, j))
          then private_copy D (src, i, j) (to, i, j) s s1 else same_slot (d, i, j) s s1"
        proof (cases "(d, i, j) = ?y")
          case True
          then show ?thesis using s1(5) px o by auto
        next
          case False
          then show ?thesis using s1(4)[OF z False] o by auto
        qed
      qed
      with s1(1-3) px show ?thesis by auto
    next
      case False
      have "copied D to src {unat a..<u} s s" if u: "unat a < u" "u \<le> unat a + 4096" for u
      proof (rule copied_refl[OF _ D(2)])
        fix i j assume "(src, i, j) \<in> slots D" "slot_addr (src, i, j) \<in> {unat a..<u}"
        with slot_only[OF less.prems(5) _ u, of "(src, i, j)" D src] False show "\<not> present (pte s (src, i, j))" by auto
      qed
      with inv False show ?thesis by auto
    qed
    then obtain s1 where s1: "(if present (pte s ?x) then copy_page to (?t, PTX a) a s else Some (0, s)) = Some (0, s1)" "pt_inv D ex s1"
      "nr_free (area s) \<le> nr_free (area s1) + 3" "\<And>u. unat a < u \<Longrightarrow> u \<le> unat a + 4096 \<Longrightarrow> copied D to src {unat a..<u} s s1" by blast
    have "copy_loop to src a b s = (if a + PGSIZE \<noteq> 0 \<and> a + PGSIZE < b then copy_loop to src (a + PGSIZE) b s1 else Some (0, s1))"
      by (subst copy_loop.simps) (simp add: get_pte_find[OF inv D(2) a] True e s1(1) Let_def)
    moreover have "3 * ((unat b - unat (a + PGSIZE)) div 4096) \<le> nr_free (area s1)"
      "nr_free (area s) \<le> nr_free (area s1) + 3 * ((unat b - unat a) div 4096 - (unat b - unat (a + PGSIZE)) div 4096)"
      using less.prems(10) s1(3) step by linarith+
    ultimately show ?thesis using rec[OF s1(2) al'] s1(4) ua by simp
  qed
qed

subsection \<open>Properties\<close>

text \<open>Thirty frames: 1 and 2 are page directories, 3 a data page, 10 to 29 are free.\<close>

definition demo_pgmem :: pgmem where
  "demo_pgmem = \<lparr>area = \<lparr>pages = (\<lambda>p. \<lparr>ref = 0, reserved = False, has_property = p = 10, property = if p = 10 then 20 else 0, zone_num = 0\<rparr>),
       free_list = [10], nr_free = 20\<rparr>, frame = (\<lambda>_ _. 0), npage = 30, swap_init_ok = True\<rparr>"

lemma demo_pgmem_inv: "pt_inv {1, 2} (\<lambda>_. 0) demo_pgmem" "data_page {1, 2} demo_pgmem 3"
proof -
  have f: "free_set (area demo_pgmem) = {10..<30}" by (simp add: demo_pgmem_def free_set_def block_def)
  have "firstfit_inv (area demo_pgmem)"
    by (simp add: firstfit_inv_def area_inv_def apart_def f) (simp add: demo_pgmem_def)
  moreover have p: "pte demo_pgmem z = 0" for z by (cases z) (simp add: pte_def demo_pgmem_def)
  moreover have t: "tables D demo_pgmem = {}" for D by (auto simp: tables_def demo_pgmem_def)
  ultimately show "pt_inv {1, 2} (\<lambda>_. 0) demo_pgmem"
    by (auto simp: pt_inv_def table_frames_def f used_def occ_def page_ref_def) (auto simp: demo_pgmem_def)
  show "data_page {1, 2} demo_pgmem 3" by (simp add: data_page_def used_def f table_frames_def t) (simp add: demo_pgmem_def)
qed

lemma get_page_mapped:
  assumes inv: "pt_inv D ex s" and d: "d \<in> D" "la < USERTOP" and p: "present (pte s (d, PDX la, PTX la))"
  shows "get_page d la s = Some (Some (PPN (pte s (d, PDX la, PTX la))), s)"
proof -
  have xs: "(d, PDX la, PTX la) \<in> slots D" using d PDX_less by (simp add: slots_def)
  have t: "present (frame s d (PDX la))" using p by (auto simp: pte_def split: if_splits)
  then have e: "frame s (tab s (d, PDX la)) (PTX la) = pte s (d, PDX la, PTX la)" by (simp add: pte_def tab_def)
  have "PPN (pte s (d, PDX la, PTX la)) < npage s" using pt_invD(9)[OF inv xs p] by (simp add: data_page_def used_def)
  then show ?thesis using p t e by (simp add: get_page_def get_pte_find[OF inv d] pte2page_def pa2page_def)
qed

text \<open>
  C22. Mapping a page: with a free frame for a possible page table, \<^verbatim>\<open>page_insert\<close> succeeds; afterwards
  \<^verbatim>\<open>get_page\<close> finds the page at that address with the permissions asked for, every other entry of every
  address space is as before, and again every page is counted once per entry that maps it, so that
  a page is freed exactly when its last mapping is replaced.
\<close>

theorem page_insert_maps:
  assumes "pt_inv D ex s" "d \<in> D" "la < USERTOP" "0 < nr_free (area s)" "data_page D s p" "perm < 4096"
  shows "\<exists>s'. page_insert d p la perm s = Some (0, s') \<and> pt_inv D ex s' \<and> get_page d la s' = Some (Some p, s') \<and>
    (\<forall>z \<in> slots D. pte s' z = (if z = (d, PDX la, PTX la) then page2pa p OR PTE_P OR perm else pte s z)) \<and>
    (\<forall>q. data_page D s q \<longrightarrow> frame s' q = frame s q \<and> (0 < page_ref q s' \<longrightarrow> data_page D s' q))"
proof -
  from page_insert_ok[OF assms] obtain s' where s': "page_insert d p la perm s = Some (0, s')" "pt_inv D ex s'"
    "\<forall>z \<in> slots D. pte s' z = (if z = (d, PDX la, PTX la) then page2pa p OR PTE_P OR perm else pte s z)"
    "\<forall>q. data_page D s q \<longrightarrow> frame s' q = frame s q \<and> (0 < page_ref q s' \<longrightarrow> data_page D s' q)" by blast
  have xs: "(d, PDX la, PTX la) \<in> slots D" using assms(2,3) PDX_less by (simp add: slots_def)
  have "p < 2 ^ 20" using assms(5) pt_invD(2)[OF assms(1)] by (simp add: data_page_def used_def)
  then have "PPN (pte s' (d, PDX la, PTX la)) = p" "present (pte s' (d, PDX la, PTX la))"
    using bspec[OF s'(3) xs] or_less_page[OF PTE_P_less assms(6)] by simp_all
  with get_page_mapped[OF s'(2) assms(2,3)] s' show ?thesis by auto
qed

theorem page_insert_maps_witness:
  "\<exists>s'. page_insert 1 3 0x400000 (PTE_U OR PTE_W) demo_pgmem = Some (0, s') \<and> get_page 1 0x400000 s' = Some (Some 3, s')"
proof -
  have "(0x400000 :: u32) < USERTOP" "0 < nr_free (area demo_pgmem)" "PTE_U OR PTE_W < 4096"
    by (simp_all add: mmu_defs demo_pgmem_def)
  with page_insert_maps[OF demo_pgmem_inv(1) _ _ _ demo_pgmem_inv(2), of 1 "0x400000" "PTE_U OR PTE_W"] show ?thesis by auto
qed



text \<open>
  C24. \<^verbatim>\<open>copy_range\<close>, the copy of an address space made by \<^verbatim>\<open>fork\<close>: with enough free frames it returns 0, and
  every page the source maps in the range is mapped by the target at the same address with the same
  permissions and contents, in a frame that no address space mapped before; nothing else changes,
  the contents of all other mapped pages included.
\<close>

theorem copy_range_isolates:
  assumes "pt_inv D ex s" "to \<in> D" "src \<in> D" "to \<noteq> src" "a mod PGSIZE = 0" "b mod PGSIZE = 0" "USER_ACCESS a b"
    "unmapped_in D to {unat a..<unat b} s" "3 * ((unat b - unat a) div 4096) \<le> nr_free (area s)"
  shows "\<exists>s'. copy_range to src a b s = Some (0, s') \<and> pt_inv D ex s' \<and> copied D to src {unat a..<unat b} s s'"
  using copy_loop_ok[OF assms(1-6) _ _ assms(8,9)] assms(5-7) by (auto simp: copy_range_def USER_ACCESS_def)

theorem copy_range_isolates_witness:
  "\<exists>s s'. present (pte s (1, 1, 0)) \<and> copy_range 2 1 0x400000 0x401000 s = Some (0, s') \<and> content s' (2, 1, 0) = content s (1, 1, 0)"
proof -
  have la: "(0x400000 :: u32) < USERTOP" "0 < nr_free (area demo_pgmem)" "PTE_U < 4096" "PDX 0x400000 = 1" "PTX 0x400000 = 0"
    by (simp_all add: mmu_defs demo_pgmem_def PDX_div PTX_mod)
  from page_insert_ok[OF demo_pgmem_inv(1) _ la(1,2) demo_pgmem_inv(2) la(3), of 1] obtain s where
    s: "pt_inv {1, 2} (\<lambda>_. 0) s" "nr_free (area demo_pgmem) \<le> nr_free (area s) + 1"
      "\<forall>z \<in> slots {1, 2}. pte s z = (if z = (1, 1, 0) then page2pa 3 OR PTE_P OR PTE_U else pte demo_pgmem z)"
    unfolding la(4,5) by auto
  have p0: "pte demo_pgmem z = 0" for z by (cases z) (simp add: pte_def demo_pgmem_def)
  have x: "(1, 1, 0) \<in> slots {1, 2}" "(2, 1, 0) \<in> slots {1, 2}" by (simp_all add: slots_def)
  have p: "present (pte s (1, 1, 0))" using bspec[OF s(3) x(1)] by simp
  have "unmapped_in {1, 2} 2 {unat (0x400000 :: u32)..<unat (0x401000 :: u32)} s"
    unfolding unmapped_in_def using s(3) p0 by auto
  moreover have "3 * ((unat (0x401000 :: u32) - unat (0x400000 :: u32)) div 4096) \<le> nr_free (area s)"
    using s(2) by (simp add: demo_pgmem_def)
  moreover have "(0x400000 :: u32) mod PGSIZE = 0" "(0x401000 :: u32) mod PGSIZE = 0" "USER_ACCESS 0x400000 0x401000"
    by (simp_all add: mmu_defs USER_ACCESS_def)
  ultimately obtain s' where s': "copy_range 2 1 0x400000 0x401000 s = Some (0, s')"
    "copied {1, 2} 2 1 {unat (0x400000 :: u32)..<unat (0x401000 :: u32)} s s'"
    using copy_range_isolates[OF s(1), of 2 1 "0x400000" "0x401000"] by auto
  have "private_copy {1, 2} (1, 1, 0) (2, 1, 0) s s'"
    using s'(2)[unfolded copied_def, rule_format, OF x(2)] p by (simp add: slot_addr_def)
  then show ?thesis using p s'(1) by (auto simp: private_copy_def)
qed

end
