(* ===== verification/Vmm.thy ===== *)
theory Vmm
  imports Pgtable
begin

text \<open>
  Virtual memory areas, \<^verbatim>\<open>kern/mm/vmm.c\<close>. The areas of an address space are records in a store, named by
  their addresses; the list \<^verbatim>\<open>mmap_list\<close> is the sequence of these addresses. The invariant \<open>vm_inv\<close> says
  that the list is sorted and its areas are disjoint; under it the search with its one-entry cache is
  the reference search, and the checks of user addresses accept exactly the ranges covered by areas
  with the right permissions. Page faults and the duplication of an address space work on the page tables of theory
  \<open>Pgtable\<close>.
\<close>

unbundle bit_operations_syntax

type_synonym addr = nat

record vma_struct =
  vm_start :: u32
  vm_end :: u32
  vm_flags :: u32
  last_used_time :: u32

record mm_struct =
  mmap_list :: "addr list"
  mmap_cache :: "addr option"
  pgdir :: "nat option"
  map_count :: int
  max_map :: int
  mm_users :: int

record vstate =
  vmas :: "addr \<Rightarrow> vma_struct"
  time_now :: u32

definition VM_READ :: u32 where "VM_READ = 1"
definition VM_WRITE :: u32 where "VM_WRITE = 2"
definition VM_EXEC :: u32 where "VM_EXEC = 4"
definition VM_STACK :: u32 where "VM_STACK = 8"

lemmas vm_flag_defs = VM_READ_def VM_WRITE_def VM_EXEC_def VM_STACK_def

definition mm_count_inc :: "mm_struct \<Rightarrow> int \<times> mm_struct" where
  "mm_count_inc m = (mm_users m + 1, m\<lparr>mm_users := mm_users m + 1\<rparr>)"

definition mm_count_dec :: "mm_struct \<Rightarrow> int \<times> mm_struct" where
  "mm_count_dec m = (mm_users m - 1, m\<lparr>mm_users := mm_users m - 1\<rparr>)"

definition mm_create :: mm_struct where
  "mm_create = \<lparr>mmap_list = [], mmap_cache = None, pgdir = None, map_count = 0, max_map = 10, mm_users = 0\<rparr>"

text \<open>\<open>v\<close> is the address \<^verbatim>\<open>kmalloc\<close> returned, \<open>None\<close> if it failed.\<close>

definition vma_create :: "addr option \<Rightarrow> u32 \<Rightarrow> u32 \<Rightarrow> u32 \<Rightarrow> vstate \<Rightarrow> vstate" where
  "vma_create v a b fl st = (case v of None \<Rightarrow> st
     | Some p \<Rightarrow> st\<lparr>vmas := (vmas st)(p := \<lparr>vm_start = a, vm_end = b, vm_flags = fl, last_used_time = 0\<rparr>)\<rparr>)"

definition in_vma :: "vma_struct \<Rightarrow> u32 \<Rightarrow> bool" where
  "in_vma v a \<longleftrightarrow> vm_start v \<le> a \<and> a < vm_end v"

subsection \<open>Searching and inserting\<close>

definition find_vma :: "u32 \<Rightarrow> mm_struct \<Rightarrow> vstate \<Rightarrow> addr option \<times> mm_struct \<times> vstate" where
  "find_vma a m st =
     (let r = (case mmap_cache m of
                 Some v \<Rightarrow> if in_vma (vmas st v) a then Some v else find (\<lambda>v. in_vma (vmas st v) a) (mmap_list m)
               | None \<Rightarrow> find (\<lambda>v. in_vma (vmas st v) a) (mmap_list m))
      in case r of None \<Rightarrow> (None, m, st)
         | Some v \<Rightarrow> (Some v, m\<lparr>mmap_cache := Some v\<rparr>,
             st\<lparr>vmas := (vmas st)(v := (vmas st v)\<lparr>last_used_time := time_now st\<rparr>)\<rparr>))"

definition check_vma_overlap :: "vma_struct \<Rightarrow> vma_struct \<Rightarrow> unit option" where
  "check_vma_overlap v w = do {
     kassert (vm_start v < vm_end v);
     kassert (vm_end v \<le> vm_start w);
     kassert (vm_start w < vm_end w) }"

definition insert_vma_struct :: "addr \<Rightarrow> mm_struct \<Rightarrow> vstate \<Rightarrow> mm_struct option" where
  "insert_vma_struct v m st = do {
     kassert (vm_start (vmas st v) < vm_end (vmas st v));
     let before = takeWhile (\<lambda>p. \<not> vm_start (vmas st p) > vm_start (vmas st v)) (mmap_list m);
     let after = drop (length before) (mmap_list m);
     _ \<leftarrow> (if before \<noteq> [] then check_vma_overlap (vmas st (last before)) (vmas st v) else Some ());
     _ \<leftarrow> (case after of [] \<Rightarrow> Some () | n # _ \<Rightarrow> check_vma_overlap (vmas st v) (vmas st n));
     Some (m\<lparr>mmap_list := before @ v # after, map_count := map_count m + 1\<rparr>) }"

text \<open>The areas \<^verbatim>\<open>mm_destroy\<close> frees.\<close>

definition mm_destroy :: "mm_struct \<Rightarrow> addr list option" where
  "mm_destroy m = do { kassert (mm_users m = 0); Some (mmap_list m) }"

definition mm_map :: "u32 \<Rightarrow> u32 \<Rightarrow> u32 \<Rightarrow> addr option \<Rightarrow> mm_struct \<Rightarrow> vstate \<Rightarrow> (int \<times> mm_struct \<times> vstate) option" where
  "mm_map a len fl new m st = do {
     let st = st\<lparr>time_now := time_now st + 1\<rparr>;
     let s = ROUNDDOWN a PGSIZE;
     let e = ROUNDUP (a + len) PGSIZE;
     if \<not> USER_ACCESS s e then Some (- E_INVAL, m, st)
     else (case find_vma s m st of (r, m, st) \<Rightarrow>
       (case r of
          Some v \<Rightarrow>
            if e > vm_start (vmas st v) then Some (- E_INVAL, m, st)
            else (case new of None \<Rightarrow> Some (- E_NO_MEM, m, st)
              | Some n \<Rightarrow> do {
                  let st = vma_create new s e fl st;
                  m \<leftarrow> insert_vma_struct n m st;
                  Some (0, m, st) })
        | None \<Rightarrow>
            (case new of None \<Rightarrow> Some (- E_NO_MEM, m, st)
              | Some n \<Rightarrow> do {
                  let st = vma_create new s e fl st;
                  m \<leftarrow> insert_vma_struct n m st;
                  Some (0, m, st) }))) }"

subsection \<open>Duplicating and tearing down\<close>

text \<open>
  The loop of \<^verbatim>\<open>dup_mmap\<close> over the areas still to copy (from the last to the first); \<open>news\<close> are the results
  of the calls of \<^verbatim>\<open>kmalloc\<close>, \<open>to\<close> and \<open>from\<close> the two page directories.
\<close>

fun dup_loop :: "addr list \<Rightarrow> addr option list \<Rightarrow> nat \<Rightarrow> nat \<Rightarrow> mm_struct \<Rightarrow> vstate \<Rightarrow> pgmem \<Rightarrow> (int \<times> mm_struct \<times> vstate \<times> pgmem) option" where
  "dup_loop [] news to src m st pg = Some (0, m, st, pg)"
| "dup_loop (v # vs) [] to src m st pg = Some (- E_NO_MEM, m, st, pg)"
| "dup_loop (v # vs) (new # news) to src m st pg =
     (let vma = vmas st v; st = vma_create new (vm_start vma) (vm_end vma) (vm_flags vma) st
      in case new of None \<Rightarrow> Some (- E_NO_MEM, m, st, pg)
         | Some n \<Rightarrow> do {
             m \<leftarrow> insert_vma_struct n m st;
             (r, pg) \<leftarrow> copy_range to src (vm_start vma) (vm_end vma) pg;
             if r \<noteq> 0 then Some (- E_NO_MEM, m, st, pg) else dup_loop vs news to src m st pg })"

definition dup_mmap :: "addr option list \<Rightarrow> mm_struct \<Rightarrow> mm_struct \<Rightarrow> vstate \<Rightarrow> pgmem \<Rightarrow> (int \<times> mm_struct \<times> vstate \<times> pgmem) option" where
  "dup_mmap news to from st pg = do {
     dt \<leftarrow> pgdir to;
     df \<leftarrow> pgdir from;
     dup_loop (rev (mmap_list from)) news dt df to st pg }"

fun range_all :: "(u32 \<Rightarrow> u32 \<Rightarrow> pgmem \<Rightarrow> pgmem option) \<Rightarrow> vma_struct list \<Rightarrow> pgmem \<Rightarrow> pgmem option" where
  "range_all f [] pg = Some pg"
| "range_all f (v # vs) pg = do { pg \<leftarrow> f (vm_start v) (vm_end v) pg; range_all f vs pg }"

definition exit_mmap :: "mm_struct \<Rightarrow> vstate \<Rightarrow> pgmem \<Rightarrow> pgmem option" where
  "exit_mmap m st pg = do {
     kassert (mm_users m = 0);
     d \<leftarrow> pgdir m;
     pg \<leftarrow> range_all (unmap_range d) (map (vmas st) (mmap_list m)) pg;
     range_all (exit_range d) (map (vmas st) (mmap_list m)) pg }"

subsection \<open>Access to user memory\<close>

partial_function (option) user_check_loop :: "u32 \<Rightarrow> u32 \<Rightarrow> bool \<Rightarrow> mm_struct \<Rightarrow> vstate \<Rightarrow> (bool \<times> mm_struct \<times> vstate) option" where
  "user_check_loop s e w m st =
     (if s < e then
        (case find_vma s m st of (r, m, st) \<Rightarrow>
          (case r of None \<Rightarrow> Some (False, m, st)
           | Some v \<Rightarrow>
               (let vma = vmas st v in
                if s < vm_start vma then Some (False, m, st)
                else if vm_flags vma AND (if w then VM_WRITE else VM_READ) = 0 then Some (False, m, st)
                else if w \<and> vm_flags vma AND VM_STACK \<noteq> 0 \<and> s < vm_start vma + PGSIZE then Some (False, m, st)
                else user_check_loop (vm_end vma) e w m st)))
      else Some (True, m, st))"

definition user_mem_check :: "mm_struct option \<Rightarrow> u32 \<Rightarrow> u32 \<Rightarrow> bool \<Rightarrow> vstate \<Rightarrow> (bool \<times> mm_struct option \<times> vstate) option" where
  "user_mem_check mo a len w st =
     (case mo of
        Some m \<Rightarrow>
          if \<not> USER_ACCESS a (a + len) then Some (False, mo, st)
          else map_option (\<lambda>(r, m, st). (r, Some m, st)) (user_check_loop a (a + len) w m st)
      | None \<Rightarrow> Some (KERN_ACCESS a (a + len), None, st))"

type_synonym vmem = "u32 \<Rightarrow> u8"

text \<open>The bytes of the current address space as the kernel sees them.\<close>

definition memcpy_bytes :: "u32 \<Rightarrow> u32 \<Rightarrow> u32 \<Rightarrow> vmem \<Rightarrow> vmem" where
  "memcpy_bytes dst src n mem = (\<lambda>a. if a - dst < n then mem (src + (a - dst)) else mem a)"

definition copy_from_user :: "mm_struct option \<Rightarrow> u32 \<Rightarrow> u32 \<Rightarrow> u32 \<Rightarrow> bool \<Rightarrow> vstate \<Rightarrow> vmem \<Rightarrow> (bool \<times> mm_struct option \<times> vstate \<times> vmem) option" where
  "copy_from_user m dst src len w st mem = do {
     (ok, m, st) \<leftarrow> user_mem_check m src len w st;
     Some (ok, m, st, if ok then memcpy_bytes dst src len mem else mem) }"

definition copy_to_user :: "mm_struct option \<Rightarrow> u32 \<Rightarrow> u32 \<Rightarrow> u32 \<Rightarrow> vstate \<Rightarrow> vmem \<Rightarrow> (bool \<times> mm_struct option \<times> vstate \<times> vmem) option" where
  "copy_to_user m dst src len st mem = do {
     (ok, m, st) \<leftarrow> user_mem_check m dst len True st;
     Some (ok, m, st, if ok then memcpy_bytes dst src len mem else mem) }"

text \<open>\<^verbatim>\<open>strnlen\<close> on the bytes from \<open>a\<close> on.\<close>

definition strnlen_at :: "vmem \<Rightarrow> u32 \<Rightarrow> nat \<Rightarrow> nat" where
  "strnlen_at mem a n = length (takeWhile (\<lambda>i. mem (a + of_nat i) \<noteq> 0) [0..<n])"

partial_function (option) copy_string_loop :: "mm_struct option \<Rightarrow> u32 \<Rightarrow> u32 \<Rightarrow> u32 \<Rightarrow> u32 \<Rightarrow> vstate \<Rightarrow> vmem \<Rightarrow> (bool \<times> mm_struct option \<times> vstate \<times> vmem) option" where
  "copy_string_loop m dst src maxn part st mem = do {
     let part = (if part > maxn then maxn else part);
     (ok, m, st) \<leftarrow> user_mem_check m src part False st;
     if \<not> ok then Some (False, m, st, mem)
     else (let alen = strnlen_at mem src (unat part) in
       if alen < unat part then Some (True, m, st, memcpy_bytes dst src (of_nat alen + 1) mem)
       else if part = maxn then Some (False, m, st, mem)
       else copy_string_loop m (dst + part) (src + part) (maxn - part) PGSIZE st (memcpy_bytes dst src part mem)) }"

definition copy_string :: "mm_struct option \<Rightarrow> u32 \<Rightarrow> u32 \<Rightarrow> u32 \<Rightarrow> vstate \<Rightarrow> vmem \<Rightarrow> (bool \<times> mm_struct option \<times> vstate \<times> vmem) option" where
  "copy_string m dst src maxn st mem =
     copy_string_loop m dst src maxn (ROUNDDOWN (src + PGSIZE) PGSIZE - src) st mem"

subsection \<open>Page faults\<close>

text \<open>
  \<open>swap_in\<close> is the result of reading the page back from the swap device: an error code, or the frame it
  was read into and the state after.
\<close>

definition do_pgfault :: "u32 \<Rightarrow> u32 \<Rightarrow> (u32 \<Rightarrow> pgmem \<Rightarrow> int \<times> nat \<times> pgmem) \<Rightarrow> mm_struct \<Rightarrow> vstate \<Rightarrow> pgmem \<Rightarrow> (int \<times> mm_struct \<times> vstate \<times> pgmem) option" where
  "do_pgfault err a swap_in m st pg =
     (case find_vma a m st of (r, m, st) \<Rightarrow>
       (case r of None \<Rightarrow> Some (- E_INVAL, m, st, pg)
        | Some v \<Rightarrow>
           (let vma = vmas st v in
            if vm_start vma > a then Some (- E_INVAL, m, st, pg)
            else if err AND 3 = 1 then Some (- E_INVAL, m, st, pg)
            else if err AND 3 = 0 \<and> vm_flags vma AND (VM_READ OR VM_EXEC) = 0 then Some (- E_INVAL, m, st, pg)
            else if err AND 3 \<notin> {0, 1} \<and> vm_flags vma AND VM_WRITE = 0 then Some (- E_INVAL, m, st, pg)
            else do {
              let perm = (if vm_flags vma AND VM_WRITE \<noteq> 0 then PTE_U OR PTE_W else PTE_U);
              let la = ROUNDDOWN a PGSIZE;
              d \<leftarrow> pgdir m;
              (ptep, pg) \<leftarrow> get_pte d la True pg;
              (case ptep of None \<Rightarrow> Some (- E_NO_MEM, m, st, pg)
               | Some (t, j) \<Rightarrow>
                   if frame pg t j = 0 then do {
                     (r, pg) \<leftarrow> pgdir_alloc_page d la perm pg;
                     Some (if r = None then - E_NO_MEM else 0, m, st, pg) }
                   else if present (frame pg t j) then kpanic
                   else if \<not> swap_init_ok pg then Some (- E_NO_MEM, m, st, pg)
                   else (case swap_in la pg of (ret, page, pg) \<Rightarrow>
                     if ret \<noteq> 0 then Some (ret, m, st, pg)
                     else do {
                       (_, pg) \<leftarrow> page_insert d page la perm pg;
                       Some (0, m, st, pg) })) })))"

subsection \<open>Sorted, disjoint areas\<close>

definition vm_inv :: "mm_struct \<Rightarrow> vstate \<Rightarrow> bool" where
  "vm_inv m st \<longleftrightarrow> distinct (mmap_list m) \<and> (\<forall>v \<in> set (mmap_list m). vm_start (vmas st v) < vm_end (vmas st v)) \<and>
     sorted_wrt (\<lambda>v w. vm_end (vmas st v) \<le> vm_start (vmas st w)) (mmap_list m) \<and>
     (\<forall>v. mmap_cache m = Some v \<longrightarrow> v \<in> set (mmap_list m))"

text \<open>The part of the areas that searches do not change.\<close>

definition same_areas :: "vstate \<Rightarrow> vstate \<Rightarrow> bool" where
  "same_areas st st' \<longleftrightarrow> (\<forall>v. vm_start (vmas st' v) = vm_start (vmas st v) \<and> vm_end (vmas st' v) = vm_end (vmas st v) \<and>
     vm_flags (vmas st' v) = vm_flags (vmas st v))"

lemma same_areas_refl [simp]: "same_areas st st"
  by (simp add: same_areas_def)

lemma same_areas_trans: "same_areas st st' \<Longrightarrow> same_areas st' st'' \<Longrightarrow> same_areas st st''"
  by (simp add: same_areas_def)

lemma in_vma_same: "same_areas st st' \<Longrightarrow> in_vma (vmas st' v) a = in_vma (vmas st v) a"
  by (simp add: same_areas_def in_vma_def)

lemma vm_inv_same: "same_areas st st' \<Longrightarrow> vm_inv m st' = vm_inv m st"
  by (simp add: same_areas_def vm_inv_def)

lemma sorted_wrt_apart:
  assumes "vm_inv m st" "v \<in> set (mmap_list m)" "w \<in> set (mmap_list m)" "v \<noteq> w"
  shows "vm_end (vmas st v) \<le> vm_start (vmas st w) \<or> vm_end (vmas st w) \<le> vm_start (vmas st v)"
proof -
  from split_list[OF assms(2)] obtain xs ys where xs: "mmap_list m = xs @ v # ys" by blast
  with assms show ?thesis by (auto simp: vm_inv_def sorted_wrt_append)
qed

lemma area_unique:
  assumes "vm_inv m st" "v \<in> set (mmap_list m)" "w \<in> set (mmap_list m)" "in_vma (vmas st v) a" "in_vma (vmas st w) a"
  shows "v = w"
  using sorted_wrt_apart[OF assms(1-3)] assms(4,5) by (fastforce simp: in_vma_def)

lemma find_unique: "v \<in> set xs \<Longrightarrow> P v \<Longrightarrow> (\<And>w. w \<in> set xs \<Longrightarrow> P w \<Longrightarrow> w = v) \<Longrightarrow> find P xs = Some v"
proof (induction xs)
  case (Cons x xs)
  show ?case
  proof (cases "P x")
    case True
    then have "x = v" using Cons.prems(3) by simp
    with True show ?thesis by simp
  next
    case False
    with Cons.prems(1,2) have "v \<in> set xs" by auto
    then have "find P xs = Some v" using Cons.prems(2) by (rule Cons.IH) (rule Cons.prems(3), simp_all)
    with False show ?thesis by simp
  qed
qed simp

lemma find_vma_ok:
  assumes inv: "vm_inv m st"
  shows "find_vma a m st = (r, m', st') \<Longrightarrow> r = find (\<lambda>v. in_vma (vmas st v) a) (mmap_list m) \<and> vm_inv m' st' \<and>
    same_areas st st' \<and> mmap_list m' = mmap_list m \<and> pgdir m' = pgdir m \<and> time_now st' = time_now st"
proof -
  assume f: "find_vma a m st = (r, m', st')"
  let ?ref = "find (\<lambda>v. in_vma (vmas st v) a) (mmap_list m)"
  have "(case mmap_cache m of Some v \<Rightarrow> if in_vma (vmas st v) a then Some v else ?ref | None \<Rightarrow> ?ref) = ?ref"
  proof (cases "mmap_cache m")
    case (Some v)
    then have "v \<in> set (mmap_list m)" using inv by (simp add: vm_inv_def)
    then have "in_vma (vmas st v) a \<Longrightarrow> ?ref = Some v" using area_unique[OF inv] by (intro find_unique) auto
    then show ?thesis using Some by auto
  qed simp
  with f have r: "r = ?ref" "m' = (case ?ref of None \<Rightarrow> m | Some v \<Rightarrow> m\<lparr>mmap_cache := Some v\<rparr>)"
    "st' = (case ?ref of None \<Rightarrow> st | Some v \<Rightarrow> st\<lparr>vmas := (vmas st)(v := (vmas st v)\<lparr>last_used_time := time_now st\<rparr>)\<rparr>)"
    by (auto simp: find_vma_def Let_def split: option.splits)
  have sa: "same_areas st st'" by (auto simp: r(3) same_areas_def split: option.splits)
  have l: "mmap_list m' = mmap_list m" "pgdir m' = pgdir m" "time_now st' = time_now st" by (auto simp: r split: option.splits)
  have "vm_inv m' st" using inv by (auto simp: vm_inv_def r(2) find_Some_iff split: option.splits)
  with vm_inv_same[OF sa] r(1) sa l show ?thesis by auto
qed

lemma find_vma_Some:
  assumes "vm_inv m st" "find_vma a m st = (Some v, m', st')"
  shows "v \<in> set (mmap_list m)" "in_vma (vmas st v) a"
  using find_vma_ok[OF assms] by (auto simp: find_Some_iff dest!: sym[of "Some v"])

lemma find_vma_None:
  assumes "vm_inv m st" "find_vma a m st = (None, m', st')" "v \<in> set (mmap_list m)"
  shows "\<not> in_vma (vmas st v) a"
  using find_vma_ok[OF assms(1,2)] assms(3) by (auto simp: find_None_iff dest!: sym[of None])

subsection \<open>Insertion\<close>

definition disjoint_areas :: "vma_struct \<Rightarrow> vma_struct \<Rightarrow> bool" where
  "disjoint_areas v w \<longleftrightarrow> vm_end v \<le> vm_start w \<or> vm_end w \<le> vm_start v"

lemma insert_vma_ok:
  assumes inv: "vm_inv m st" and v: "v \<notin> set (mmap_list m)" "vm_start (vmas st v) < vm_end (vmas st v)"
  shows "if \<forall>w \<in> set (mmap_list m). disjoint_areas (vmas st v) (vmas st w)
    then \<exists>m'. insert_vma_struct v m st = Some m' \<and> vm_inv m' st \<and> set (mmap_list m') = insert v (set (mmap_list m)) \<and>
      map_count m' = map_count m + 1 \<and> pgdir m' = pgdir m
    else insert_vma_struct v m st = None"
proof -
  let ?P = "\<lambda>p. \<not> vm_start (vmas st p) > vm_start (vmas st v)"
  define xs where "xs = takeWhile ?P (mmap_list m)"
  define ys where "ys = dropWhile ?P (mmap_list m)"
  have L: "mmap_list m = xs @ ys" by (simp add: xs_def ys_def)
  have ys': "drop (length xs) (mmap_list m) = ys" by (simp add: L)
  have S: "sorted_wrt (\<lambda>v w. vm_end (vmas st v) \<le> vm_start (vmas st w)) (xs @ ys)"
    "\<And>w. w \<in> set (xs @ ys) \<Longrightarrow> vm_start (vmas st w) < vm_end (vmas st w)"
    using inv by (auto simp: vm_inv_def L)
  have lo: "vm_start (vmas st w) \<le> vm_start (vmas st v)" if "w \<in> set xs" for w
    using that by (auto simp: xs_def not_less dest: set_takeWhileD)
  have hi: "ys \<noteq> [] \<Longrightarrow> vm_start (vmas st v) < vm_start (vmas st (hd ys))"
    using hd_dropWhile[of ?P "mmap_list m"] by (simp add: ys_def not_le)
  define okp where "okp \<longleftrightarrow> (xs \<noteq> [] \<longrightarrow> vm_end (vmas st (last xs)) \<le> vm_start (vmas st v))"
  define okn where "okn \<longleftrightarrow> (ys \<noteq> [] \<longrightarrow> vm_end (vmas st v) \<le> vm_start (vmas st (hd ys)))"
  have run: "insert_vma_struct v m st = (if okp \<and> okn then Some (m\<lparr>mmap_list := xs @ v # ys, map_count := map_count m + 1\<rparr>) else None)"
    using v(2) S(2)[of "last xs"] S(2)[of "hd ys"] ys'
    by (auto simp: insert_vma_struct_def okp_def okn_def check_vma_overlap_def Let_def simp flip: xs_def split: list.splits if_splits)
  have all_lo: "vm_end (vmas st w) \<le> vm_start (vmas st v)" if ok: "okp" and w: "w \<in> set xs" for w
  proof -
    obtain zs where zs: "xs = zs @ [last xs]" using w by (metis append_butlast_last_id empty_iff empty_set)
    then have "w = last xs \<or> vm_end (vmas st w) \<le> vm_start (vmas st (last xs))"
      using S(1) w by (metis (mono_tags, lifting) Un_iff insert_iff list.set(2) set_append sorted_wrt_append list.set(1) empty_iff)
    then show ?thesis using ok w lo[of "last xs"] by (cases "xs = []") (auto simp: okp_def intro: order.trans)
  qed
  have all_hi: "vm_end (vmas st v) \<le> vm_start (vmas st w)" if ok: "okn" and w: "w \<in> set ys" for w
  proof -
    obtain y zs where y: "ys = y # zs" using w by (cases ys) auto
    then have "w = y \<or> vm_end (vmas st y) \<le> vm_start (vmas st w)" using S(1) w by (auto simp: sorted_wrt_append)
    moreover have "vm_start (vmas st y) < vm_end (vmas st y)" using S(2) y by simp
    ultimately show ?thesis using ok y by (auto simp: okn_def)
  qed
  have iff: "okp \<and> okn \<longleftrightarrow> (\<forall>w \<in> set (mmap_list m). disjoint_areas (vmas st v) (vmas st w))"
  proof
    show "\<forall>w \<in> set (mmap_list m). disjoint_areas (vmas st v) (vmas st w)" if "okp \<and> okn"
      using that all_lo all_hi by (auto simp: L disjoint_areas_def)
    assume d: "\<forall>w \<in> set (mmap_list m). disjoint_areas (vmas st v) (vmas st w)"
    have okp unfolding okp_def
    proof
      assume "xs \<noteq> []"
      then have "last xs \<in> set xs" by simp
      then have "disjoint_areas (vmas st v) (vmas st (last xs))" "vm_start (vmas st (last xs)) \<le> vm_start (vmas st v)"
        using d lo by (simp_all add: L)
      then show "vm_end (vmas st (last xs)) \<le> vm_start (vmas st v)"
        using v(2) unfolding disjoint_areas_def by (elim disjE; order)
    qed
    moreover have okn unfolding okn_def
    proof
      assume "ys \<noteq> []"
      then have "hd ys \<in> set ys" by simp
      then have "disjoint_areas (vmas st v) (vmas st (hd ys))" "vm_start (vmas st (hd ys)) < vm_end (vmas st (hd ys))"
        using d S(2)[of "hd ys"] by (simp_all add: L)
      then show "vm_end (vmas st v) \<le> vm_start (vmas st (hd ys))"
        using hi[OF \<open>ys \<noteq> []\<close>] unfolding disjoint_areas_def by (elim disjE; order)
    qed
    ultimately show "okp \<and> okn" by blast
  qed
  show ?thesis
  proof (cases "okp \<and> okn")
    case True
    have "vm_inv (m\<lparr>mmap_list := xs @ v # ys, map_count := map_count m + 1\<rparr>) st"
      using inv v S True all_lo all_hi by (auto simp: vm_inv_def L sorted_wrt_append)
    with True run iff show ?thesis by (auto simp: L)
  next
    case False
    with run iff show ?thesis by auto
  qed
qed

subsection \<open>Mapping a range\<close>

lemma mm_map_cases:
  assumes inv: "vm_inv m st" and n: "n \<notin> set (mmap_list m)"
    and r: "s = ROUNDDOWN a PGSIZE" "e = ROUNDUP (a + len) PGSIZE" "USER_ACCESS s e"
    and new_area: "new_area = \<lparr>vm_start = s, vm_end = e, vm_flags = fl, last_used_time = 0\<rparr>"
  shows "if \<exists>v \<in> set (mmap_list m). in_vma (vmas st v) s
    then \<exists>m' st'. mm_map a len fl (Some n) m st = Some (- E_INVAL, m', st') \<and> vm_inv m' st' \<and> mmap_list m' = mmap_list m
    else if \<forall>v \<in> set (mmap_list m). disjoint_areas new_area (vmas st v)
    then \<exists>m' st'. mm_map a len fl (Some n) m st = Some (0, m', st') \<and> vm_inv m' st' \<and>
      set (mmap_list m') = insert n (set (mmap_list m)) \<and> vmas st' n = new_area \<and> (\<forall>v. v \<noteq> n \<longrightarrow> vmas st' v = vmas st v)
    else mm_map a len fl (Some n) m st = None"
proof -
  define st0 where "st0 = st\<lparr>time_now := time_now st + 1\<rparr>"
  have s0: "vmas st0 = vmas st" by (simp add: st0_def)
  have inv0: "vm_inv m st0" using inv by (simp add: vm_inv_def s0)
  obtain r m1 st1 where f: "find_vma s m st0 = (r, m1, st1)" by (cases "find_vma s m st0")
  note F = find_vma_ok[OF inv0 f]
  have se: "s < e" using r(3) by (simp add: USER_ACCESS_def)
  show ?thesis
  proof (cases r)
    case (Some v)
    from find_vma_Some[OF inv0 f[unfolded Some]] have v: "v \<in> set (mmap_list m)" "in_vma (vmas st v) s" by (simp_all add: s0)
    have "vm_start (vmas st1 v) = vm_start (vmas st v)" using F by (simp add: same_areas_def s0)
    then have "e > vm_start (vmas st1 v)" using v(2) se by (auto simp: in_vma_def)
    then have "mm_map a len fl (Some n) m st = Some (- E_INVAL, m1, st1)"
      using f r Some by (simp add: mm_map_def Let_def flip: st0_def)
    with v F show ?thesis by auto
  next
    case None
    then have no: "\<not> (\<exists>v \<in> set (mmap_list m). in_vma (vmas st v) s)"
      using find_vma_None[OF inv0 f[unfolded None]] by (auto simp: s0)
    have m1: "m1 = m" "st1 = st0" using f None by (auto simp: find_vma_def Let_def split: option.splits if_splits)
    define st2 where "st2 = vma_create (Some n) s e fl st0"
    have V: "vmas st2 = (vmas st)(n := new_area)" by (simp add: st2_def vma_create_def s0 new_area)
    have vn: "vmas st2 v = vmas st v" if "v \<in> set (mmap_list m)" for v using that n by (auto simp: V)
    have inv2: "vm_inv m st2"
    proof -
      have "sorted_wrt (\<lambda>v w. vm_end (vmas st2 v) \<le> vm_start (vmas st2 w)) (mmap_list m) =
          sorted_wrt (\<lambda>v w. vm_end (vmas st v) \<le> vm_start (vmas st w)) (mmap_list m)"
        using vn by (intro iffI; elim sorted_wrt_mono_rel[rotated]) auto
      with inv vn show ?thesis by (auto simp: vm_inv_def)
    qed
    have run: "mm_map a len fl (Some n) m st = map_option (\<lambda>m. (0, m, st2)) (insert_vma_struct n m st2)"
      using f r(3) None
      by (simp add: mm_map_def Let_def m1 r(1,2)[symmetric] flip: st0_def) (cases "insert_vma_struct n m st2"; simp flip: st2_def)
    have "vm_start (vmas st2 n) < vm_end (vmas st2 n)" using se by (simp add: V new_area)
    note I = insert_vma_ok[OF inv2 n this]
    have D: "(\<forall>w \<in> set (mmap_list m). disjoint_areas (vmas st2 n) (vmas st2 w)) \<longleftrightarrow> (\<forall>v \<in> set (mmap_list m). disjoint_areas new_area (vmas st v))"
      using vn by (simp add: V)
    show ?thesis
    proof (cases "\<forall>v \<in> set (mmap_list m). disjoint_areas new_area (vmas st v)")
      case True
      with I D obtain m' where "insert_vma_struct n m st2 = Some m'" "vm_inv m' st2" "set (mmap_list m') = insert n (set (mmap_list m))" by auto
      with no True run V show ?thesis by auto
    next
      case False
      with I D have "insert_vma_struct n m st2 = None" by (simp only: if_False)
      with no False run show ?thesis by auto
    qed
  qed
qed

subsection \<open>Checking user addresses\<close>

definition access_ok :: "bool \<Rightarrow> vma_struct \<Rightarrow> u32 \<Rightarrow> bool" where
  "access_ok w v a \<longleftrightarrow> in_vma v a \<and> vm_flags v AND (if w then VM_WRITE else VM_READ) \<noteq> 0 \<and>
     \<not> (w \<and> vm_flags v AND VM_STACK \<noteq> 0 \<and> a < vm_start v + PGSIZE)"

definition accessible :: "bool \<Rightarrow> mm_struct \<Rightarrow> vstate \<Rightarrow> u32 \<Rightarrow> u32 \<Rightarrow> bool" where
  "accessible w m st s e \<longleftrightarrow> (\<forall>a. s \<le> a \<and> a < e \<longrightarrow> (\<exists>v \<in> set (mmap_list m). access_ok w (vmas st v) a))"

lemma accessible_same:
  assumes "same_areas st st'" "mmap_list m' = mmap_list m"
  shows "accessible w m' st' s e = accessible w m st s e"
  using assms by (simp add: accessible_def access_ok_def in_vma_def same_areas_def)

lemma user_check_loop_ok:
  assumes "vm_inv m st"
  shows "\<exists>m' st'. user_check_loop s e w m st = Some (accessible w m st s e, m', st') \<and> vm_inv m' st' \<and> same_areas st st' \<and>
    mmap_list m' = mmap_list m"
  using assms
proof (induction "unat e - unat s" arbitrary: s m st rule: less_induct)
  case less
  show ?case
  proof (cases "s < e")
    case False
    then have "accessible w m st s e" by (auto simp: accessible_def)
    with False less.prems show ?thesis by (subst user_check_loop.simps) auto
  next
    case True
    obtain r m1 st1 where f: "find_vma s m st = (r, m1, st1)" by (cases "find_vma s m st")
    note F = find_vma_ok[OF less.prems f]
    show ?thesis
    proof (cases r)
      case None
      have "\<not> accessible w m st s e"
        using find_vma_None[OF less.prems f[unfolded None]] True unfolding accessible_def access_ok_def by blast
      with True f None F show ?thesis by (subst user_check_loop.simps) auto
    next
      case (Some v)
      note v = find_vma_Some[OF less.prems f[unfolded Some]]
      have eq: "vm_start (vmas st1 v) = vm_start (vmas st v)" "vm_end (vmas st1 v) = vm_end (vmas st v)" "vm_flags (vmas st1 v) = vm_flags (vmas st v)"
        using F by (simp_all add: same_areas_def)
      have iff: "access_ok w (vmas st u) s \<longleftrightarrow> u = v \<and> access_ok w (vmas st v) s" if "u \<in> set (mmap_list m)" for u
        using area_unique[OF less.prems that v(1) _ v(2)] by (auto simp: access_ok_def)
      have run: "user_check_loop s e w m st = (if access_ok w (vmas st v) s then user_check_loop (vm_end (vmas st v)) e w m1 st1 else Some (False, m1, st1))"
        using True v(2) by (subst user_check_loop.simps) (auto simp: f Some eq access_ok_def in_vma_def Let_def)
      show ?thesis
      proof (cases "access_ok w (vmas st v) s")
        case False
        then have "\<not> accessible w m st s e" using iff True unfolding accessible_def by blast
        with run False F show ?thesis by auto
      next
        case ok: True
        have lt: "s < vm_end (vmas st v)" using v(2) by (simp add: in_vma_def)
        then have "unat e - unat (vm_end (vmas st v)) < unat e - unat s" using True by (simp add: word_less_nat_alt)
        from less.hyps[OF this, of m1 st1] F obtain m2 st2 where
          I: "user_check_loop (vm_end (vmas st v)) e w m1 st1 = Some (accessible w m1 st1 (vm_end (vmas st v)) e, m2, st2)"
             "vm_inv m2 st2" "same_areas st1 st2" "mmap_list m2 = mmap_list m1" by auto
        have "accessible w m1 st1 (vm_end (vmas st v)) e = accessible w m st (vm_end (vmas st v)) e"
          using F by (intro accessible_same) auto
        also have "\<dots> = accessible w m st s e"
        proof
          show "accessible w m st (vm_end (vmas st v)) e" if "accessible w m st s e"
            using that lt by (auto simp: accessible_def)
          assume A: "accessible w m st (vm_end (vmas st v)) e"
          show "accessible w m st s e" unfolding accessible_def
          proof (intro allI impI)
            fix a assume a: "s \<le> a \<and> a < e"
            show "\<exists>v \<in> set (mmap_list m). access_ok w (vmas st v) a"
            proof (cases "a < vm_end (vmas st v)")
              case True
              then have "access_ok w (vmas st v) a" using ok a by (auto simp: access_ok_def in_vma_def)
              then show ?thesis using v(1) by blast
            next
              case False
              then show ?thesis using A a by (auto simp: accessible_def)
            qed
          qed
        qed
        finally show ?thesis using run ok I F by (auto intro: same_areas_trans)
      qed
    qed
  qed
qed

subsection \<open>Page faults\<close>

definition fault_allowed :: "u32 \<Rightarrow> vma_struct \<Rightarrow> bool" where
  "fault_allowed err v \<longleftrightarrow> err AND 3 \<noteq> 1 \<and>
     (if err AND 3 = 0 then vm_flags v AND (VM_READ OR VM_EXEC) \<noteq> 0 else vm_flags v AND VM_WRITE \<noteq> 0)"

lemma round_page: "PDX (ROUNDDOWN a PGSIZE) = PDX a" "PTX (ROUNDDOWN a PGSIZE) = PTX a" "a < USERTOP \<Longrightarrow> ROUNDDOWN a PGSIZE < USERTOP"
proof -
  have u: "unat (ROUNDDOWN a PGSIZE) = unat a div 4096 * 4096" by (subst unat_round) (simp_all add: PGSIZE_def)
  have "unat a div 4096 * 4096 div 4194304 = unat a div 4096 * 4096 div (4096 * 1024)" by simp
  also have "\<dots> = unat a div 4096 div 1024" by (simp only: div_mult2_eq)
  also have "\<dots> = unat a div 4194304" by (simp flip: div_mult2_eq)
  finally show "PDX (ROUNDDOWN a PGSIZE) = PDX a" by (simp add: PDX_div u)
  show "PTX (ROUNDDOWN a PGSIZE) = PTX a" by (simp add: PTX_mod u)
  have "unat a div 4096 * 4096 \<le> unat a" by simp
  then show "ROUNDDOWN a PGSIZE < USERTOP" if "a < USERTOP" using that by (simp add: word_less_nat_alt u)
qed

lemma do_pgfault_maps_page:
  assumes inv: "vm_inv m st" "pt_inv D ex pg" and d: "pgdir m = Some d" "d \<in> D" "a < USERTOP"
    and v: "v \<in> set (mmap_list m)" "in_vma (vmas st v) a" "fault_allowed err (vmas st v)"
    and z: "pte pg (d, PDX a, PTX a) = 0" "3 \<le> nr_free (area pg)"
  shows "\<exists>p m' st' pg'. do_pgfault err a swap_in m st pg = Some (0, m', st', pg') \<and> vm_inv m' st' \<and> pt_inv D ex pg' \<and>
    get_page d a pg' = Some (Some p, pg') \<and> \<not> data_page D pg p \<and>
    (\<forall>x \<in> slots D. pte pg' x = (if x = (d, PDX a, PTX a)
       then page2pa p OR PTE_P OR (if vm_flags (vmas st v) AND VM_WRITE \<noteq> 0 then PTE_U OR PTE_W else PTE_U) else pte pg x))"
proof -
  let ?la = "ROUNDDOWN a PGSIZE" and ?x = "(d, PDX a, PTX a)"
  note R = round_page(1,2) round_page(3)[OF d(3)]
  let ?perm = "if vm_flags (vmas st v) AND VM_WRITE \<noteq> 0 then PTE_U OR PTE_W else PTE_U"
  have perm: "?perm < 4096" by (simp add: mmu_defs)
  obtain r m1 st1 where f: "find_vma a m st = (r, m1, st1)" by (cases "find_vma a m st")
  note F = find_vma_ok[OF inv(1) f]
  have "find (\<lambda>v. in_vma (vmas st v) a) (mmap_list m) = Some v"
    using area_unique[OF inv(1) _ v(1) _ v(2)] by (intro find_unique v(1,2)) auto
  then have r: "r = Some v" using F by simp
  have eq: "vm_start (vmas st1 v) = vm_start (vmas st v)" "vm_flags (vmas st1 v) = vm_flags (vmas st v)"
    using F by (simp_all add: same_areas_def)
  have xs: "?x \<in> slots D" using d(2) PDX_less[OF d(3)] by (simp add: slots_def)
  from get_pte_make[OF inv(2) d(2) R(3)] z(2) obtain pg1 where
    g: "get_pte d ?la True pg = Some (Some (tab pg1 (d, PDX a), PTX a), pg1)" "pt_inv D ex pg1" "(d, PDX a) \<in> tables D pg1"
      "\<And>x. x \<in> slots D \<Longrightarrow> pte pg1 x = pte pg x" "keeps_data D pg pg1" "nr_free (area pg) \<le> nr_free (area pg1) + 1"
    unfolding R by auto
  have z1: "frame pg1 (tab pg1 (d, PDX a)) (PTX a) = 0"
    using g(4)[OF xs] z(1) g(3) by (simp add: pte_def tab_def tables_def)
  have "2 \<le> nr_free (area pg1)" using g(6) z(2) by simp
  from pgdir_alloc_page_ok[OF g(2) d(2) R(3) this perm] obtain p pg2 where
    p: "pgdir_alloc_page d ?la ?perm pg1 = Some (Some p, pg2)" "pt_inv D ex pg2" "\<not> data_page D pg1 p" "p < npage pg1"
      "\<forall>x \<in> slots D. pte pg2 x = (if x = ?x then page2pa p OR PTE_P OR ?perm else pte pg1 x)"
    unfolding R by blast
  have "do_pgfault err a swap_in m st pg = Some (0, m1, st1, pg2)"
    using f r v(2,3) eq g(1) z1 p(1) d(1) F
    by (auto simp: do_pgfault_def fault_allowed_def Let_def in_vma_def)
  moreover have "p < 2 ^ 20" using p(4) pt_invD(2)[OF g(2)] by simp
  then have "PPN (pte pg2 ?x) = p" "present (pte pg2 ?x)"
    using bspec[OF p(5) xs] or_less_page[OF PTE_P_less perm] by simp_all
  with get_page_mapped[OF p(2) d(2,3)] have "get_page d a pg2 = Some (Some p, pg2)" by simp
  moreover have "\<not> data_page D pg p" using g(5) p(3) by (auto simp: keeps_data_def)
  ultimately show ?thesis using F p(2,5) g(4) by (intro exI[of _ p] exI[of _ m1] exI[of _ st1] exI[of _ pg2]) simp
qed

lemma do_pgfault_refuses:
  assumes inv: "vm_inv m st" and v: "\<forall>v \<in> set (mmap_list m). in_vma (vmas st v) a \<longrightarrow> \<not> fault_allowed err (vmas st v)"
  shows "\<exists>m' st'. do_pgfault err a swap_in m st pg = Some (- E_INVAL, m', st', pg) \<and> vm_inv m' st'"
proof -
  obtain r m1 st1 where f: "find_vma a m st = (r, m1, st1)" by (cases "find_vma a m st")
  note F = find_vma_ok[OF inv f]
  show ?thesis
  proof (cases r)
    case None
    with f F show ?thesis by (simp add: do_pgfault_def)
  next
    case (Some v')
    note w = find_vma_Some[OF inv f[unfolded Some]]
    have "vm_flags (vmas st1 v') = vm_flags (vmas st v')" using F by (simp add: same_areas_def)
    moreover have "\<not> fault_allowed err (vmas st v')" using v w by blast
    ultimately show ?thesis using f Some F by (auto simp: do_pgfault_def Let_def fault_allowed_def split: if_splits)
  qed
qed

subsection \<open>Duplicating an address space\<close>

definition area_of :: "vma_struct \<Rightarrow> u32 \<times> u32 \<times> u32" where
  "area_of v = (vm_start v, vm_end v, vm_flags v)"

definition layout :: "mm_struct \<Rightarrow> vstate \<Rightarrow> (u32 \<times> u32 \<times> u32) list" where
  "layout m st = map (\<lambda>v. area_of (vmas st v)) (mmap_list m)"

definition span :: "vma_struct \<Rightarrow> nat set" where
  "span v = {unat (vm_start v)..<unat (vm_end v)}"

definition pages_of :: "vma_struct \<Rightarrow> nat" where
  "pages_of v = (unat (vm_end v) - unat (vm_start v)) div 4096"

definition user_area :: "vma_struct \<Rightarrow> bool" where
  "user_area v \<longleftrightarrow> vm_start v mod PGSIZE = 0 \<and> vm_end v mod PGSIZE = 0 \<and> USER_ACCESS (vm_start v) (vm_end v)"

lemma insert_vma_front:
  assumes "vm_inv m st" "v \<notin> set (mmap_list m)" "vm_start (vmas st v) < vm_end (vmas st v)"
    "\<And>w. w \<in> set (mmap_list m) \<Longrightarrow> vm_end (vmas st v) \<le> vm_start (vmas st w)"
  shows "insert_vma_struct v m st = Some (m\<lparr>mmap_list := v # mmap_list m, map_count := map_count m + 1\<rparr>)"
    "vm_inv (m\<lparr>mmap_list := v # mmap_list m, map_count := map_count m + 1\<rparr>) st"
proof -
  have tw: "takeWhile (\<lambda>p. \<not> vm_start (vmas st p) > vm_start (vmas st v)) (mmap_list m) = []"
  proof (cases "mmap_list m")
    case (Cons w ws)
    then have "vm_start (vmas st v) < vm_start (vmas st w)" using assms(3) assms(4)[of w] by simp
    then show ?thesis using Cons by simp
  qed simp
  have "w \<in> set (mmap_list m) \<Longrightarrow> vm_start (vmas st w) < vm_end (vmas st w)" for w using assms(1) by (simp add: vm_inv_def)
  then show "insert_vma_struct v m st = Some (m\<lparr>mmap_list := v # mmap_list m, map_count := map_count m + 1\<rparr>)"
    using assms(3,4) unfolding insert_vma_struct_def tw by (auto simp: check_vma_overlap_def Let_def split: list.splits)
  show "vm_inv (m\<lparr>mmap_list := v # mmap_list m, map_count := map_count m + 1\<rparr>) st"
    using assms by (auto simp: vm_inv_def)
qed

lemma sorted_wrt_vmas_cong:
  assumes "\<And>v. v \<in> set xs \<Longrightarrow> area_of (vmas st' v) = area_of (vmas st v)"
  shows "sorted_wrt (\<lambda>v w. vm_end (vmas st' v) \<le> vm_start (vmas st' w)) xs =
    sorted_wrt (\<lambda>v w. vm_end (vmas st v) \<le> vm_start (vmas st w)) xs"
  using assms by (intro iffI; elim sorted_wrt_mono_rel[rotated]) (auto simp: area_of_def)

lemma vm_inv_cong:
  assumes "\<And>v. v \<in> set (mmap_list m) \<Longrightarrow> area_of (vmas st' v) = area_of (vmas st v)"
  shows "vm_inv m st' = vm_inv m st"
  using sorted_wrt_vmas_cong[of "mmap_list m", OF assms] assms by (auto simp: vm_inv_def area_of_def)

lemma dup_loop_ok:
  assumes "vm_inv src st" "mmap_list src = rev vs @ ws" "vm_inv m st" "layout m st = map (\<lambda>v. area_of (vmas st v)) ws"
    "distinct ns" "length ns = length vs" "set ns \<inter> (set (mmap_list m) \<union> set (mmap_list src)) = {}"
    "\<forall>v \<in> set vs. user_area (vmas st v)"
    "pt_inv D ex pg" "dt \<in> D" "df \<in> D" "dt \<noteq> df" "unmapped_in D dt (\<Union>v \<in> set vs. span (vmas st v)) pg"
    "3 * (\<Sum>v\<leftarrow>vs. pages_of (vmas st v)) \<le> nr_free (area pg)"
  shows "\<exists>m' st' pg'. dup_loop vs (map Some ns) dt df m st pg = Some (0, m', st', pg') \<and> vm_inv m' st' \<and> vm_inv src st' \<and>
    layout m' st' = layout src st \<and> layout src st' = layout src st \<and> pt_inv D ex pg' \<and>
    copied D dt df (\<Union>v \<in> set vs. span (vmas st v)) pg pg'"
  using assms
proof (induction vs arbitrary: ns ws m st pg)
  case Nil
  then have "copied D dt df {} pg pg" by (intro copied_refl) auto
  with Nil show ?case by (auto simp: layout_def)
next
  case (Cons v vs)
  then obtain n ns' where ns: "ns = n # ns'" by (cases ns) auto
  let ?v = "vmas st v" and ?A = "\<Union>u \<in> set vs. span (vmas st u)"
  define st1 where "st1 = vma_create (Some n) (vm_start ?v) (vm_end ?v) (vm_flags ?v) st"
  have V: "vmas st1 = (vmas st)(n := \<lparr>vm_start = vm_start ?v, vm_end = vm_end ?v, vm_flags = vm_flags ?v, last_used_time = 0\<rparr>)"
    by (simp add: st1_def vma_create_def)
  have src: "mmap_list src = rev vs @ v # ws" using Cons.prems(2) by simp
  have n: "n \<notin> set (mmap_list m)" "n \<notin> set (mmap_list src)" using Cons.prems(7) ns by auto
  have same: "vmas st1 u = vmas st u" if "u \<in> set (mmap_list m) \<union> set (mmap_list src)" for u using that n by (auto simp: V)
  have inv1: "vm_inv src st1" "vm_inv m st1"
    using Cons.prems(1,3) same by (simp_all add: vm_inv_cong[of _ st1 st])
  have lay1: "layout src st1 = layout src st" "layout m st1 = layout m st" using same by (auto simp: layout_def)
  have vlt: "vm_start ?v < vm_end ?v" using Cons.prems(1) src by (simp add: vm_inv_def)
  have before: "vm_end (vmas st1 n) \<le> vm_start (vmas st1 w)" if "w \<in> set (mmap_list m)" for w
  proof -
    have "area_of (vmas st w) \<in> set (layout m st)" using that by (auto simp: layout_def)
    then obtain u where u: "u \<in> set ws" "area_of (vmas st w) = area_of (vmas st u)" using Cons.prems(4) by auto
    have "vm_end ?v \<le> vm_start (vmas st u)" using Cons.prems(1) u(1) by (auto simp: vm_inv_def src sorted_wrt_append)
    then show ?thesis using u(2) same[of w] that by (simp add: V area_of_def)
  qed
  have "vm_start (vmas st1 n) < vm_end (vmas st1 n)" using vlt by (simp add: V)
  note I = insert_vma_front[OF inv1(2) n(1) this before]
  define m1 where "m1 = m\<lparr>mmap_list := n # mmap_list m, map_count := map_count m + 1\<rparr>"
  have ua: "user_area ?v" using Cons.prems(8) by simp
  have cpy: "\<exists>pg'. copy_range dt df (vm_start ?v) (vm_end ?v) pg = Some (0, pg') \<and> pt_inv D ex pg' \<and> copied D dt df (span ?v) pg pg' \<and>
      nr_free (area pg) \<le> nr_free (area pg') + 3 * pages_of ?v"
  proof -
    have "unmapped_in D dt (span ?v) pg" using Cons.prems(13) unfolding unmapped_in_def by auto
    moreover have "3 * pages_of ?v \<le> nr_free (area pg)" using Cons.prems(14) by simp
    ultimately show ?thesis
      using copy_loop_ok[OF Cons.prems(9-12), of "vm_start ?v" "vm_end ?v"] ua
      by (auto simp: copy_range_def user_area_def USER_ACCESS_def span_def pages_of_def)
  qed
  then obtain pg1 where pg1: "copy_range dt df (vm_start ?v) (vm_end ?v) pg = Some (0, pg1)" "pt_inv D ex pg1"
    "copied D dt df (span ?v) pg pg1" "nr_free (area pg) \<le> nr_free (area pg1) + 3 * pages_of ?v" by blast
  have spans: "(\<Union>u \<in> set vs. span (vmas st1 u)) = ?A" using same by (auto simp: src)
  have dis: "span ?v \<inter> ?A = {}"
  proof -
    have "vm_end (vmas st u) \<le> vm_start ?v" if "u \<in> set vs" for u
      using Cons.prems(1) that by (auto simp: vm_inv_def src sorted_wrt_append)
    then show ?thesis by (fastforce simp: span_def word_le_nat_alt)
  qed
  have "\<exists>m' st' pg'. dup_loop vs (map Some ns') dt df m1 st1 pg1 = Some (0, m', st', pg') \<and> vm_inv m' st' \<and> vm_inv src st' \<and>
    layout m' st' = layout src st1 \<and> layout src st' = layout src st1 \<and> pt_inv D ex pg' \<and>
    copied D dt df (\<Union>u \<in> set vs. span (vmas st1 u)) pg1 pg'"
  proof (rule Cons.IH[OF inv1(1) src])
    show "vm_inv m1 st1" using I(2) by (simp add: m1_def)
    show "layout m1 st1 = map (\<lambda>v. area_of (vmas st1 v)) (v # ws)"
    proof -
      have "map (\<lambda>v. area_of (vmas st1 v)) ws = map (\<lambda>v. area_of (vmas st v)) ws" using same by (simp add: src)
      moreover have "area_of (vmas st1 n) = area_of (vmas st v)" by (simp add: V area_of_def)
      moreover have "layout m1 st1 = area_of (vmas st1 n) # layout m st1" by (simp add: m1_def layout_def)
      ultimately show ?thesis using lay1(2) Cons.prems(4) same[of v] by (simp add: src)
    qed
    show "set ns' \<inter> (set (mmap_list m1) \<union> set (mmap_list src)) = {}" using Cons.prems(5,7) by (auto simp: ns m1_def)
    show "\<forall>v \<in> set vs. user_area (vmas st1 v)" using Cons.prems(8) same by (auto simp: src)
    have "unmapped_in D dt ?A pg" using Cons.prems(13) unfolding unmapped_in_def by auto
    then show "unmapped_in D dt (\<Union>u \<in> set vs. span (vmas st1 u)) pg1" unfolding spans using copied_unmapped[OF pg1(3) _ dis] by blast
    have "(\<Sum>u\<leftarrow>vs. pages_of (vmas st1 u)) = (\<Sum>u\<leftarrow>vs. pages_of (vmas st u))" using same by (intro sum_list_map_cong) (simp add: src)
    then show "3 * (\<Sum>u\<leftarrow>vs. pages_of (vmas st1 u)) \<le> nr_free (area pg1)" using Cons.prems(14) pg1(4) by simp
  qed (use Cons.prems(5,6,10-12) ns pg1(2) in auto)
  then obtain m' st' pg' where R: "dup_loop vs (map Some ns') dt df m1 st1 pg1 = Some (0, m', st', pg')" "vm_inv m' st'" "vm_inv src st'"
    "layout m' st' = layout src st" "layout src st' = layout src st" "pt_inv D ex pg'" "copied D dt df ?A pg1 pg'"
    unfolding spans lay1 by blast
  have "dup_loop (v # vs) (map Some ns) dt df m st pg = Some (0, m', st', pg')"
    using I(1) pg1(1) R(1) by (simp add: ns Let_def flip: st1_def m1_def)
  moreover have "copied D dt df (span ?v \<union> ?A) pg pg'"
    by (rule copied_trans[OF pg1(3) R(7) dis Cons.prems(12,11)]) (use Cons.prems(13) in \<open>auto simp: unmapped_in_def\<close>)
  ultimately show ?case using R by auto
qed

subsection \<open>Properties\<close>

text \<open>Two areas: readable and writable data at 0x400000, read-only text at 0x800000.\<close>

definition demo_vstate :: vstate where
  "demo_vstate = \<lparr>vmas = (\<lambda>v. if v = 0 then \<lparr>vm_start = 0x400000, vm_end = 0x401000, vm_flags = 3, last_used_time = 0\<rparr>
      else \<lparr>vm_start = 0x800000, vm_end = 0x802000, vm_flags = 5, last_used_time = 0\<rparr>), time_now = 0\<rparr>"

definition demo_mm :: mm_struct where
  "demo_mm = mm_create\<lparr>mmap_list := [0, 1], mmap_cache := Some 1, pgdir := Some 1, map_count := 2\<rparr>"

lemma demo_vm_inv: "vm_inv demo_mm demo_vstate"
  by (simp add: vm_inv_def demo_mm_def demo_vstate_def)

text \<open>
  C25. The cache of \<^verbatim>\<open>find_vma\<close> is transparent: over sorted, disjoint areas the search returns what the
  search of the list alone returns, the only area that contains the address, and it changes no area.
\<close>

theorem find_vma_cache_transparent:
  assumes "vm_inv m st" "find_vma a m st = (r, m', st')"
  shows "r = find (\<lambda>v. in_vma (vmas st v) a) (mmap_list m) \<and> vm_inv m' st' \<and> same_areas st st' \<and>
    (\<forall>v \<in> set (mmap_list m). in_vma (vmas st v) a \<longrightarrow> r = Some v)"
proof -
  note F = find_vma_ok[OF assms]
  have "r = Some v" if "v \<in> set (mmap_list m)" "in_vma (vmas st v) a" for v
  proof -
    have "find (\<lambda>v. in_vma (vmas st v) a) (mmap_list m) = Some v"
      using area_unique[OF assms(1) _ that(1) _ that(2)] by (intro find_unique that) auto
    with F show ?thesis by simp
  qed
  with F show ?thesis by blast
qed

theorem find_vma_cache_transparent_witness:
  "\<exists>m' st'. find_vma 0x400123 demo_mm demo_vstate = (Some 0, m', st') \<and> vm_inv m' st'"
proof -
  obtain r m' st' where f: "find_vma 0x400123 demo_mm demo_vstate = (r, m', st')" by (cases "find_vma 0x400123 demo_mm demo_vstate")
  have "0 \<in> set (mmap_list demo_mm)" "in_vma (vmas demo_vstate 0) 0x400123" by (simp_all add: demo_mm_def demo_vstate_def in_vma_def)
  with find_vma_cache_transparent[OF demo_vm_inv f] f show ?thesis by auto
qed

text \<open>
  C26. What \<^verbatim>\<open>mm_map\<close> does with a user range: it refuses it if an area contains its first page, adds a new
  area if the range meets no area, and in the remaining case, an area that begins inside the range,
  the kernel panics in \<^verbatim>\<open>insert_vma_struct\<close> instead of returning the error.
\<close>

theorem mm_map_outcomes:
  assumes "vm_inv m st" "n \<notin> set (mmap_list m)" "USER_ACCESS (ROUNDDOWN a PGSIZE) (ROUNDUP (a + len) PGSIZE)"
    "new_area = \<lparr>vm_start = ROUNDDOWN a PGSIZE, vm_end = ROUNDUP (a + len) PGSIZE, vm_flags = fl, last_used_time = 0\<rparr>"
  shows "if \<exists>v \<in> set (mmap_list m). in_vma (vmas st v) (ROUNDDOWN a PGSIZE)
    then \<exists>m' st'. mm_map a len fl (Some n) m st = Some (- E_INVAL, m', st') \<and> vm_inv m' st' \<and> mmap_list m' = mmap_list m
    else if \<forall>v \<in> set (mmap_list m). disjoint_areas new_area (vmas st v)
    then \<exists>m' st'. mm_map a len fl (Some n) m st = Some (0, m', st') \<and> vm_inv m' st' \<and>
      set (mmap_list m') = insert n (set (mmap_list m)) \<and> vmas st' n = new_area \<and> (\<forall>v. v \<noteq> n \<longrightarrow> vmas st' v = vmas st v)
    else mm_map a len fl (Some n) m st = None"
  by (rule mm_map_cases[OF assms(1,2) refl refl assms(3,4)])

theorem mm_map_outcomes_witness:
  "mm_map 0x300000 0x200000 VM_READ (Some 7) demo_mm demo_vstate = None"
proof -
  have r: "ROUNDDOWN 0x300000 PGSIZE = 0x300000" "ROUNDUP (0x300000 + 0x200000) PGSIZE = 0x500000"
    by (simp_all add: ROUNDDOWN_def ROUNDUP_def PGSIZE_def)
  have "USER_ACCESS (ROUNDDOWN 0x300000 PGSIZE) (ROUNDUP (0x300000 + 0x200000) PGSIZE)"
    unfolding r by (simp add: USER_ACCESS_def mmu_defs)
  moreover have "\<not> (\<exists>v \<in> set (mmap_list demo_mm). in_vma (vmas demo_vstate v) 0x300000)"
    by (simp add: demo_mm_def demo_vstate_def in_vma_def)
  moreover have "\<not> (\<forall>v \<in> set (mmap_list demo_mm). disjoint_areas
      \<lparr>vm_start = 0x300000, vm_end = 0x500000, vm_flags = VM_READ, last_used_time = 0\<rparr> (vmas demo_vstate v))"
    by (simp add: demo_mm_def demo_vstate_def disjoint_areas_def)
  ultimately show ?thesis
    using mm_map_outcomes[OF demo_vm_inv, where n = 7 and a = "0x300000" and len = "0x200000" and fl = VM_READ] unfolding r by (auto simp: demo_mm_def split: if_splits)
qed

text \<open>
  C27. \<^verbatim>\<open>user_mem_check\<close> terminates and is exact: it accepts a range of a process just when the range is a
  non-empty part of user space in which every byte lies in an area with the permission asked for
  and, for writing, not in the first page of a stack; without an address space the range must lie in the kernel's.
\<close>

theorem user_mem_check_exact:
  assumes "case mo of None \<Rightarrow> True | Some m \<Rightarrow> vm_inv m st"
  shows "\<exists>mo' st'. user_mem_check mo a len w st =
    Some (case mo of None \<Rightarrow> KERN_ACCESS a (a + len) | Some m \<Rightarrow> USER_ACCESS a (a + len) \<and> accessible w m st a (a + len), mo', st')"
proof (cases mo)
  case (Some m)
  with assms have "vm_inv m st" by simp
  from user_check_loop_ok[OF this, of a "a + len" w] obtain m' st' where
    "user_check_loop a (a + len) w m st = Some (accessible w m st a (a + len), m', st')" by blast
  with Some show ?thesis by (cases "USER_ACCESS a (a + len)") (auto simp: user_mem_check_def)
qed (simp add: user_mem_check_def)

theorem user_mem_check_exact_witness:
  "\<exists>m' st'. user_mem_check (Some demo_mm) 0x400ff0 0x10 True demo_vstate = Some (True, m', st')"
proof -
  have "accessible True demo_mm demo_vstate 0x400ff0 (0x400ff0 + 0x10)"
    unfolding accessible_def
  proof (intro allI impI)
    fix a :: u32 assume a: "0x400ff0 \<le> a \<and> a < 0x400ff0 + 0x10"
    then have "0x400000 \<le> a" "a < 0x401000" by (auto simp: word_le_nat_alt word_less_nat_alt)
    then show "\<exists>v \<in> set (mmap_list demo_mm). access_ok True (vmas demo_vstate v) a"
      by (simp add: demo_mm_def demo_vstate_def access_ok_def in_vma_def vm_flag_defs)
  qed
  moreover have "USER_ACCESS 0x400ff0 (0x400ff0 + 0x10)" by (simp add: USER_ACCESS_def mmu_defs)
  ultimately show ?thesis
    using user_mem_check_exact[where mo = "Some demo_mm" and st = demo_vstate and a = "0x400ff0" and len = "0x10" and w = True] demo_vm_inv by auto
qed

text \<open>
  C28. Demand paging: for a fault at an address without a page, \<^verbatim>\<open>do_pgfault\<close> returns 0 exactly when an area
  contains the address and allows the access; then a page not in use before is mapped there, writable if
  the area is, and no other entry changes. Otherwise it returns \<open>-E_INVAL\<close> and changes no page table.
\<close>

theorem do_pgfault_demand_paging:
  assumes "vm_inv m st" "pt_inv D ex pg" "pgdir m = Some d" "d \<in> D" "a < USERTOP"
    "pte pg (d, PDX a, PTX a) = 0" "3 \<le> nr_free (area pg)"
  shows "if \<exists>v \<in> set (mmap_list m). in_vma (vmas st v) a \<and> fault_allowed err (vmas st v)
    then \<exists>v \<in> set (mmap_list m). in_vma (vmas st v) a \<and> (\<exists>p m' st' pg'. do_pgfault err a swap_in m st pg = Some (0, m', st', pg') \<and>
      vm_inv m' st' \<and> pt_inv D ex pg' \<and> get_page d a pg' = Some (Some p, pg') \<and> \<not> data_page D pg p \<and>
      (\<forall>x \<in> slots D. pte pg' x = (if x = (d, PDX a, PTX a)
         then page2pa p OR PTE_P OR (if vm_flags (vmas st v) AND VM_WRITE \<noteq> 0 then PTE_U OR PTE_W else PTE_U) else pte pg x)))
    else \<exists>m' st'. do_pgfault err a swap_in m st pg = Some (- E_INVAL, m', st', pg) \<and> vm_inv m' st'"
proof (cases "\<exists>v \<in> set (mmap_list m). in_vma (vmas st v) a \<and> fault_allowed err (vmas st v)")
  case True
  then obtain v where v: "v \<in> set (mmap_list m)" "in_vma (vmas st v) a" "fault_allowed err (vmas st v)" by blast
  from do_pgfault_maps_page[OF assms(1-5) v assms(6,7), of swap_in] v True show ?thesis by auto
next
  case False
  then have "\<forall>v \<in> set (mmap_list m). in_vma (vmas st v) a \<longrightarrow> \<not> fault_allowed err (vmas st v)" by blast
  from do_pgfault_refuses[OF assms(1) this] False show ?thesis by auto
qed

theorem do_pgfault_demand_paging_witness:
  "\<exists>p m' st' pg'. do_pgfault 2 0x400123 (\<lambda>la pg. (0, 0, pg)) demo_mm demo_vstate demo_pgmem = Some (0, m', st', pg') \<and>
     get_page 1 0x400123 pg' = Some (Some p, pg')"
proof -
  have p0: "pte demo_pgmem z = 0" for z by (cases z) (simp add: pte_def demo_pgmem_def)
  have "pgdir demo_mm = Some 1" "(0x400123 :: u32) < USERTOP" "3 \<le> nr_free (area demo_pgmem)"
    by (simp_all add: demo_mm_def mmu_defs demo_pgmem_def)
  moreover have "\<exists>v \<in> set (mmap_list demo_mm). in_vma (vmas demo_vstate v) 0x400123 \<and> fault_allowed 2 (vmas demo_vstate v)"
    by (simp add: demo_mm_def demo_vstate_def in_vma_def fault_allowed_def vm_flag_defs)
  ultimately show ?thesis
    using do_pgfault_demand_paging[OF demo_vm_inv demo_pgmem_inv(1), where d = 1 and a = "0x400123" and err = 2 and swap_in = "\<lambda>la pg. (0, 0, pg)"] p0 by auto
qed

text \<open>
  C29. \<^verbatim>\<open>dup_mmap\<close> gives the child the same areas in the same order, and a private copy of every mapped page of
  them; the parent keeps its areas, pages and contents.
\<close>

theorem dup_mmap_copies:
  assumes "vm_inv src st" "mmap_list to = []" "vm_inv to st" "pgdir to = Some dt" "pgdir src = Some df" "dt \<in> D" "df \<in> D" "dt \<noteq> df"
    "distinct ns" "length ns = length (mmap_list src)" "set ns \<inter> set (mmap_list src) = {}"
    "\<forall>v \<in> set (mmap_list src). user_area (vmas st v)"
    "pt_inv D ex pg" "unmapped_in D dt (\<Union>v \<in> set (mmap_list src). span (vmas st v)) pg"
    "3 * (\<Sum>v\<leftarrow>mmap_list src. pages_of (vmas st v)) \<le> nr_free (area pg)"
  shows "\<exists>to' st' pg'. dup_mmap (map Some ns) to src st pg = Some (0, to', st', pg') \<and> vm_inv to' st' \<and>
    layout to' st' = layout src st \<and> layout src st' = layout src st \<and> pt_inv D ex pg' \<and>
    copied D dt df (\<Union>v \<in> set (mmap_list src). span (vmas st v)) pg pg'"
proof -
  have "3 * (\<Sum>v\<leftarrow>rev (mmap_list src). pages_of (vmas st v)) \<le> nr_free (area pg)"
    using assms(15) by (simp add: rev_map[symmetric])
  with dup_loop_ok[OF assms(1) _ assms(3) _ assms(9), of "rev (mmap_list src)" "[]" D ex pg dt df] assms
  show ?thesis by (auto simp: dup_mmap_def layout_def)
qed

theorem dup_mmap_copies_witness:
  "\<exists>to' st' pg'. dup_mmap [Some 8, Some 9] (mm_create\<lparr>pgdir := Some 2\<rparr>) demo_mm demo_vstate demo_pgmem = Some (0, to', st', pg') \<and>
     layout to' st' = layout demo_mm demo_vstate"
proof -
  let ?to = "mm_create\<lparr>pgdir := Some 2\<rparr>"
  have p0: "pte demo_pgmem z = 0" for z by (cases z) (simp add: pte_def demo_pgmem_def)
  have "vm_inv ?to demo_vstate" "mmap_list ?to = []" by (simp_all add: vm_inv_def mm_create_def)
  moreover have "\<forall>v \<in> set (mmap_list demo_mm). user_area (vmas demo_vstate v)"
    by (simp add: demo_mm_def demo_vstate_def user_area_def USER_ACCESS_def mmu_defs)
  moreover have "unmapped_in {1, 2} 2 A demo_pgmem" for A using p0 by (simp add: unmapped_in_def)
  moreover have "3 * (\<Sum>v\<leftarrow>mmap_list demo_mm. pages_of (vmas demo_vstate v)) \<le> nr_free (area demo_pgmem)"
    by (simp add: demo_mm_def demo_vstate_def pages_of_def demo_pgmem_def)
  ultimately have "\<exists>to' st' pg'. dup_mmap (map Some [8, 9]) ?to demo_mm demo_vstate demo_pgmem = Some (0, to', st', pg') \<and>
     layout to' st' = layout demo_mm demo_vstate"
    using dup_mmap_copies[OF demo_vm_inv _ _ _ _ _ _ _ _ _ _ _ demo_pgmem_inv(1), where to = ?to and dt = 2 and df = 1 and ns = "[8, 9]"]
    by (auto simp: demo_mm_def)
  then show ?thesis by simp
qed

end
