(* ===== verification/Bitmap.thy ===== *)
theory Bitmap
  imports Prelude
begin

text \<open>
  \<^verbatim>\<open>kern/fs/sfs/bitmap.c\<close>: the map of free blocks, an array of 32-bit words in which a set bit marks a free
  block. The abstract state is the set of free indices; every operation is the corresponding one on
  sets, with the least element for allocation.
\<close>

unbundle bit_operations_syntax

record bitmap =
  nbits :: nat
  nwords :: nat
  bwords :: "u32 list"

subsection \<open>The routines\<close>

definition bit_mask :: "nat \<Rightarrow> u32" where
  "bit_mask k = push_bit k 1"

text \<open>The loop of \<^verbatim>\<open>bitmap_create\<close> over the left-over bits of the last word.\<close>

fun mark_over :: "nat list \<Rightarrow> u32 \<Rightarrow> u32" where
  "mark_over [] w = w"
| "mark_over (o' # os) w = mark_over os (w XOR bit_mask o')"

definition bitmap_create :: "bool \<Rightarrow> bool \<Rightarrow> nat \<Rightarrow> bitmap option option" where
  "bitmap_create mem1 mem2 n = do {
     kassert (n \<noteq> 0 \<and> n + 32 < 2 ^ 32);
     if \<not> mem1 \<or> \<not> mem2 then Some None
     else do {
       let nw = (n + 31) div 32;
       let ws = replicate nw (NOT 0);
       if n \<noteq> nw * 32 then do {
         let ix = nw - 1;
         let over = n - ix * 32;
         kassert (n div 32 = ix);
         kassert (over > 0 \<and> over < 32);
         Some (Some \<lparr>nbits = n, nwords = nw, bwords = ws[ix := mark_over [over..<32] (ws ! ix)]\<rparr>) }
       else Some (Some \<lparr>nbits = n, nwords = nw, bwords = ws\<rparr>) } }"

fun alloc_scan :: "nat \<Rightarrow> u32 list \<Rightarrow> (nat \<times> u32 list) option option" where
  "alloc_scan ix [] = Some None"
| "alloc_scan ix (w # ws) =
     (if w \<noteq> 0 then
        (case find (\<lambda>k. w AND bit_mask k \<noteq> 0) [0..<32] of
           Some k \<Rightarrow> Some (Some (ix * 32 + k, (w XOR bit_mask k) # ws))
         | None \<Rightarrow> None)
      else map_option (map_option (\<lambda>(i, vs). (i, w # vs))) (alloc_scan (Suc ix) ws))"

definition bitmap_alloc :: "bitmap \<Rightarrow> (int \<times> nat \<times> bitmap) option" where
  "bitmap_alloc b = do {
     r \<leftarrow> alloc_scan 0 (bwords b);
     (case r of None \<Rightarrow> Some (- E_NO_MEM, 0, b)
      | Some (i, ws) \<Rightarrow> Some (0, i, b\<lparr>bwords := ws\<rparr>)) }"

definition bitmap_translate :: "bitmap \<Rightarrow> nat \<Rightarrow> (nat \<times> u32) option" where
  "bitmap_translate b i = do {
     kassert (i < nbits b);
     Some (i div 32, bit_mask (i mod 32)) }"

definition bitmap_test :: "bitmap \<Rightarrow> nat \<Rightarrow> bool option" where
  "bitmap_test b i = do {
     (ix, mask) \<leftarrow> bitmap_translate b i;
     Some (bwords b ! ix AND mask \<noteq> 0) }"

definition bitmap_free :: "bitmap \<Rightarrow> nat \<Rightarrow> bitmap option" where
  "bitmap_free b i = do {
     (ix, mask) \<leftarrow> bitmap_translate b i;
     kassert (bwords b ! ix AND mask = 0);
     Some (b\<lparr>bwords := (bwords b)[ix := bwords b ! ix OR mask]\<rparr>) }"

definition bitmap_getdata :: "bitmap \<Rightarrow> u32 list \<times> nat" where
  "bitmap_getdata b = (bwords b, 4 * nwords b)"

subsection \<open>The set of free indices\<close>

definition free_bits :: "bitmap \<Rightarrow> nat set" where
  "free_bits b = {i. i < 32 * length (bwords b) \<and> bit (bwords b ! (i div 32)) (i mod 32)}"

definition bitmap_inv :: "bitmap \<Rightarrow> bool" where
  "bitmap_inv b \<longleftrightarrow> length (bwords b) = nwords b \<and> nbits b \<le> 32 * nwords b \<and> free_bits b \<subseteq> {..<nbits b}"

lemma bit_test: "k < 32 \<Longrightarrow> (w :: u32) AND bit_mask k \<noteq> 0 \<longleftrightarrow> bit w k"
  by (simp add: bit_mask_def and_exp_eq_0_iff_not_bit push_bit_eq_mult)

lemma bit_clear: "k < 32 \<Longrightarrow> j < 32 \<Longrightarrow> bit (w XOR bit_mask k) j \<longleftrightarrow> (if j = k then \<not> bit w k else bit w j)"
  by (auto simp: bit_mask_def bit_simps bit_1_iff)

lemma bit_set: "k < 32 \<Longrightarrow> j < 32 \<Longrightarrow> bit (w OR bit_mask k) j \<longleftrightarrow> j = k \<or> bit w j"
  by (auto simp: bit_mask_def bit_simps bit_1_iff)

lemma word_zero_bits: "(w :: u32) = 0 \<longleftrightarrow> (\<forall>k < 32. \<not> bit w k)"
  by (auto simp: bit_eq_iff dest: bit_imp_le_length)

lemma mark_over_bit:
  "set os \<subseteq> {..<32} \<Longrightarrow> distinct os \<Longrightarrow> j < 32 \<Longrightarrow> bit (mark_over os w) j \<longleftrightarrow> (if j \<in> set os then \<not> bit w j else bit w j)"
  by (induction os arbitrary: w) (auto simp: bit_clear)

lemma free_bits_update:
  assumes "i < 32 * length (bwords b)" "\<And>j. j < 32 \<Longrightarrow> bit w j \<longleftrightarrow> (if j = i mod 32 then v else bit (bwords b ! (i div 32)) j)"
  shows "free_bits (b\<lparr>bwords := (bwords b)[i div 32 := w]\<rparr>) = (if v then insert i (free_bits b) else free_bits b - {i})"
proof -
  have l: "i div 32 < length (bwords b)" using assms(1) by (simp add: less_mult_imp_div_less mult.commute)
  have mem: "k \<in> free_bits (b\<lparr>bwords := (bwords b)[i div 32 := w]\<rparr>) \<longleftrightarrow> (if k = i then v else k \<in> free_bits b)" for k
  proof (cases "k div 32 = i div 32")
    case True
    then have "k = i \<longleftrightarrow> k mod 32 = i mod 32" by (metis mult_div_mod_eq)
    moreover have "k < 32 * length (bwords b)"
    proof -
      have "k div 32 < length (bwords b)" using True l by simp
      then show ?thesis by (simp add: div_less_iff_less_mult mult.commute)
    qed
    ultimately show ?thesis using True l assms(2)[of "k mod 32"] by (auto simp: free_bits_def)
  next
    case False
    then show ?thesis by (auto simp: free_bits_def)
  qed
  show ?thesis by (intro set_eqI) (simp only: mem, simp)
qed

lemma alloc_scan_ok:
  "(\<forall>w \<in> set ws. w = 0) \<and> alloc_scan ix ws = Some None \<or>
   (\<exists>n k w. n < length ws \<and> ws ! n = w \<and> (\<forall>m < n. ws ! m = 0) \<and> k < 32 \<and> bit w k \<and> (\<forall>j < k. \<not> bit w j) \<and>
      alloc_scan ix ws = Some (Some ((ix + n) * 32 + k, ws[n := w XOR bit_mask k])))"
proof (induction ws arbitrary: ix)
  case (Cons w ws)
  show ?case
  proof (cases "w = 0")
    case True
    from Cons.IH[of "Suc ix"] show ?thesis
    proof
      assume "(\<forall>w \<in> set ws. w = 0) \<and> alloc_scan (Suc ix) ws = Some None"
      with True show ?thesis by simp
    next
      assume "\<exists>n k w. n < length ws \<and> ws ! n = w \<and> (\<forall>m < n. ws ! m = 0) \<and> k < 32 \<and> bit w k \<and> (\<forall>j < k. \<not> bit w j) \<and>
        alloc_scan (Suc ix) ws = Some (Some ((Suc ix + n) * 32 + k, ws[n := w XOR bit_mask k]))"
      then obtain n k where n: "n < length ws" "\<forall>m < n. ws ! m = 0" "k < 32" "bit (ws ! n) k" "\<forall>j < k. \<not> bit (ws ! n) j"
        "alloc_scan (Suc ix) ws = Some (Some ((Suc ix + n) * 32 + k, ws[n := ws ! n XOR bit_mask k]))" by blast
      have "alloc_scan ix (w # ws) = Some (Some ((ix + Suc n) * 32 + k, (w # ws)[Suc n := (w # ws) ! Suc n XOR bit_mask k]))"
        using True n(6) by simp
      moreover have "\<forall>m < Suc n. (w # ws) ! m = 0" using True n(2) by (auto simp: nth_Cons split: nat.splits)
      ultimately show ?thesis using n by (intro disjI2 exI[of _ "Suc n"] exI[of _ k] exI[of _ "ws ! n"]) (auto simp del: alloc_scan.simps)
    qed
  next
    case False
    let ?f = "find (\<lambda>k. w AND bit_mask k \<noteq> 0) [0..<32]"
    obtain k where k: "?f = Some k"
      using False word_zero_bits[of w] bit_test by (cases ?f) (auto simp: find_None_iff)
    then have "k < 32" "w AND bit_mask k \<noteq> 0" "\<forall>j < k. w AND bit_mask j = 0"
      by (auto simp: find_Some_iff)
    moreover from this have "bit w k" "\<forall>j < k. \<not> bit w j"
      using bit_test[of _ w] by (simp, metis order.strict_trans)
    moreover have "alloc_scan ix (w # ws) = Some (Some ((ix + 0) * 32 + k, (w # ws)[0 := w XOR bit_mask k]))" using False k by simp
    ultimately show ?thesis by (intro disjI2 exI[of _ 0] exI[of _ k] exI[of _ w]) (auto simp del: alloc_scan.simps)
  qed
qed simp

lemma bitmap_create_ok:
  assumes "0 < n" "n + 32 < 2 ^ 32"
  shows "\<exists>b. bitmap_create True True n = Some (Some b) \<and> bitmap_inv b \<and> nbits b = n \<and> free_bits b = {..<n}"
proof -
  define nw where "nw = (n + 31) div 32"
  define ix where "ix = nw - 1"
  define ws where "ws = replicate nw (NOT 0 :: u32)"
  define b where "b = \<lparr>nbits = n, nwords = nw, bwords = if n \<noteq> nw * 32 then ws[ix := mark_over [n - ix * 32..<32] (ws ! ix)] else ws\<rparr>"
  have nw: "0 < nw" "n \<le> nw * 32" "(nw - 1) * 32 < n" using assms(1) unfolding nw_def by linarith+
  have "n div 32 = ix \<and> 0 < n - ix * 32 \<and> n - ix * 32 < 32" if "n \<noteq> nw * 32"
    using that nw unfolding ix_def by linarith
  then have c: "bitmap_create True True n = Some (Some b)"
    using assms unfolding bitmap_create_def b_def Let_def ws_def[symmetric] nw_def[symmetric] ix_def[symmetric]
    by (cases "n = nw * 32") simp_all
  have ones: "bit (NOT 0 :: u32) k" if "k < 32" for k using that by (simp add: bit_simps)
  have mem: "i \<in> free_bits b \<longleftrightarrow> i < n" for i
  proof (cases "n = nw * 32")
    case True
    have "bit (ws ! (i div 32)) (i mod 32)" if "i < nw * 32"
      using that ones by (simp add: ws_def less_mult_imp_div_less)
    then show ?thesis using True by (auto simp: b_def free_bits_def ws_def mult.commute)
  next
    case False
    have L: "length (bwords b) = nw" by (simp add: b_def ws_def)
    have w: "bwords b ! m = (if m = ix then mark_over [n - ix * 32..<32] (NOT 0) else NOT 0)" if "m < nw" for m
      using that False nw(1) by (simp add: b_def ws_def ix_def nth_list_update)
    have "bit (bwords b ! (i div 32)) (i mod 32) \<longleftrightarrow> i < n" if i: "i < 32 * nw"
    proof -
      have m: "i div 32 < nw" using i by (simp add: less_mult_imp_div_less mult.commute)
      show ?thesis
      proof (cases "i div 32 = ix")
        case True
        have "bit (mark_over [n - ix * 32..<32] (NOT 0 :: u32)) (i mod 32) \<longleftrightarrow> i mod 32 < n - ix * 32"
          by (subst mark_over_bit) (auto simp: ones)
        moreover have "i = ix * 32 + i mod 32" using True by (metis div_mult_mod_eq)
        ultimately show ?thesis using w[OF m] True nw(3) by (simp add: ix_def) linarith
      next
        case False
        then have "i div 32 < ix" using m by (simp add: ix_def)
        then have "i < ix * 32" by (simp add: div_less_iff_less_mult)
        then have "i < n" using nw(3) by (simp add: ix_def)
        then show ?thesis using w[OF m] False ones by simp
      qed
    qed
    then show ?thesis using nw(2) by (auto simp: free_bits_def L)
  qed
  have fb: "free_bits b = {..<n}" by (intro set_eqI) (simp only: mem lessThan_iff)
  have nb: "nbits b = n" "nwords b = nw" "length (bwords b) = nw" by (simp_all add: b_def ws_def)
  then have "bitmap_inv b" using nw(2) by (simp add: bitmap_inv_def fb mult.commute)
  with c fb nb(1) show ?thesis by blast
qed

lemma bitmap_alloc_ok:
  assumes inv: "bitmap_inv b"
  shows "if free_bits b = {} then bitmap_alloc b = Some (- E_NO_MEM, 0, b)
    else \<exists>i b'. bitmap_alloc b = Some (0, i, b') \<and> i \<in> free_bits b \<and> (\<forall>j \<in> free_bits b. i \<le> j) \<and> bitmap_inv b' \<and>
      free_bits b' = free_bits b - {i} \<and> nbits b' = nbits b"
  using alloc_scan_ok[of "bwords b" 0]
proof
  assume a: "(\<forall>w \<in> set (bwords b). w = 0) \<and> alloc_scan 0 (bwords b) = Some None"
  have "bwords b ! (x div 32) = 0" if "x < 32 * length (bwords b)" for x
    using a that by (simp add: less_mult_imp_div_less mult.commute)
  then have "free_bits b = {}" by (auto simp: free_bits_def)
  with a show ?thesis by (simp add: bitmap_alloc_def)
next
  assume "\<exists>n k w. n < length (bwords b) \<and> bwords b ! n = w \<and> (\<forall>m < n. bwords b ! m = 0) \<and> k < 32 \<and> bit w k \<and> (\<forall>j < k. \<not> bit w j) \<and>
      alloc_scan 0 (bwords b) = Some (Some ((0 + n) * 32 + k, (bwords b)[n := w XOR bit_mask k]))"
  then obtain n k where n: "n < length (bwords b)" "\<forall>m < n. bwords b ! m = 0" "k < 32" "bit (bwords b ! n) k" "\<forall>j < k. \<not> bit (bwords b ! n) j"
    "alloc_scan 0 (bwords b) = Some (Some (n * 32 + k, (bwords b)[n := bwords b ! n XOR bit_mask k]))" by auto
  let ?i = "n * 32 + k" and ?b = "b\<lparr>bwords := (bwords b)[n := bwords b ! n XOR bit_mask k]\<rparr>"
  have dm: "?i div 32 = n" "?i mod 32 = k" using n(3) by simp_all
  have i: "?i < 32 * length (bwords b)" using n(1,3) by linarith
  have "?i \<in> free_bits b" using i n(4) dm by (simp add: free_bits_def)
  moreover have "?i \<le> j" if "j \<in> free_bits b" for j
  proof -
    have j: "bit (bwords b ! (j div 32)) (j mod 32)" using that by (simp add: free_bits_def)
    then have "\<not> j div 32 < n" using n(2) by auto
    moreover have "j div 32 = n \<Longrightarrow> k \<le> j mod 32" using j n(5) by (meson linorder_not_less)
    ultimately show ?thesis by (cases "j div 32 = n") (use div_mult_mod_eq[of j 32] n(3) in linarith)+
  qed
  moreover have "free_bits ?b = free_bits b - {?i}"
    using free_bits_update[OF i, of "bwords b ! n XOR bit_mask k" False] dm n(3,4) by (simp add: bit_clear)
  moreover from this have "bitmap_inv ?b" using inv by (auto simp: bitmap_inv_def)
  ultimately show ?thesis using n(6) by (auto simp: bitmap_alloc_def)
qed

lemma bitmap_test_ok: "bitmap_inv b \<Longrightarrow> i < nbits b \<Longrightarrow> bitmap_test b i = Some (i \<in> free_bits b)"
  by (auto simp: bitmap_test_def bitmap_translate_def bitmap_inv_def free_bits_def bit_test)

lemma bitmap_free_ok:
  assumes inv: "bitmap_inv b" and i: "i < nbits b"
  shows "if i \<in> free_bits b then bitmap_free b i = None
    else \<exists>b'. bitmap_free b i = Some b' \<and> bitmap_inv b' \<and> free_bits b' = insert i (free_bits b) \<and> nbits b' = nbits b"
proof -
  have l: "i < 32 * length (bwords b)" using inv i by (auto simp: bitmap_inv_def)
  let ?w = "bwords b ! (i div 32)"
  have t: "?w AND bit_mask (i mod 32) \<noteq> 0 \<longleftrightarrow> i \<in> free_bits b" using l bit_test[of "i mod 32" ?w] by (simp add: free_bits_def)
  let ?b = "b\<lparr>bwords := (bwords b)[i div 32 := ?w OR bit_mask (i mod 32)]\<rparr>"
  have "free_bits ?b = insert i (free_bits b)" using free_bits_update[OF l, of "?w OR bit_mask (i mod 32)" True] by (auto simp: bit_set)
  moreover from this have "bitmap_inv ?b" using inv i by (auto simp: bitmap_inv_def)
  ultimately show ?thesis using t i by (auto simp: bitmap_free_def bitmap_translate_def)
qed



end
