(* ===== verification/Disk.thy ===== *)
theory Disk
  imports Prelude
begin

text \<open>
  Block transfer to the disk: the drive of \<^verbatim>\<open>kern/driver/ide.c\<close>, the transfer buffers of
  \<^verbatim>\<open>kern/fs/iobuf.c\<close> and the block device of \<^verbatim>\<open>kern/fs/devs/dev_disk0.c\<close>, which moves its data in
  chunks of four blocks through a bounce buffer.

  The drive is its sectors as one array of bytes, with the set of sectors for which it reports an
  error; the port commands of one request are the start of that request. \<^verbatim>\<open>size_t\<close> and \<^verbatim>\<open>uint32_t\<close>
  values are natural numbers, reduced modulo \<open>2 ^ 32\<close> where the code could wrap; \<^verbatim>\<open>off_t\<close> is a signed integer.
\<close>

subsection \<open>The drive\<close>

record ide_device =
  ide_valid :: bool
  ide_size :: nat
  ide_bytes :: "nat \<Rightarrow> u8"
  ide_bad :: "nat \<Rightarrow> bool"

definition ide_device_valid :: "ide_device \<Rightarrow> bool" where
  "ide_device_valid d = ide_valid d"

definition ide_device_size :: "ide_device \<Rightarrow> nat" where
  "ide_device_size d = (if ide_device_valid d then ide_size d else 0)"

definition span :: "(nat \<Rightarrow> u8) \<Rightarrow> nat \<Rightarrow> nat \<Rightarrow> u8 list" where
  "span m a n = map m [a..<a + n]"

definition overlay :: "(nat \<Rightarrow> u8) \<Rightarrow> nat \<Rightarrow> u8 list \<Rightarrow> nat \<Rightarrow> u8" where
  "overlay m a bs = (\<lambda>x. if a \<le> x \<and> x < a + length bs then bs ! (x - a) else m x)"

fun ide_read_loop :: "ide_device \<Rightarrow> nat \<Rightarrow> nat \<Rightarrow> int \<times> u8 list" where
  "ide_read_loop d s 0 = (0, [])"
| "ide_read_loop d s (Suc n) =
     (if ide_bad d s then (-1, [])
      else (let (r, bs) = ide_read_loop d (Suc s) n in (r, span (ide_bytes d) (s * 512) 512 @ bs)))"

definition ide_read_secs :: "ide_device \<Rightarrow> nat \<Rightarrow> u8 list \<Rightarrow> nat \<Rightarrow> (int \<times> u8 list) option" where
  "ide_read_secs d secno dst nsecs = do {
     kassert (nsecs \<le> 128 \<and> ide_device_valid d);
     kassert (secno < 0x10000000 \<and> secno + nsecs \<le> 0x10000000);
     (let (r, bs) = ide_read_loop d secno nsecs in Some (r, bs @ drop (length bs) dst)) }"

fun ide_write_loop :: "ide_device \<Rightarrow> nat \<Rightarrow> u8 list \<Rightarrow> nat \<Rightarrow> int \<times> ide_device" where
  "ide_write_loop d s src 0 = (0, d)"
| "ide_write_loop d s src (Suc n) =
     (if ide_bad d s then (-1, d)
      else ide_write_loop (d\<lparr>ide_bytes := overlay (ide_bytes d) (s * 512) (take 512 src)\<rparr>) (Suc s) (drop 512 src) n)"

definition ide_write_secs :: "ide_device \<Rightarrow> nat \<Rightarrow> u8 list \<Rightarrow> nat \<Rightarrow> (int \<times> ide_device) option" where
  "ide_write_secs d secno src nsecs = do {
     kassert (nsecs \<le> 128 \<and> ide_device_valid d);
     kassert (secno < 0x10000000 \<and> secno + nsecs \<le> 0x10000000);
     Some (ide_write_loop d secno src nsecs) }"

subsection \<open>Transfer buffers\<close>

text \<open>\<open>io_mem\<close> is the memory the transfer started at and \<open>io_base\<close> the position reached in it.\<close>

record iobuf =
  io_mem :: "u8 list"
  io_base :: nat
  io_offset :: int
  io_len :: nat
  io_resid :: nat

definition iobuf_init :: "u8 list \<Rightarrow> nat \<Rightarrow> int \<Rightarrow> iobuf" where
  "iobuf_init mem len offset = \<lparr>io_mem = mem, io_base = 0, io_offset = offset, io_len = len, io_resid = len\<rparr>"

definition iobuf_used :: "iobuf \<Rightarrow> nat" where
  "iobuf_used iob = io_len iob - io_resid iob"

definition iobuf_skip :: "iobuf \<Rightarrow> nat \<Rightarrow> iobuf option" where
  "iobuf_skip iob n = do {
     kassert (io_resid iob \<ge> n);
     Some (iob\<lparr>io_base := io_base iob + n, io_offset := io_offset iob + int n, io_resid := io_resid iob - n\<rparr>) }"

definition patch :: "'a list \<Rightarrow> nat \<Rightarrow> 'a list \<Rightarrow> 'a list" where
  "patch mem a bs = take a mem @ bs @ drop (a + length bs) mem"

definition iobuf_move :: "iobuf \<Rightarrow> u8 list \<Rightarrow> nat \<Rightarrow> bool \<Rightarrow> (int \<times> nat \<times> iobuf \<times> u8 list) option" where
  "iobuf_move iob data len m2b = do {
     let alen = (if io_resid iob > len then len else io_resid iob);
     (if alen > 0 then do {
        let (iob1, data1) =
          (if m2b then (iob\<lparr>io_mem := patch (io_mem iob) (io_base iob) (take alen data)\<rparr>, data)
           else (iob, patch data 0 (take alen (drop (io_base iob) (io_mem iob)))));
        iob2 \<leftarrow> iobuf_skip iob1 alen;
        Some (if len - alen = 0 then 0 else - E_NO_MEM, alen, iob2, data1) }
      else Some (if len = 0 then 0 else - E_NO_MEM, alen, iob, data)) }"

definition iobuf_move_zeros :: "iobuf \<Rightarrow> nat \<Rightarrow> (int \<times> nat \<times> iobuf) option" where
  "iobuf_move_zeros iob len = do {
     let alen = (if io_resid iob > len then len else io_resid iob);
     (if alen > 0 then do {
        iob2 \<leftarrow> iobuf_skip (iob\<lparr>io_mem := patch (io_mem iob) (io_base iob) (replicate alen 0)\<rparr>) alen;
        Some (if len - alen = 0 then 0 else - E_NO_MEM, alen, iob2) }
      else Some (if len = 0 then 0 else - E_NO_MEM, alen, iob)) }"

subsection \<open>disk0\<close>

record disk0 =
  drive :: ide_device
  d_blocks :: nat
  disk0_buffer :: "u8 list"

abbreviation DISK0_BLKSIZE :: nat where "DISK0_BLKSIZE \<equiv> 4096"
abbreviation DISK0_BUFSIZE :: nat where "DISK0_BUFSIZE \<equiv> 16384"
abbreviation DISK0_BLK_NSECT :: nat where "DISK0_BLK_NSECT \<equiv> 8"

definition disk0_read_blks_nolock :: "disk0 \<Rightarrow> nat \<Rightarrow> nat \<Rightarrow> disk0 option" where
  "disk0_read_blks_nolock dv blkno nblks = do {
     (r, buf) \<leftarrow> ide_read_secs (drive dv) (blkno * DISK0_BLK_NSECT mod 2 ^ 32) (disk0_buffer dv) (nblks * DISK0_BLK_NSECT mod 2 ^ 32);
     if r \<noteq> 0 then kpanic else Some (dv\<lparr>disk0_buffer := buf\<rparr>) }"

definition disk0_write_blks_nolock :: "disk0 \<Rightarrow> nat \<Rightarrow> nat \<Rightarrow> disk0 option" where
  "disk0_write_blks_nolock dv blkno nblks = do {
     (r, d) \<leftarrow> ide_write_secs (drive dv) (blkno * DISK0_BLK_NSECT mod 2 ^ 32) (disk0_buffer dv) (nblks * DISK0_BLK_NSECT mod 2 ^ 32);
     if r \<noteq> 0 then kpanic else Some (dv\<lparr>drive := d\<rparr>) }"

text \<open>
  One iteration of the transfer loop of \<^verbatim>\<open>disk0_io\<close>: the number of bytes moved, and the new state.
\<close>

definition disk0_io_step :: "disk0 \<Rightarrow> iobuf \<Rightarrow> bool \<Rightarrow> nat \<Rightarrow> nat \<Rightarrow> (nat \<times> nat \<times> disk0 \<times> iobuf) option" where
  "disk0_io_step dv iob wr resid blkno =
     (if wr then do {
        (_, copied, iob1, buf) \<leftarrow> iobuf_move iob (disk0_buffer dv) DISK0_BUFSIZE False;
        kassert (copied \<noteq> 0 \<and> copied \<le> resid \<and> copied mod DISK0_BLKSIZE = 0);
        let nblks = copied div DISK0_BLKSIZE;
        dv1 \<leftarrow> disk0_write_blks_nolock (dv\<lparr>disk0_buffer := buf\<rparr>) blkno nblks;
        Some (copied, nblks, dv1, iob1) }
      else do {
        let alen = (if DISK0_BUFSIZE > resid then resid else DISK0_BUFSIZE);
        let nblks = alen div DISK0_BLKSIZE;
        dv1 \<leftarrow> disk0_read_blks_nolock dv blkno nblks;
        (_, copied, iob1, _) \<leftarrow> iobuf_move iob (disk0_buffer dv1) alen True;
        kassert (copied = alen \<and> copied mod DISK0_BLKSIZE = 0);
        Some (copied, nblks, dv1, iob1) })"

lemma disk0_io_step_copied:
  "disk0_io_step dv iob wr resid blkno = Some (copied, nblks, dv1, iob1) \<Longrightarrow> 0 < resid \<Longrightarrow> 0 < copied \<and> copied \<le> resid"
  by (auto simp: disk0_io_step_def Let_def bind_eq_Some_conv split: if_splits)

function disk0_io_loop :: "disk0 \<Rightarrow> iobuf \<Rightarrow> bool \<Rightarrow> nat \<Rightarrow> nat \<Rightarrow> (disk0 \<times> iobuf) option" where
  "disk0_io_loop dv iob wr resid blkno =
     (if resid = 0 then Some (dv, iob)
      else (case disk0_io_step dv iob wr resid blkno of
        None \<Rightarrow> kpanic
      | Some (copied, nblks, dv1, iob1) \<Rightarrow> disk0_io_loop dv1 iob1 wr (resid - copied) (blkno + nblks)))"
  by pat_completeness auto
termination
  by (relation "measure (\<lambda>(dv, iob, wr, resid, blkno). resid)") (auto dest: disk0_io_step_copied)

definition disk0_io :: "disk0 \<Rightarrow> iobuf \<Rightarrow> bool \<Rightarrow> (int \<times> disk0 \<times> iobuf) option" where
  "disk0_io dv iob wr = do {
     let offset = io_offset iob;
     let resid = io_resid iob;
     let blkno = nat ((offset div 4096) mod 2 ^ 32);
     let nblks = resid div DISK0_BLKSIZE;
     if offset mod 4096 \<noteq> 0 \<or> resid mod DISK0_BLKSIZE \<noteq> 0 then Some (- E_INVAL, dv, iob)
     else if (blkno + nblks) mod 2 ^ 32 > d_blocks dv then Some (- E_INVAL, dv, iob)
     else if nblks = 0 then Some (0, dv, iob)
     else do {
       (dv1, iob1) \<leftarrow> disk0_io_loop dv iob wr resid blkno;
       Some (0, dv1, iob1) } }"

declare disk0_io_loop.simps [simp del]

subsection \<open>Bytes of a range\<close>

lemma length_span [simp]: "length (span m a n) = n"
  by (simp add: span_def)

lemma nth_span [simp]: "i < n \<Longrightarrow> span m a n ! i = m (a + i)"
  by (simp add: span_def)

lemma span_0 [simp]: "span m a 0 = []"
  by (simp add: span_def)

lemma span_append: "span m a (n + k) = span m a n @ span m (a + n) k"
  using upt_add_eq_append[of a "a + n" k] by (simp add: span_def add.assoc)

lemma take_span: "k \<le> n \<Longrightarrow> take k (span m a n) = span m a k"
  by (simp add: span_def take_map)

lemma drop_span: "k \<le> n \<Longrightarrow> drop k (span m a n) = span m (a + k) (n - k)"
  by (simp add: span_def drop_map)

lemma span_cong: "(\<And>x. a \<le> x \<Longrightarrow> x < a + n \<Longrightarrow> m x = m' x) \<Longrightarrow> span m a n = span m' a n"
  by (simp add: span_def)

lemma overlay_Nil [simp]: "overlay m a [] = m"
  by (auto simp: overlay_def fun_eq_iff)

lemma overlay_apply: "overlay m a bs x = (if a \<le> x \<and> x < a + length bs then bs ! (x - a) else m x)"
  by (simp add: overlay_def)

lemma overlay_append: "overlay (overlay m a xs) (a + length xs) ys = overlay m a (xs @ ys)"
proof
  fix x
  show "overlay (overlay m a xs) (a + length xs) ys x = overlay m a (xs @ ys) x"
  proof (cases "a \<le> x")
    case True
    then obtain k where "x = a + k" by (auto simp: le_iff_add)
    then show ?thesis by (simp add: overlay_def nth_append)
  qed (simp add: overlay_def)
qed

lemma span_overlay_same [simp]: "n = length bs \<Longrightarrow> span (overlay m a bs) a n = bs"
  by (rule nth_equalityI) (simp_all add: overlay_apply)

lemma span_overlay_other: "a + length bs \<le> b \<or> b + n \<le> a \<Longrightarrow> span (overlay m a bs) b n = span m b n"
  by (rule span_cong) (auto simp: overlay_def)

lemma length_patch [simp]: "a + length bs \<le> length mem \<Longrightarrow> length (patch mem a bs) = length mem"
  by (simp add: patch_def)

lemma patch_Nil [simp]: "patch mem a [] = mem"
  by (simp add: patch_def)

lemma patch_append:
  "a + length xs + length ys \<le> length mem \<Longrightarrow> patch (patch mem a xs) (a + length xs) ys = patch mem a (xs @ ys)"
  by (auto simp: patch_def ac_simps min_def)

lemma nth_patch:
  "a + length bs \<le> length mem \<Longrightarrow> i < length mem \<Longrightarrow>
   patch mem a bs ! i = (if a \<le> i \<and> i < a + length bs then bs ! (i - a) else mem ! i)"
  by (auto simp: patch_def nth_append min_def)

lemma take_drop_patch [simp]:
  "a + length bs \<le> length mem \<Longrightarrow> take (length bs) (drop a (patch mem a bs)) = bs"
  by (simp add: patch_def)

lemma patch_0_all: "length bs = length mem \<Longrightarrow> patch mem 0 bs = bs"
  by (simp add: patch_def)

subsection \<open>Transfers without a drive error\<close>

definition drive_ok :: "ide_device \<Rightarrow> bool" where
  "drive_ok d \<longleftrightarrow> ide_valid d \<and> (\<forall>s. \<not> ide_bad d s)"

lemma ide_read_loop_ok:
  "drive_ok d \<Longrightarrow> ide_read_loop d s n = (0, span (ide_bytes d) (s * 512) (n * 512))"
proof (induction n arbitrary: s)
  case (Suc n)
  then show ?case using span_append[of "ide_bytes d" "s * 512" 512 "n * 512"] by (simp add: drive_ok_def algebra_simps)
qed simp

lemma ide_write_loop_ok:
  "drive_ok d \<Longrightarrow> n * 512 \<le> length src \<Longrightarrow>
   ide_write_loop d s src n = (0, d\<lparr>ide_bytes := overlay (ide_bytes d) (s * 512) (take (n * 512) src)\<rparr>)"
proof (induction n arbitrary: s src d)
  case (Suc n)
  let ?d = "d\<lparr>ide_bytes := overlay (ide_bytes d) (s * 512) (take 512 src)\<rparr>"
  have l: "length (take 512 src) = 512" using Suc.prems by simp
  have "drive_ok ?d" using Suc.prems by (simp add: drive_ok_def)
  then have "ide_write_loop ?d (Suc s) (drop 512 src) n =
      (0, ?d\<lparr>ide_bytes := overlay (ide_bytes ?d) (Suc s * 512) (take (n * 512) (drop 512 src))\<rparr>)"
    using Suc.prems by (intro Suc.IH) auto
  also have "overlay (ide_bytes ?d) (Suc s * 512) (take (n * 512) (drop 512 src)) = overlay (ide_bytes d) (s * 512) (take (Suc n * 512) src)"
    using overlay_append[of "ide_bytes d" "s * 512" "take 512 src"] l by (simp add: take_add add.commute)
  finally show ?case using Suc.prems by (simp add: drive_ok_def)
qed simp

definition disk0_ok :: "disk0 \<Rightarrow> bool" where
  "disk0_ok dv \<longleftrightarrow> drive_ok (drive dv) \<and> length (disk0_buffer dv) = DISK0_BUFSIZE \<and> d_blocks dv * 8 \<le> 0x10000000"

text \<open>What a transfer of the blocks from \<open>blkno\<close> on does, in one step.\<close>

definition blocks_written :: "disk0 \<Rightarrow> nat \<Rightarrow> u8 list \<Rightarrow> disk0 \<Rightarrow> bool" where
  "blocks_written dv blkno bs dv' \<longleftrightarrow> disk0_ok dv' \<and> d_blocks dv' = d_blocks dv \<and>
     drive dv' = (drive dv)\<lparr>ide_bytes := overlay (ide_bytes (drive dv)) (blkno * DISK0_BLKSIZE) bs\<rparr>"

definition iob_advance :: "iobuf \<Rightarrow> nat \<Rightarrow> iobuf" where
  "iob_advance iob n = iob\<lparr>io_base := io_base iob + n, io_offset := io_offset iob + int n, io_resid := io_resid iob - n\<rparr>"

lemma disk0_write_step:
  assumes ok: "disk0_ok dv" and r: "resid mod 4096 = 0" "0 < resid" "io_resid iob = resid" "io_base iob + resid \<le> length (io_mem iob)"
    and b: "blkno + resid div 4096 \<le> d_blocks dv" and c: "c = min 16384 resid"
  shows "\<exists>dv1. disk0_io_step dv iob True resid blkno = Some (c, c div 4096, dv1, iob_advance iob c) \<and>
    blocks_written dv blkno (take c (drop (io_base iob) (io_mem iob))) dv1"
proof -
  have cm: "c mod 4096 = 0" "0 < c" "c \<le> resid" "c \<le> 16384" using r(1,2) c by (auto simp: min_def)
  let ?bs = "take c (drop (io_base iob) (io_mem iob))"
  let ?buf = "patch (disk0_buffer dv) 0 ?bs"
  have lbs: "length ?bs = c" using r(4) cm by simp
  have mv: "iobuf_move iob (disk0_buffer dv) 16384 False = Some (if 16384 - c = 0 then 0 else - E_NO_MEM, c, iob_advance iob c, ?buf)"
    using cm c r by (auto simp: iobuf_move_def iobuf_skip_def iob_advance_def Let_def min_def)
  have cd: "c div 4096 * 4096 = c" "c div 4096 \<le> 4" using cm by auto
  have "c div 4096 \<le> resid div 4096" using cm(3) by (rule div_le_mono)
  then have "blkno + c div 4096 \<le> d_blocks dv" using b by linarith
  moreover have "0 < c div 4096" using cm by auto
  ultimately have n: "blkno * 8 + c div 4096 * 8 \<le> 0x10000000" "blkno * 8 < 0x10000000"
    using ok by (auto simp: disk0_ok_def)
  have lbuf: "length ?buf = 16384" using ok lbs cm by (simp add: disk0_ok_def)
  have c8: "c div 4096 * 8 * 512 = c" using cd(1) by simp
  have tk: "take (c div 4096 * 8 * 512) ?buf = ?bs" unfolding c8 using lbs by (simp add: patch_def)
  have "ide_write_secs (drive dv) (blkno * 8 mod 2 ^ 32) ?buf (c div 4096 * 8 mod 2 ^ 32) =
    Some (0, (drive dv)\<lparr>ide_bytes := overlay (ide_bytes (drive dv)) (blkno * 4096) ?bs\<rparr>)"
    using ok n cd lbuf ide_write_loop_ok[of "drive dv" "c div 4096 * 8" ?buf "blkno * 8"] tk cm(4)
    by (simp add: ide_write_secs_def disk0_ok_def drive_ok_def ide_device_valid_def mult.assoc)
  then show ?thesis
    using mv cm lbuf ok by (simp add: disk0_io_step_def disk0_write_blks_nolock_def Let_def blocks_written_def disk0_ok_def drive_ok_def)
qed

lemma disk0_read_step:
  assumes ok: "disk0_ok dv" and r: "resid mod 4096 = 0" "0 < resid" "io_resid iob = resid" "io_base iob + resid \<le> length (io_mem iob)"
    and b: "blkno + resid div 4096 \<le> d_blocks dv" and c: "c = min 16384 resid"
    and i: "iob1 = iob_advance (iob\<lparr>io_mem := patch (io_mem iob) (io_base iob) (span (ide_bytes (drive dv)) (blkno * 4096) c)\<rparr>) c"
  shows "\<exists>dv1. disk0_io_step dv iob False resid blkno = Some (c, c div 4096, dv1, iob1) \<and>
    disk0_ok dv1 \<and> drive dv1 = drive dv \<and> d_blocks dv1 = d_blocks dv"
proof -
  have cm: "c mod 4096 = 0" "0 < c" "c \<le> resid" "c \<le> 16384" using r(1,2) c by (auto simp: min_def)
  have cd: "c div 4096 * 4096 = c" "c div 4096 \<le> 4" using cm by auto
  have "c div 4096 \<le> resid div 4096" using cm(3) by (rule div_le_mono)
  then have "blkno + c div 4096 \<le> d_blocks dv" using b by linarith
  moreover have "0 < c div 4096" using cm by auto
  ultimately have n: "blkno * 8 + c div 4096 * 8 \<le> 0x10000000" "blkno * 8 < 0x10000000"
    using ok by (auto simp: disk0_ok_def)
  have c8: "c div 4096 * 8 * 512 = c" using cd(1) by simp
  let ?bs = "span (ide_bytes (drive dv)) (blkno * 4096) c"
  let ?buf = "?bs @ drop c (disk0_buffer dv)"
  have lp: "ide_read_loop (drive dv) (blkno * 8) (c div 4096 * 8) = (0, ?bs)"
    using ide_read_loop_ok[of "drive dv" "blkno * 8" "c div 4096 * 8"] ok unfolding c8 by (simp add: disk0_ok_def mult.commute)
  have sm: "blkno * 8 mod 2 ^ 32 = blkno * 8" "c div 4096 * 8 mod 2 ^ 32 = c div 4096 * 8" using n cd(2) by simp_all
  have "ide_read_secs (drive dv) (blkno * 8 mod 2 ^ 32) (disk0_buffer dv) (c div 4096 * 8 mod 2 ^ 32) = Some (0, ?buf)"
    unfolding sm using n cd ok lp by (simp add: ide_read_secs_def disk0_ok_def drive_ok_def ide_device_valid_def)
  then have rd: "disk0_read_blks_nolock dv blkno (c div 4096) = Some (dv\<lparr>disk0_buffer := ?buf\<rparr>)"
    by (simp add: disk0_read_blks_nolock_def)
  have ac: "(if DISK0_BUFSIZE > resid then resid else DISK0_BUFSIZE) = c" using c by simp
  have mv: "iobuf_move iob ?buf c True = Some (0, c, iob1, ?buf)"
    using cm r i by (auto simp: iobuf_move_def iobuf_skip_def iob_advance_def Let_def)
  have "disk0_ok (dv\<lparr>disk0_buffer := ?buf\<rparr>)" using ok cm by (simp add: disk0_ok_def)
  with rd mv cm show ?thesis unfolding disk0_io_step_def Let_def ac by simp
qed

lemma iob_advance_add: "iob_advance (iob_advance iob a) b = iob_advance iob (a + b)"
  by (simp add: iob_advance_def)

lemma io_loop_rest:
  fixes resid :: nat
  assumes "resid mod 4096 = 0" "c = min 16384 resid"
  shows "(resid - c) mod 4096 = 0" "c div 4096 + (resid - c) div 4096 = resid div 4096" "c div 4096 * 4096 = c"
  using assms by (auto simp: min_def split: if_splits)

lemma disk0_io_loop_write:
  assumes "disk0_ok dv" "resid mod 4096 = 0" "io_resid iob = resid" "io_base iob + resid \<le> length (io_mem iob)"
    "blkno + resid div 4096 \<le> d_blocks dv"
  shows "\<exists>dv1. disk0_io_loop dv iob True resid blkno = Some (dv1, iob_advance iob resid) \<and>
    blocks_written dv blkno (take resid (drop (io_base iob) (io_mem iob))) dv1"
  using assms
proof (induction resid arbitrary: dv iob blkno rule: less_induct)
  case (less resid)
  show ?case
  proof (cases "resid = 0")
    case True
    then show ?thesis using less.prems by (simp add: disk0_io_loop.simps iob_advance_def blocks_written_def)
  next
    case False
    define c where "c = min 16384 resid"
    note rest = io_loop_rest[OF less.prems(2) c_def]
    let ?m = "drop (io_base iob) (io_mem iob)"
    obtain dv1 where d1: "disk0_io_step dv iob True resid blkno = Some (c, c div 4096, dv1, iob_advance iob c)"
        "blocks_written dv blkno (take c ?m) dv1"
      using disk0_write_step[OF less.prems(1,2) _ less.prems(3,4,5) c_def] False by auto
    have c: "0 < c" "c \<le> resid" using False by (simp_all add: c_def)
    have "\<exists>dv2. disk0_io_loop dv1 (iob_advance iob c) True (resid - c) (blkno + c div 4096) =
        Some (dv2, iob_advance (iob_advance iob c) (resid - c)) \<and>
      blocks_written dv1 (blkno + c div 4096) (take (resid - c) (drop (io_base (iob_advance iob c)) (io_mem (iob_advance iob c)))) dv2"
      using less.prems c d1(2) rest by (intro less.IH) (auto simp: iob_advance_def blocks_written_def)
    then obtain dv2 where d2: "disk0_io_loop dv1 (iob_advance iob c) True (resid - c) (blkno + c div 4096) = Some (dv2, iob_advance iob resid)"
        "blocks_written dv1 (blkno + c div 4096) (take (resid - c) (drop c ?m)) dv2"
      using c by (auto simp: iob_advance_add) (auto simp: iob_advance_def add.commute)
    have "length (take c ?m) = c" using less.prems c by simp
    moreover have "take resid ?m = take c ?m @ take (resid - c) (drop c ?m)" using c by (metis le_add_diff_inverse take_add)
    ultimately have "blocks_written dv blkno (take resid ?m) dv2"
      using d1(2) d2(2) overlay_append[of "ide_bytes (drive dv)" "blkno * 4096" "take c ?m" "take (resid - c) (drop c ?m)"] rest(3)
      by (simp add: blocks_written_def add_mult_distrib)
    with d1 d2 False show ?thesis by (simp add: disk0_io_loop.simps[of dv])
  qed
qed

lemma disk0_io_loop_read:
  assumes "disk0_ok dv" "resid mod 4096 = 0" "io_resid iob = resid" "io_base iob + resid \<le> length (io_mem iob)"
    "blkno + resid div 4096 \<le> d_blocks dv"
  shows "\<exists>dv1. disk0_io_loop dv iob False resid blkno =
      Some (dv1, iob_advance (iob\<lparr>io_mem := patch (io_mem iob) (io_base iob) (span (ide_bytes (drive dv)) (blkno * 4096) resid)\<rparr>) resid) \<and>
    disk0_ok dv1 \<and> drive dv1 = drive dv \<and> d_blocks dv1 = d_blocks dv"
  using assms
proof (induction resid arbitrary: dv iob blkno rule: less_induct)
  case (less resid)
  show ?case
  proof (cases "resid = 0")
    case True
    then show ?thesis using less.prems by (simp add: disk0_io_loop.simps iob_advance_def)
  next
    case False
    define c where "c = min 16384 resid"
    note rest = io_loop_rest[OF less.prems(2) c_def]
    let ?m = "ide_bytes (drive dv)"
    define iob1 where "iob1 = iob_advance (iob\<lparr>io_mem := patch (io_mem iob) (io_base iob) (span ?m (blkno * 4096) c)\<rparr>) c"
    obtain dv1 where d1: "disk0_io_step dv iob False resid blkno = Some (c, c div 4096, dv1, iob1)"
        "disk0_ok dv1" "drive dv1 = drive dv" "d_blocks dv1 = d_blocks dv"
      using disk0_read_step[OF less.prems(1,2) _ less.prems(3,4,5) c_def iob1_def] False by auto
    have c: "0 < c" "c \<le> resid" using False by (simp_all add: c_def)
    have i1: "io_base iob1 = io_base iob + c" "io_resid iob1 = resid - c" "length (io_mem iob1) = length (io_mem iob)"
      using less.prems c by (simp_all add: iob1_def iob_advance_def)
    have sp: "span ?m (blkno * 4096) c @ span ?m ((blkno + c div 4096) * 4096) (resid - c) = span ?m (blkno * 4096) resid"
      using span_append[of ?m "blkno * 4096" c "resid - c"] c rest(3) by (simp add: add_mult_distrib)
    have pt: "patch (io_mem iob1) (io_base iob1) (span ?m ((blkno + c div 4096) * 4096) (resid - c)) =
        patch (io_mem iob) (io_base iob) (span ?m (blkno * 4096) resid)"
      using patch_append[of "io_base iob" "span ?m (blkno * 4096) c" "span ?m ((blkno + c div 4096) * 4096) (resid - c)" "io_mem iob"]
        less.prems(4) c unfolding sp by (simp add: iob1_def iob_advance_def)
    have "\<exists>dv2. disk0_io_loop dv1 iob1 False (resid - c) (blkno + c div 4096) =
        Some (dv2, iob_advance (iob1\<lparr>io_mem := patch (io_mem iob1) (io_base iob1) (span (ide_bytes (drive dv1)) ((blkno + c div 4096) * 4096) (resid - c))\<rparr>) (resid - c)) \<and>
      disk0_ok dv2 \<and> drive dv2 = drive dv1 \<and> d_blocks dv2 = d_blocks dv1"
      using less.prems c d1 rest i1 by (intro less.IH) auto
    moreover have "iob_advance (iob1\<lparr>io_mem := M\<rparr>) (resid - c) = iob_advance (iob\<lparr>io_mem := M\<rparr>) resid" for M
      using c by (simp add: iob1_def iob_advance_def)
    ultimately show ?thesis using d1 False pt by (auto simp: disk0_io_loop.simps[of dv])
  qed
qed

lemma disk0_io_blocks:
  assumes "disk0_ok dv" "0 \<le> io_offset iob" "io_offset iob < 2 ^ 31" "io_base iob + io_resid iob \<le> length (io_mem iob)" "io_resid iob < 2 ^ 31"
    and "bno = nat (io_offset iob) div 4096"
  shows "if io_offset iob mod 4096 \<noteq> 0 \<or> io_resid iob mod 4096 \<noteq> 0 \<or> bno + io_resid iob div 4096 > d_blocks dv
    then disk0_io dv iob wr = Some (- E_INVAL, dv, iob)
    else \<exists>dv1 iob1. disk0_io dv iob wr = Some (0, dv1, iob1) \<and> disk0_ok dv1 \<and> d_blocks dv1 = d_blocks dv \<and>
      io_base iob1 = io_base iob + io_resid iob \<and> io_offset iob1 = io_offset iob + int (io_resid iob) \<and> io_resid iob1 = 0 \<and>
      (if wr then io_mem iob1 = io_mem iob \<and>
         drive dv1 = (drive dv)\<lparr>ide_bytes := overlay (ide_bytes (drive dv)) (bno * 4096) (take (io_resid iob) (drop (io_base iob) (io_mem iob)))\<rparr>
       else drive dv1 = drive dv \<and> io_mem iob1 = patch (io_mem iob) (io_base iob) (span (ide_bytes (drive dv)) (bno * 4096) (io_resid iob)))"
proof -
  have bn: "nat ((io_offset iob div 4096) mod 2 ^ 32) = bno"
    using assms(2,3,6) by (simp add: nat_div_distrib)
  have sm: "(bno + io_resid iob div 4096) mod 2 ^ 32 = bno + io_resid iob div 4096"
  proof -
    have "bno < 2 ^ 31" using assms(2,3,6) by (simp add: div_less_dividend less_mult_imp_div_less)
    then show ?thesis using assms(5) by simp
  qed
  show ?thesis
  proof (cases "io_offset iob mod 4096 \<noteq> 0 \<or> io_resid iob mod 4096 \<noteq> 0 \<or> bno + io_resid iob div 4096 > d_blocks dv")
    case True
    then show ?thesis unfolding disk0_io_def Let_def bn sm by auto
  next
    case False
    then have r: "io_resid iob mod 4096 = 0" "bno + io_resid iob div 4096 \<le> d_blocks dv" by auto
    have z: "io_resid iob div 4096 = 0 \<longleftrightarrow> io_resid iob = 0" using r(1) by auto
    note w = disk0_io_loop_write[OF assms(1) r(1) refl assms(4) r(2)] and rd = disk0_io_loop_read[OF assms(1) r(1) refl assms(4) r(2)]
    show ?thesis
    proof (cases "io_resid iob = 0")
      case True
      then show ?thesis using False assms(1) unfolding disk0_io_def Let_def bn sm z by auto
    next
      case nz: False
      show ?thesis
      proof (cases wr)
        case True
        then show ?thesis using w False nz unfolding disk0_io_def Let_def bn sm z by (auto simp: blocks_written_def iob_advance_def)
      next
        case nw: False
        then show ?thesis using rd False nz unfolding disk0_io_def Let_def bn sm z by (auto simp: iob_advance_def)
      qed
    qed
  qed
qed

text \<open>
  C31. A transfer to or from disk0 that lies on the device moves exactly the requested blocks,
  however the data is cut into chunks of the bounce buffer: a write replaces these bytes of the drive
  by the bytes of the buffer and no other byte, a read leaves the drive alone and puts its bytes into
  the buffer; a request that is not block-aligned or ends past the device is refused and changes nothing.
\<close>

theorem disk0_io_moves_blocks:
  assumes "disk0_ok dv" "0 \<le> io_offset iob" "io_offset iob < 2 ^ 31" "io_base iob + io_resid iob \<le> length (io_mem iob)" "io_resid iob < 2 ^ 31"
    and "bno = nat (io_offset iob) div 4096"
  shows "if io_offset iob mod 4096 \<noteq> 0 \<or> io_resid iob mod 4096 \<noteq> 0 \<or> bno + io_resid iob div 4096 > d_blocks dv
    then disk0_io dv iob wr = Some (- E_INVAL, dv, iob)
    else \<exists>dv1 iob1. disk0_io dv iob wr = Some (0, dv1, iob1) \<and> disk0_ok dv1 \<and> d_blocks dv1 = d_blocks dv \<and>
      io_base iob1 = io_base iob + io_resid iob \<and> io_offset iob1 = io_offset iob + int (io_resid iob) \<and> io_resid iob1 = 0 \<and>
      (if wr then io_mem iob1 = io_mem iob \<and>
         drive dv1 = (drive dv)\<lparr>ide_bytes := overlay (ide_bytes (drive dv)) (bno * 4096) (take (io_resid iob) (drop (io_base iob) (io_mem iob)))\<rparr>
       else drive dv1 = drive dv \<and> io_mem iob1 = patch (io_mem iob) (io_base iob) (span (ide_bytes (drive dv)) (bno * 4096) (io_resid iob)))"
  by (rule disk0_io_blocks[OF assms])

definition blank_disk0 :: "nat \<Rightarrow> disk0" where
  "blank_disk0 n = \<lparr>drive = \<lparr>ide_valid = True, ide_size = n * 8, ide_bytes = (\<lambda>_. 0), ide_bad = (\<lambda>_. False)\<rparr>,
     d_blocks = n, disk0_buffer = replicate 16384 0\<rparr>"

lemma blank_disk0_ok: "n \<le> 2 ^ 25 \<Longrightarrow> disk0_ok (blank_disk0 n)"
  by (simp add: blank_disk0_def disk0_ok_def drive_ok_def)

theorem disk0_io_moves_blocks_witness:
  "\<exists>dv1 iob1. disk0_io (blank_disk0 10) (iobuf_init (replicate 20480 1) 20480 8192) True = Some (0, dv1, iob1) \<and>
     ide_bytes (drive dv1) 8191 = 0 \<and> ide_bytes (drive dv1) 8192 = 1 \<and> ide_bytes (drive dv1) 28671 = 1 \<and> ide_bytes (drive dv1) 28672 = 0"
proof -
  let ?iob = "iobuf_init (replicate 20480 1) 20480 8192"
  have i: "io_offset ?iob = 8192" "io_base ?iob = 0" "io_resid ?iob = 20480" "io_mem ?iob = replicate 20480 1"
    by (simp_all add: iobuf_init_def)
  have d: "d_blocks (blank_disk0 10) = 10" "ide_bytes (drive (blank_disk0 10)) = (\<lambda>_. 0)" by (simp_all add: blank_disk0_def)
  have "disk0_ok (blank_disk0 10)" by (simp add: blank_disk0_ok)
  from disk0_io_moves_blocks[OF this, of ?iob _ True, OF _ _ _ _ refl]
  show ?thesis unfolding i d by (auto simp: overlay_apply)
qed

end
