(* ===== verification/Sfs_Block.thy ===== *)
theory Sfs_Block
  imports Bitmap Disk
begin

text \<open>
  The block layer of the simple file system: the structures of \<^verbatim>\<open>kern/fs/sfs/sfs.h\<close>, the block and
  buffer transfers of \<^verbatim>\<open>kern/fs/sfs/sfs_io.c\<close>, and the allocation of blocks in
  \<^verbatim>\<open>kern/fs/sfs/sfs_inode.c\<close>. Block numbers and sizes are natural numbers below \<open>2 ^ 32\<close>; on disk they are
  little-endian words. The semaphores of the file system are taken and released in pairs around each
  of these operations and are left out.
\<close>

subsection \<open>Little-endian words\<close>

fun le_bytes :: "nat \<Rightarrow> nat \<Rightarrow> u8 list" where
  "le_bytes 0 v = []"
| "le_bytes (Suc k) v = word_of_nat (v mod 256) # le_bytes k (v div 256)"

fun le_nat :: "u8 list \<Rightarrow> nat" where
  "le_nat [] = 0"
| "le_nat (b # bs) = unat b + 256 * le_nat bs"

lemma length_le_bytes [simp]: "length (le_bytes k v) = k"
  by (induction k arbitrary: v) simp_all

lemma le_nat_le_bytes [simp]: "v < 256 ^ k \<Longrightarrow> le_nat (le_bytes k v) = v"
proof (induction k arbitrary: v)
  case (Suc k)
  then have "v div 256 < 256 ^ k" by (simp add: less_mult_imp_div_less mult.commute)
  with Suc.IH have "le_nat (le_bytes k (v div 256)) = v div 256" by blast
  moreover have "unat (word_of_nat (v mod 256) :: u8) = v mod 256" by (simp add: unat_of_nat take_bit_eq_mod)
  ultimately show ?case by (simp only: le_bytes.simps le_nat.simps mod_mult_div_eq)
qed simp

lemma le_nat_bound: "le_nat bs < 256 ^ length bs"
proof (induction bs)
  case (Cons b bs)
  have "unat b < 256" using unsigned_less[of b] by simp
  with Cons show ?case by simp
qed simp

lemma le_bytes_le_nat: "length bs = k \<Longrightarrow> le_bytes k (le_nat bs) = bs"
proof (induction bs arbitrary: k)
  case (Cons b bs)
  have b: "unat b < 256" using unsigned_less[of b] by simp
  then have "(unat b + 256 * le_nat bs) mod 256 = unat b" "(unat b + 256 * le_nat bs) div 256 = le_nat bs" by simp_all
  with Cons show ?case by auto
qed simp

lemma le_nat_0: "le_nat (replicate k 0) = 0"
  by (induction k) simp_all

subsection \<open>Structures\<close>

record sfs_super =
  sb_magic :: nat
  sb_blocks :: nat
  sb_unused :: nat
  sb_info :: "u8 list"

record sfs_disk_inode =
  din_size :: nat
  din_type :: nat
  din_nlinks :: nat
  din_blocks :: nat
  din_direct :: "nat list"
  din_indirect :: nat

record sfs_inode =
  sin_din :: sfs_disk_inode
  sin_ino :: nat
  sin_dirty :: bool
  sin_reclaim :: int
  sin_ref :: int
  sin_open :: int

record sfs_disk_entry =
  ent_ino :: nat
  ent_name :: "u8 list"

text \<open>
  \<open>sin_ref\<close> and \<open>sin_open\<close> are the counts of the inode that contains the \<^verbatim>\<open>sfs_inode\<close>. The inodes in memory are
  a store of addresses; \<open>inode_list\<close> and \<open>hash_list\<close> are the two rings of the file system.
\<close>

record sfs_fs =
  super :: sfs_super
  sdev :: disk0
  freemap :: bitmap
  super_dirty :: bool
  sfs_buffer :: "u8 list"
  inodes :: "nat \<Rightarrow> sfs_inode"
  inode_list :: "nat list"
  hash_list :: "nat \<Rightarrow> nat list"

abbreviation SFS_BLKSIZE :: nat where "SFS_BLKSIZE \<equiv> 4096"
abbreviation SFS_NDIRECT :: nat where "SFS_NDIRECT \<equiv> 12"
abbreviation SFS_BLK_NENTRY :: nat where "SFS_BLK_NENTRY \<equiv> 1024"
abbreviation SFS_MAX_FILE_SIZE :: int where "SFS_MAX_FILE_SIZE \<equiv> 134217728"
abbreviation SFS_MAX_FNAME_LEN :: nat where "SFS_MAX_FNAME_LEN \<equiv> 255"
abbreviation SFS_MAGIC :: nat where "SFS_MAGIC \<equiv> 0x2f8dbe2a"

definition SFS_TYPE_FILE :: nat where "SFS_TYPE_FILE = 1"
definition SFS_TYPE_DIR :: nat where "SFS_TYPE_DIR = 2"
definition SFS_TYPE_LINK :: nat where "SFS_TYPE_LINK = 3"

lemmas sfs_types = SFS_TYPE_FILE_def SFS_TYPE_DIR_def SFS_TYPE_LINK_def

text \<open>\<^verbatim>\<open>off_t\<close> is a signed word of 32 bits.\<close>

definition to_off :: "nat \<Rightarrow> int" where
  "to_off n = sint (word_of_nat n :: u32)"

lemma to_off_small [simp]: "n < 2 ^ 31 \<Longrightarrow> to_off n = int n"
  by (simp add: to_off_def signed_of_nat signed_take_bit_int_eq_self)

subsection \<open>Block transfer (sfs_io.c)\<close>

definition sfs_rwblock_nolock :: "sfs_fs \<Rightarrow> u8 list \<Rightarrow> nat \<Rightarrow> bool \<Rightarrow> bool \<Rightarrow> (int \<times> u8 list \<times> sfs_fs) option" where
  "sfs_rwblock_nolock s buf blkno wr chk = do {
     kassert ((blkno \<noteq> 0 \<or> \<not> chk) \<and> blkno < sb_blocks (super s));
     (r, dv, iob) \<leftarrow> disk0_io (sdev s) (iobuf_init buf SFS_BLKSIZE (to_off (blkno * SFS_BLKSIZE))) wr;
     Some (r, io_mem iob, s\<lparr>sdev := dv\<rparr>) }"

fun sfs_rwblock :: "sfs_fs \<Rightarrow> u8 list \<Rightarrow> nat \<Rightarrow> nat \<Rightarrow> bool \<Rightarrow> (int \<times> u8 list \<times> sfs_fs) option" where
  "sfs_rwblock s buf blkno 0 wr = Some (0, buf, s)"
| "sfs_rwblock s buf blkno (Suc n) wr = do {
     (r, buf1, s1) \<leftarrow> sfs_rwblock_nolock s buf blkno wr True;
     if r \<noteq> 0 then Some (r, buf1, s1)
     else do {
       (r2, buf2, s2) \<leftarrow> sfs_rwblock s1 (drop SFS_BLKSIZE buf1) (Suc blkno) n wr;
       Some (r2, take SFS_BLKSIZE buf1 @ buf2, s2) } }"

definition sfs_rblock :: "sfs_fs \<Rightarrow> u8 list \<Rightarrow> nat \<Rightarrow> nat \<Rightarrow> (int \<times> u8 list \<times> sfs_fs) option" where
  "sfs_rblock s buf blkno nblks = sfs_rwblock s buf blkno nblks False"

definition sfs_wblock :: "sfs_fs \<Rightarrow> u8 list \<Rightarrow> nat \<Rightarrow> nat \<Rightarrow> (int \<times> sfs_fs) option" where
  "sfs_wblock s buf blkno nblks = do {
     (r, _, s1) \<leftarrow> sfs_rwblock s buf blkno nblks True;
     Some (r, s1) }"

definition sfs_rbuf :: "sfs_fs \<Rightarrow> u8 list \<Rightarrow> nat \<Rightarrow> nat \<Rightarrow> nat \<Rightarrow> (int \<times> u8 list \<times> sfs_fs) option" where
  "sfs_rbuf s buf len blkno offset = do {
     kassert (offset < SFS_BLKSIZE \<and> offset + len \<le> SFS_BLKSIZE);
     (r, b, s1) \<leftarrow> sfs_rwblock_nolock s (sfs_buffer s) blkno False True;
     let s2 = s1\<lparr>sfs_buffer := b\<rparr>;
     if r = 0 then Some (r, patch buf 0 (take len (drop offset b)), s2) else Some (r, buf, s2) }"

definition sfs_wbuf :: "sfs_fs \<Rightarrow> u8 list \<Rightarrow> nat \<Rightarrow> nat \<Rightarrow> nat \<Rightarrow> (int \<times> sfs_fs) option" where
  "sfs_wbuf s buf len blkno offset = do {
     kassert (offset < SFS_BLKSIZE \<and> offset + len \<le> SFS_BLKSIZE);
     (r, b, s1) \<leftarrow> sfs_rwblock_nolock s (sfs_buffer s) blkno False True;
     let s2 = s1\<lparr>sfs_buffer := b\<rparr>;
     if r = 0 then do {
       let b2 = patch b offset (take len buf);
       (r2, b3, s3) \<leftarrow> sfs_rwblock_nolock (s2\<lparr>sfs_buffer := b2\<rparr>) b2 blkno True True;
       Some (r2, s3\<lparr>sfs_buffer := b3\<rparr>) }
     else Some (r, s2) }"

definition super_bytes :: "sfs_super \<Rightarrow> u8 list" where
  "super_bytes sb = le_bytes 4 (sb_magic sb) @ le_bytes 4 (sb_blocks sb) @ le_bytes 4 (sb_unused sb) @ sb_info sb"

definition sfs_sync_super :: "sfs_fs \<Rightarrow> (int \<times> sfs_fs) option" where
  "sfs_sync_super s = do {
     let b = patch (replicate SFS_BLKSIZE 0) 0 (super_bytes (super s));
     (r, b1, s1) \<leftarrow> sfs_rwblock_nolock (s\<lparr>sfs_buffer := b\<rparr>) b 0 True False;
     Some (r, s1\<lparr>sfs_buffer := b1\<rparr>) }"

definition sfs_freemap_bits :: "sfs_super \<Rightarrow> nat" where
  "sfs_freemap_bits sb = (let a = (sb_blocks sb + 32767) mod 2 ^ 32 in a - a mod 32768)"

definition sfs_freemap_blocks :: "sfs_super \<Rightarrow> nat" where
  "sfs_freemap_blocks sb = ((sb_blocks sb + 32767) mod 2 ^ 32) div 32768"

definition words_bytes :: "u32 list \<Rightarrow> u8 list" where
  "words_bytes ws = concat (map (\<lambda>w. le_bytes 4 (unat w)) ws)"

definition sfs_sync_freemap :: "sfs_fs \<Rightarrow> (int \<times> sfs_fs) option" where
  "sfs_sync_freemap s =
     sfs_wblock s (words_bytes (fst (bitmap_getdata (freemap s)))) 2 (sfs_freemap_blocks (super s))"

fun sfs_clear_loop :: "sfs_fs \<Rightarrow> nat \<Rightarrow> nat \<Rightarrow> (int \<times> sfs_fs) option" where
  "sfs_clear_loop s blkno 0 = Some (0, s)"
| "sfs_clear_loop s blkno (Suc n) = do {
     (r, b, s1) \<leftarrow> sfs_rwblock_nolock s (sfs_buffer s) blkno True True;
     if r \<noteq> 0 then Some (r, s1) else sfs_clear_loop s1 (Suc blkno) n }"

text \<open>
  With no block to clear the C function returns an uninitialised value, and the model zero; its
  callers pass one block.
\<close>

definition sfs_clear_block :: "sfs_fs \<Rightarrow> nat \<Rightarrow> nat \<Rightarrow> (int \<times> sfs_fs) option" where
  "sfs_clear_block s blkno nblks = sfs_clear_loop (s\<lparr>sfs_buffer := replicate SFS_BLKSIZE 0\<rparr>) blkno nblks"

subsection \<open>Block allocation (sfs_inode.c)\<close>

definition sfs_block_inuse :: "sfs_fs \<Rightarrow> nat \<Rightarrow> bool option" where
  "sfs_block_inuse s ino =
     (if ino \<noteq> 0 \<and> ino < sb_blocks (super s) then map_option Not (bitmap_test (freemap s) ino) else kpanic)"

definition sfs_block_alloc :: "sfs_fs \<Rightarrow> (int \<times> nat \<times> sfs_fs) option" where
  "sfs_block_alloc s = do {
     (r, ino, fm) \<leftarrow> bitmap_alloc (freemap s);
     let s1 = s\<lparr>freemap := fm\<rparr>;
     if r \<noteq> 0 then Some (r, ino, s1)
     else do {
       kassert (sb_unused (super s1) > 0);
       let s2 = s1\<lparr>super := (super s1)\<lparr>sb_unused := sb_unused (super s1) - 1\<rparr>, super_dirty := True\<rparr>;
       u \<leftarrow> sfs_block_inuse s2 ino;
       kassert u;
       (r2, s3) \<leftarrow> sfs_clear_block s2 ino 1;
       Some (r2, ino, s3) } }"

definition sfs_block_free :: "sfs_fs \<Rightarrow> nat \<Rightarrow> sfs_fs option" where
  "sfs_block_free s ino = do {
     u \<leftarrow> sfs_block_inuse s ino;
     kassert u;
     fm \<leftarrow> bitmap_free (freemap s) ino;
     Some (s\<lparr>freemap := fm, super := (super s)\<lparr>sb_unused := sb_unused (super s) + 1\<rparr>, super_dirty := True\<rparr>) }"

subsection \<open>The state of the block layer\<close>

text \<open>
  The bytes of the volume, its free blocks, and the invariant: the device is in order and below
  2 GB (so that byte offsets fit \<^verbatim>\<open>off_t\<close>), only blocks of the volume are free, never the super block,
  and the super block counts the free ones.
\<close>

definition bytes :: "sfs_fs \<Rightarrow> nat \<Rightarrow> u8" where
  "bytes s = ide_bytes (drive (sdev s))"

definition free :: "sfs_fs \<Rightarrow> nat set" where
  "free s = free_bits (freemap s)"

definition fs_ok :: "sfs_fs \<Rightarrow> bool" where
  "fs_ok s \<longleftrightarrow> disk0_ok (sdev s) \<and> length (sfs_buffer s) = SFS_BLKSIZE \<and> sb_blocks (super s) \<le> d_blocks (sdev s) \<and>
     d_blocks (sdev s) \<le> 2 ^ 19 \<and> bitmap_inv (freemap s) \<and> sb_blocks (super s) \<le> nbits (freemap s) \<and>
     free s \<subseteq> {0<..<sb_blocks (super s)} \<and> sb_unused (super s) = card (free s)"

definition frame :: "sfs_fs \<Rightarrow> sfs_fs \<Rightarrow> bool" where
  "frame s s' \<longleftrightarrow> inodes s' = inodes s \<and> inode_list s' = inode_list s \<and> hash_list s' = hash_list s \<and>
     sb_blocks (super s') = sb_blocks (super s) \<and> sb_magic (super s') = sb_magic (super s) \<and> sb_info (super s') = sb_info (super s) \<and>
     nbits (freemap s') = nbits (freemap s) \<and> nwords (freemap s') = nwords (freemap s)"

definition fs_step :: "sfs_fs \<Rightarrow> nat set \<Rightarrow> (nat \<Rightarrow> u8) \<Rightarrow> sfs_fs \<Rightarrow> bool" where
  "fs_step s F m s' \<longleftrightarrow> fs_ok s' \<and> free s' = F \<and> bytes s' = m \<and> frame s s'"

lemma frame_refl [simp]: "frame s s"
  by (simp add: frame_def)

lemma frame_trans: "frame s s1 \<Longrightarrow> frame s1 s2 \<Longrightarrow> frame s s2"
  by (simp add: frame_def)

lemma fs_step_refl: "fs_ok s \<Longrightarrow> fs_step s (free s) (bytes s) s"
  by (simp add: fs_step_def)

lemma fs_step_trans: "fs_step s F m s1 \<Longrightarrow> fs_step s1 F' m' s2 \<Longrightarrow> fs_step s F' m' s2"
  by (auto simp: fs_step_def intro: frame_trans)

lemma fs_step_ok: "fs_step s F m s' \<Longrightarrow> fs_ok s'"
  by (simp add: fs_step_def)

lemma fs_step_blocks: "fs_step s F m s' \<Longrightarrow> sb_blocks (super s') = sb_blocks (super s)"
  by (simp add: fs_step_def frame_def)

lemma finite_free: "fs_ok s \<Longrightarrow> finite (free s)"
  unfolding fs_ok_def by (meson finite_greaterThanLessThan finite_subset)

lemma fs_ok_buffer: "fs_ok s \<Longrightarrow> length b = SFS_BLKSIZE \<Longrightarrow> fs_ok (s\<lparr>sfs_buffer := b\<rparr>)"
  by (simp add: fs_ok_def free_def)

lemma fs_step_buffer: "fs_step s F m s' \<Longrightarrow> length b = SFS_BLKSIZE \<Longrightarrow> fs_step s F m (s'\<lparr>sfs_buffer := b\<rparr>)"
  by (auto simp: fs_step_def fs_ok_buffer frame_def free_def bytes_def)

lemma fs_step_from_buffer: "fs_step (s\<lparr>sfs_buffer := b\<rparr>) F m s' = fs_step s F m s'"
  by (simp add: fs_step_def frame_def)

lemma buffer_views [simp]: "free (s\<lparr>sfs_buffer := b\<rparr>) = free s" "bytes (s\<lparr>sfs_buffer := b\<rparr>) = bytes s"
  by (simp_all add: free_def bytes_def)

lemma fs_ok_dev: "fs_ok s \<Longrightarrow> disk0_ok dv \<Longrightarrow> d_blocks dv = d_blocks (sdev s) \<Longrightarrow> fs_ok (s\<lparr>sdev := dv\<rparr>)"
  by (simp add: fs_ok_def free_def)

subsection \<open>Transfers\<close>

lemma rwblock_io:
  assumes "fs_ok s" "blkno < sb_blocks (super s)" "SFS_BLKSIZE \<le> length buf"
  shows "\<exists>dv iob. disk0_io (sdev s) (iobuf_init buf SFS_BLKSIZE (to_off (blkno * SFS_BLKSIZE))) wr = Some (0, dv, iob) \<and>
    disk0_ok dv \<and> d_blocks dv = d_blocks (sdev s) \<and>
    (if wr then io_mem iob = buf \<and> ide_bytes (drive dv) = overlay (bytes s) (blkno * 4096) (take 4096 buf)
     else drive dv = drive (sdev s) \<and> io_mem iob = patch buf 0 (span (bytes s) (blkno * 4096) 4096))"
proof -
  let ?iob = "iobuf_init buf SFS_BLKSIZE (to_off (blkno * SFS_BLKSIZE))"
  have b: "blkno * 4096 < 2 ^ 31" "blkno < d_blocks (sdev s)" using assms(1,2) by (auto simp: fs_ok_def)
  then have o: "to_off (blkno * 4096) = int (blkno * 4096)" by (intro to_off_small)
  have i: "io_offset ?iob = int (blkno * 4096)" "io_resid ?iob = 4096" "io_base ?iob = 0" "io_mem ?iob = buf"
    unfolding iobuf_init_def o by simp_all
  have d: "disk0_ok (sdev s)" using assms(1) by (simp add: fs_ok_def)
  have bn: "blkno = nat (io_offset ?iob) div 4096" unfolding i by simp
  have g: "0 \<le> io_offset ?iob" "io_offset ?iob < 2 ^ 31" "io_base ?iob + io_resid ?iob \<le> length (io_mem ?iob)" "io_resid ?iob < 2 ^ 31"
    unfolding i using b(1) assms(3) by simp_all
  have "\<not> (io_offset ?iob mod 4096 \<noteq> 0 \<or> io_resid ?iob mod 4096 \<noteq> 0 \<or> blkno + io_resid ?iob div 4096 > d_blocks (sdev s))"
    unfolding i using b(2) by simp
  with disk0_io_blocks[OF d g bn, of wr] show ?thesis unfolding i by (cases wr) (auto simp: bytes_def)
qed

lemma rwblock_write:
  assumes "fs_ok s" "blkno < sb_blocks (super s)" "SFS_BLKSIZE \<le> length buf" "blkno \<noteq> 0 \<or> \<not> chk"
  shows "\<exists>s'. sfs_rwblock_nolock s buf blkno True chk = Some (0, buf, s') \<and>
    fs_step s (free s) (overlay (bytes s) (blkno * 4096) (take 4096 buf)) s' \<and> sfs_buffer s' = sfs_buffer s"
  using rwblock_io[OF assms(1-3), of True] assms(1,2,4)
  by (auto simp: sfs_rwblock_nolock_def fs_step_def fs_ok_dev frame_def free_def) (simp_all add: bytes_def)

lemma rwblock_read:
  assumes "fs_ok s" "blkno < sb_blocks (super s)" "SFS_BLKSIZE \<le> length buf" "blkno \<noteq> 0 \<or> \<not> chk"
  shows "\<exists>s'. sfs_rwblock_nolock s buf blkno False chk = Some (0, patch buf 0 (span (bytes s) (blkno * 4096) 4096), s') \<and>
    fs_step s (free s) (bytes s) s' \<and> sfs_buffer s' = sfs_buffer s"
  using rwblock_io[OF assms(1-3), of False] assms(1,2,4)
  by (auto simp: sfs_rwblock_nolock_def fs_step_def fs_ok_dev frame_def free_def) (simp_all add: bytes_def)

text \<open>A block that the code accepts: of the volume and not the super block.\<close>

definition blk_ok :: "sfs_fs \<Rightarrow> nat \<Rightarrow> bool" where
  "blk_ok s b \<longleftrightarrow> b \<noteq> 0 \<and> b < sb_blocks (super s)"

lemma sfs_rbuf_ok:
  assumes "fs_ok s" "blk_ok s b" "off < 4096" "off + len \<le> 4096"
  shows "\<exists>s'. sfs_rbuf s buf len b off = Some (0, patch buf 0 (span (bytes s) (b * 4096 + off) len), s') \<and>
    fs_step s (free s) (bytes s) s'"
proof -
  have l: "length (sfs_buffer s) = 4096" using assms(1) by (simp add: fs_ok_def)
  then have p: "patch (sfs_buffer s) 0 (span (bytes s) (b * 4096) 4096) = span (bytes s) (b * 4096) 4096" by (intro patch_0_all) simp
  obtain s1 where s1: "sfs_rwblock_nolock s (sfs_buffer s) b False True = Some (0, span (bytes s) (b * 4096) 4096, s1)"
      "fs_step s (free s) (bytes s) s1"
    using rwblock_read[OF assms(1), of b "sfs_buffer s" True] assms(2) l p by (auto simp: blk_ok_def)
  have "take len (drop off (span (bytes s) (b * 4096) 4096)) = span (bytes s) (b * 4096 + off) len"
    using assms(3,4) by (simp add: drop_span take_span)
  then show ?thesis using s1 assms(3,4) fs_step_buffer[OF s1(2), of "span (bytes s) (b * 4096) 4096"]
    by (simp add: sfs_rbuf_def Let_def)
qed

lemma overlay_patch_span:
  assumes "off + length bs \<le> n"
  shows "overlay m a (patch (span m a n) off bs) = overlay m (a + off) bs"
proof
  fix x
  show "overlay m a (patch (span m a n) off bs) x = overlay m (a + off) bs x"
  proof (cases "a \<le> x")
    case True
    then obtain k where "x = a + k" by (auto simp: le_iff_add)
    then show ?thesis using assms nth_patch[of off bs "span m a n" k] by (auto simp: overlay_apply)
  qed (simp add: overlay_apply)
qed

lemma sfs_wbuf_ok:
  assumes "fs_ok s" "blk_ok s b" "off < 4096" "off + len \<le> 4096" "len \<le> length buf"
  shows "\<exists>s'. sfs_wbuf s buf len b off = Some (0, s') \<and>
    fs_step s (free s) (overlay (bytes s) (b * 4096 + off) (take len buf)) s'"
proof -
  let ?b = "span (bytes s) (b * 4096) 4096" and ?t = "take len buf"
  have l: "length (sfs_buffer s) = 4096" using assms(1) by (simp add: fs_ok_def)
  then have p: "patch (sfs_buffer s) 0 ?b = ?b" by (intro patch_0_all) simp
  obtain s1 where s1: "sfs_rwblock_nolock s (sfs_buffer s) b False True = Some (0, ?b, s1)" "fs_step s (free s) (bytes s) s1"
    using rwblock_read[OF assms(1), of b "sfs_buffer s" True] assms(2) l p by (auto simp: blk_ok_def)
  let ?b2 = "patch ?b off ?t"
  have lb: "length ?b2 = 4096" using assms(4,5) by simp
  let ?s2 = "s1\<lparr>sfs_buffer := ?b2\<rparr>"
  have st2: "fs_step s (free s) (bytes s) ?s2" using fs_step_buffer[OF s1(2) lb] .
  obtain s3 where s3: "sfs_rwblock_nolock ?s2 ?b2 b True True = Some (0, ?b2, s3)" "fs_step ?s2 (free ?s2) (overlay (bytes ?s2) (b * 4096) ?b2) s3"
    using rwblock_write[OF fs_step_ok[OF st2], of b ?b2 True] fs_step_blocks[OF st2] assms(2) lb by (auto simp: blk_ok_def)
  have "fs_step s (free s) (overlay (bytes s) (b * 4096) ?b2) s3"
    using fs_step_trans[OF st2 s3(2)] st2 by (simp add: fs_step_def)
  moreover have "overlay (bytes s) (b * 4096) ?b2 = overlay (bytes s) (b * 4096 + off) ?t"
    using assms(4,5) by (intro overlay_patch_span) simp
  ultimately have "fs_step s (free s) (overlay (bytes s) (b * 4096 + off) ?t) (s3\<lparr>sfs_buffer := ?b2\<rparr>)"
    using fs_step_buffer lb by simp
  then show ?thesis using s1(1) s3(1) assms(3,4) by (simp add: sfs_wbuf_def Let_def)
qed

lemma sfs_wblock_ok:
  assumes "fs_ok s" "blk_ok s b" "4096 \<le> length buf"
  shows "\<exists>s'. sfs_wblock s buf b 1 = Some (0, s') \<and> fs_step s (free s) (overlay (bytes s) (b * 4096) (take 4096 buf)) s'"
  using rwblock_write[OF assms(1), of b buf True] assms(2,3) by (auto simp: sfs_wblock_def blk_ok_def)

lemma sfs_rwblock_write:
  assumes "fs_ok s" "b \<noteq> 0" "b + n \<le> sb_blocks (super s)" "n * 4096 \<le> length buf"
  shows "\<exists>s'. sfs_rwblock s buf b n True = Some (0, buf, s') \<and> fs_step s (free s) (overlay (bytes s) (b * 4096) (take (n * 4096) buf)) s'"
  using assms
proof (induction n arbitrary: s b buf)
  case 0
  then show ?case using fs_step_refl by simp
next
  case (Suc n)
  obtain s1 where s1: "sfs_rwblock_nolock s buf b True True = Some (0, buf, s1)" "fs_step s (free s) (overlay (bytes s) (b * 4096) (take 4096 buf)) s1"
    using rwblock_write[of s b buf True] Suc.prems by auto
  have v: "free s1 = free s" "bytes s1 = overlay (bytes s) (b * 4096) (take 4096 buf)" using s1(2) by (simp_all add: fs_step_def)
  have l: "n * 4096 \<le> length (drop 4096 buf)" using Suc.prems(4) by simp
  obtain s2 where s2: "sfs_rwblock s1 (drop 4096 buf) (Suc b) n True = Some (0, drop 4096 buf, s2)"
      "fs_step s1 (free s1) (overlay (bytes s1) (Suc b * 4096) (take (n * 4096) (drop 4096 buf))) s2"
    using Suc.IH[OF fs_step_ok[OF s1(2)], of "Suc b" "drop 4096 buf"] fs_step_blocks[OF s1(2)] Suc.prems(3) l by auto
  have a: "Suc b * 4096 = b * 4096 + length (take 4096 buf)" using Suc.prems(4) by simp
  have t: "take (Suc n * 4096) buf = take 4096 buf @ take (n * 4096) (drop 4096 buf)" by (simp add: take_add)
  have "overlay (bytes s1) (Suc b * 4096) (take (n * 4096) (drop 4096 buf)) = overlay (bytes s) (b * 4096) (take (Suc n * 4096) buf)"
    unfolding a t v(2) by (rule overlay_append)
  then have "fs_step s (free s) (overlay (bytes s) (b * 4096) (take (Suc n * 4096) buf)) s2" using fs_step_trans[OF s1(2) s2(2)] v(1) by simp
  then show ?case using s1(1) s2(1) by simp
qed

lemma sfs_rblock_ok:
  assumes "fs_ok s" "blk_ok s b" "4096 \<le> length buf"
  shows "\<exists>s'. sfs_rblock s buf b 1 = Some (0, patch buf 0 (span (bytes s) (b * 4096) 4096), s') \<and> fs_step s (free s) (bytes s) s'"
  using rwblock_read[OF assms(1), of b buf True] assms(2,3) by (auto simp: sfs_rblock_def blk_ok_def)

lemma sfs_clear_block_ok:
  assumes "fs_ok s" "blk_ok s b"
  shows "\<exists>s'. sfs_clear_block s b 1 = Some (0, s') \<and> fs_step s (free s) (overlay (bytes s) (b * 4096) (replicate 4096 0)) s'"
  using rwblock_write[OF fs_ok_buffer[OF assms(1), of "replicate 4096 0"], of b "replicate 4096 0" True] assms(2)
  by (auto simp: sfs_clear_block_def blk_ok_def fs_step_from_buffer)

lemma overlay_block: "overlay m (b * 4096) (replicate 4096 0) x = (if x div 4096 = b then 0 else m x)"
proof -
  have "b * 4096 \<le> x \<and> x < b * 4096 + 4096 \<longleftrightarrow> x div 4096 = b"
    by (auto intro: div_nat_eqI simp: algebra_simps)
  then show ?thesis by (auto simp: overlay_apply)
qed

lemma overlay_inside:
  assumes "off + length bs \<le> 4096" "x div 4096 \<noteq> b"
  shows "overlay m (b * 4096 + off) bs x = m x"
proof -
  have "\<not> (b * 4096 + off \<le> x \<and> x < b * 4096 + off + length bs)"
  proof
    assume "b * 4096 + off \<le> x \<and> x < b * 4096 + off + length bs"
    then have "x div 4096 = b" using assms(1) by (intro div_nat_eqI) auto
    with assms(2) show False by simp
  qed
  then show ?thesis by (auto simp: overlay_apply)
qed

subsection \<open>Allocation\<close>

lemma sfs_block_inuse_ok: "fs_ok s \<Longrightarrow> blk_ok s b \<Longrightarrow> sfs_block_inuse s b = Some (b \<notin> free s)"
  using bitmap_test_ok[of "freemap s" b] by (auto simp: sfs_block_inuse_def fs_ok_def blk_ok_def free_def)

lemma free_blk_ok: "fs_ok s \<Longrightarrow> b \<in> free s \<Longrightarrow> blk_ok s b"
  by (auto simp: fs_ok_def blk_ok_def)

lemma blk_ok_step: "fs_step s F m s' \<Longrightarrow> blk_ok s' b = blk_ok s b"
  by (simp add: fs_step_def frame_def blk_ok_def)

lemma bitmap_alloc_nwords: "bitmap_alloc b = Some (r, i, b') \<Longrightarrow> nwords b' = nwords b"
  by (auto simp: bitmap_alloc_def bind_eq_Some_conv split: option.splits)

lemma bitmap_free_nwords: "bitmap_free b i = Some b' \<Longrightarrow> nwords b' = nwords b"
  by (auto simp: bitmap_free_def bind_eq_Some_conv split: if_splits)

lemma sfs_block_alloc_full: "fs_ok s \<Longrightarrow> free s = {} \<Longrightarrow> sfs_block_alloc s = Some (- E_NO_MEM, 0, s)"
  using bitmap_alloc_ok[of "freemap s"] by (simp add: sfs_block_alloc_def fs_ok_def free_def E_NO_MEM_def)

lemma sfs_block_alloc_ok:
  assumes ok: "fs_ok s" and ne: "free s \<noteq> {}"
  shows "\<exists>b s'. sfs_block_alloc s = Some (0, b, s') \<and> b \<in> free s \<and>
    fs_step s (free s - {b}) (overlay (bytes s) (b * 4096) (replicate 4096 0)) s'"
proof -
  have "bitmap_inv (freemap s)" using ok by (simp add: fs_ok_def)
  from bitmap_alloc_ok[OF this] ne obtain b fm where b: "bitmap_alloc (freemap s) = Some (0, b, fm)" "b \<in> free s"
      "bitmap_inv fm" "free_bits fm = free s - {b}" "nbits fm = nbits (freemap s)"
    by (auto simp: free_def)
  have u: "sb_unused (super s) = card (free s)" using ok by (simp add: fs_ok_def)
  have c: "0 < sb_unused (super s)" using ne finite_free[OF ok] u by (simp add: card_gt_0_iff)
  define s2 where "s2 = s\<lparr>freemap := fm, super := (super s)\<lparr>sb_unused := sb_unused (super s) - 1\<rparr>, super_dirty := True\<rparr>"
  have f2: "free s2 = free s - {b}" using b by (simp add: s2_def free_def)
  have "fs_ok s2" using ok b f2 u c finite_free[OF ok] unfolding fs_ok_def by (auto simp: s2_def)
  then have st: "fs_step s (free s - {b}) (bytes s) s2" using f2 b(5) bitmap_alloc_nwords[OF b(1)] by (simp add: fs_step_def frame_def s2_def bytes_def)
  have bk: "blk_ok s2 b" using free_blk_ok[OF ok b(2)] by (simp add: blk_ok_def s2_def)
  have iu: "sfs_block_inuse s2 b = Some True" using sfs_block_inuse_ok[OF fs_step_ok[OF st] bk] f2 by simp
  obtain s' where s': "sfs_clear_block s2 b 1 = Some (0, s')" "fs_step s2 (free s2) (overlay (bytes s2) (b * 4096) (replicate 4096 0)) s'"
    using sfs_clear_block_ok[OF fs_step_ok[OF st] bk] by blast
  have "fs_step s (free s - {b}) (overlay (bytes s) (b * 4096) (replicate 4096 0)) s'"
    using fs_step_trans[OF st s'(2)] st by (simp add: fs_step_def)
  moreover have "sfs_block_alloc s = Some (0, b, s')"
    using b(1) c iu s'(1) by (simp add: sfs_block_alloc_def Let_def s2_def[symmetric]) (simp add: s2_def)
  ultimately show ?thesis using b(2) by blast
qed

lemma sfs_block_free_ok:
  assumes ok: "fs_ok s" and b: "blk_ok s b" "b \<notin> free s"
  shows "\<exists>s'. sfs_block_free s b = Some s' \<and> fs_step s (insert b (free s)) (bytes s) s'"
proof -
  have iu: "sfs_block_inuse s b = Some True" using sfs_block_inuse_ok[OF ok b(1)] b(2) by simp
  have "bitmap_inv (freemap s)" "b < nbits (freemap s)" using ok b(1) by (auto simp: fs_ok_def blk_ok_def)
  from bitmap_free_ok[OF this] b(2) obtain fm where fm: "bitmap_free (freemap s) b = Some fm" "bitmap_inv fm"
      "free_bits fm = insert b (free s)" "nbits fm = nbits (freemap s)"
    by (auto simp: free_def)
  define s' where "s' = s\<lparr>freemap := fm, super := (super s)\<lparr>sb_unused := sb_unused (super s) + 1\<rparr>, super_dirty := True\<rparr>"
  have f: "free s' = insert b (free s)" using fm by (simp add: s'_def free_def)
  have "fs_ok s'" using ok fm f b finite_free[OF ok] unfolding fs_ok_def blk_ok_def by (auto simp: s'_def)
  then have "fs_step s (insert b (free s)) (bytes s) s'" using f fm(4) bitmap_free_nwords[OF fm(1)] by (simp add: fs_step_def frame_def s'_def bytes_def)
  then show ?thesis using iu fm(1) by (simp add: sfs_block_free_def s'_def)
qed

lemma sfs_block_free_twice: "fs_ok s \<Longrightarrow> blk_ok s b \<Longrightarrow> b \<in> free s \<Longrightarrow> sfs_block_free s b = None"
  by (simp add: sfs_block_free_def sfs_block_inuse_ok)

end
