(* ===== verification/Sfs_File.thy ===== *)
theory Sfs_File
  imports Sfs_Block
begin

text \<open>
  Files of the simple file system (\<^verbatim>\<open>kern/fs/sfs/sfs_inode.c\<close>): the map from the blocks of a file to
  blocks of the volume, through twelve direct entries and one indirect block, and on it reading,
  writing and truncation. Each operation takes the inode in memory and returns it changed.
\<close>

subsection \<open>The block map\<close>

definition bmap_cleanup :: "int \<Rightarrow> nat \<Rightarrow> nat \<Rightarrow> sfs_fs \<Rightarrow> (int \<times> nat \<times> nat \<times> sfs_fs) option" where
  "bmap_cleanup r entp ent s =
     (if ent \<noteq> entp then do { s1 \<leftarrow> sfs_block_free s ent; Some (r, entp, 0, s1) } else Some (r, entp, 0, s))"

definition bmap_add :: "sfs_fs \<Rightarrow> nat \<Rightarrow> nat \<Rightarrow> nat \<Rightarrow> (int \<times> nat \<times> nat \<times> sfs_fs) option" where
  "bmap_add s entp ent offset = do {
     (r, ino, s1) \<leftarrow> sfs_block_alloc s;
     if r \<noteq> 0 then bmap_cleanup r entp ent s1
     else do {
       (r2, s2) \<leftarrow> sfs_wbuf s1 (le_bytes 4 ino) 4 ent offset;
       if r2 \<noteq> 0 then do {
         s3 \<leftarrow> sfs_block_free s2 ino;
         bmap_cleanup r2 entp ent s3 }
       else Some (0, ent, ino, s2) } }"

definition sfs_bmap_get_sub_nolock :: "sfs_fs \<Rightarrow> nat \<Rightarrow> nat \<Rightarrow> bool \<Rightarrow> (int \<times> nat \<times> nat \<times> sfs_fs) option" where
  "sfs_bmap_get_sub_nolock s entp index create = do {
     kassert (index < SFS_BLK_NENTRY);
     let offset = index * 4;
     if entp \<noteq> 0 then do {
       (r, b, s1) \<leftarrow> sfs_rbuf s (le_bytes 4 0) 4 entp offset;
       if r \<noteq> 0 then Some (r, entp, 0, s1)
       else if le_nat b \<noteq> 0 \<or> \<not> create then Some (0, entp, le_nat b, s1)
       else bmap_add s1 entp entp offset }
     else if \<not> create then Some (0, entp, 0, s)
     else do {
       (r, ent, s1) \<leftarrow> sfs_block_alloc s;
       if r \<noteq> 0 then Some (r, entp, 0, s1) else bmap_add s1 entp ent offset } }"

definition set_direct :: "sfs_inode \<Rightarrow> nat \<Rightarrow> nat \<Rightarrow> sfs_inode" where
  "set_direct sin i b = sin\<lparr>sin_din := (sin_din sin)\<lparr>din_direct := (din_direct (sin_din sin))[i := b]\<rparr>, sin_dirty := True\<rparr>"

definition set_indirect :: "sfs_inode \<Rightarrow> nat \<Rightarrow> sfs_inode" where
  "set_indirect sin b = sin\<lparr>sin_din := (sin_din sin)\<lparr>din_indirect := b\<rparr>, sin_dirty := True\<rparr>"

definition set_blocks :: "sfs_inode \<Rightarrow> nat \<Rightarrow> sfs_inode" where
  "set_blocks sin n = sin\<lparr>sin_din := (sin_din sin)\<lparr>din_blocks := n\<rparr>\<rparr>"

definition set_size :: "sfs_inode \<Rightarrow> nat \<Rightarrow> sfs_inode" where
  "set_size sin n = sin\<lparr>sin_din := (sin_din sin)\<lparr>din_size := n\<rparr>, sin_dirty := True\<rparr>"

definition bmap_out :: "nat \<Rightarrow> sfs_fs \<Rightarrow> sfs_inode \<Rightarrow> (int \<times> nat \<times> sfs_fs \<times> sfs_inode) option" where
  "bmap_out ino s sin = do {
     (if ino = 0 then Some () else do { u \<leftarrow> sfs_block_inuse s ino; kassert u });
     Some (0, ino, s, sin) }"

definition sfs_bmap_get_nolock :: "sfs_fs \<Rightarrow> sfs_inode \<Rightarrow> nat \<Rightarrow> bool \<Rightarrow> (int \<times> nat \<times> sfs_fs \<times> sfs_inode) option" where
  "sfs_bmap_get_nolock s sin index create =
     (if index < SFS_NDIRECT then do {
        let ino = din_direct (sin_din sin) ! index;
        if ino = 0 \<and> create then do {
          (r, ino, s1) \<leftarrow> sfs_block_alloc s;
          if r \<noteq> 0 then Some (r, 0, s1, sin) else bmap_out ino s1 (set_direct sin index ino) }
        else bmap_out ino s sin }
      else if index - SFS_NDIRECT < SFS_BLK_NENTRY then do {
        (r, ent, ino, s1) \<leftarrow> sfs_bmap_get_sub_nolock s (din_indirect (sin_din sin)) (index - SFS_NDIRECT) create;
        if r \<noteq> 0 then Some (r, 0, s1, sin)
        else if ent \<noteq> din_indirect (sin_din sin) then do {
          kassert (din_indirect (sin_din sin) = 0);
          bmap_out ino s1 (set_indirect sin ent) }
        else bmap_out ino s1 sin }
      else kpanic)"

definition sfs_bmap_free_sub_nolock :: "sfs_fs \<Rightarrow> nat \<Rightarrow> nat \<Rightarrow> (int \<times> sfs_fs) option" where
  "sfs_bmap_free_sub_nolock s ent index = do {
     u \<leftarrow> sfs_block_inuse s ent;
     kassert (u \<and> index < SFS_BLK_NENTRY);
     (r, b, s1) \<leftarrow> sfs_rbuf s (le_bytes 4 0) 4 ent (index * 4);
     if r \<noteq> 0 then Some (r, s1)
     else if le_nat b \<noteq> 0 then do {
       (r2, s2) \<leftarrow> sfs_wbuf s1 (le_bytes 4 0) 4 ent (index * 4);
       if r2 \<noteq> 0 then Some (r2, s2)
       else do {
         s3 \<leftarrow> sfs_block_free s2 (le_nat b);
         Some (0, s3) } }
     else Some (0, s1) }"

definition sfs_bmap_free_nolock :: "sfs_fs \<Rightarrow> sfs_inode \<Rightarrow> nat \<Rightarrow> (int \<times> sfs_fs \<times> sfs_inode) option" where
  "sfs_bmap_free_nolock s sin index =
     (if index < SFS_NDIRECT then do {
        let ino = din_direct (sin_din sin) ! index;
        if ino \<noteq> 0 then do {
          s1 \<leftarrow> sfs_block_free s ino;
          Some (0, s1, set_direct sin index 0) }
        else Some (0, s, sin) }
      else if index - SFS_NDIRECT < SFS_BLK_NENTRY then
        (if din_indirect (sin_din sin) \<noteq> 0 then do {
           (r, s1) \<leftarrow> sfs_bmap_free_sub_nolock s (din_indirect (sin_din sin)) (index - SFS_NDIRECT);
           Some (r, s1, sin) }
         else Some (0, s, sin))
      else Some (0, s, sin))"

definition sfs_bmap_load_nolock :: "sfs_fs \<Rightarrow> sfs_inode \<Rightarrow> nat \<Rightarrow> (int \<times> nat \<times> sfs_fs \<times> sfs_inode) option" where
  "sfs_bmap_load_nolock s sin index = do {
     kassert (index \<le> din_blocks (sin_din sin));
     let create = (index = din_blocks (sin_din sin));
     (r, ino, s1, sin1) \<leftarrow> sfs_bmap_get_nolock s sin index create;
     if r \<noteq> 0 then Some (r, 0, s1, sin1)
     else do {
       u \<leftarrow> sfs_block_inuse s1 ino;
       kassert u;
       Some (0, ino, s1, if create then set_blocks sin1 (din_blocks (sin_din sin1) + 1) else sin1) } }"

definition sfs_bmap_truncate_nolock :: "sfs_fs \<Rightarrow> sfs_inode \<Rightarrow> (int \<times> sfs_fs \<times> sfs_inode) option" where
  "sfs_bmap_truncate_nolock s sin = do {
     kassert (din_blocks (sin_din sin) \<noteq> 0);
     (r, s1, sin1) \<leftarrow> sfs_bmap_free_nolock s sin (din_blocks (sin_din sin) - 1);
     if r \<noteq> 0 then Some (r, s1, sin1)
     else Some (0, s1, (set_blocks sin1 (din_blocks (sin_din sin1) - 1))\<lparr>sin_dirty := True\<rparr>) }"

subsection \<open>Reading and writing\<close>

definition sfs_buf_op :: "sfs_fs \<Rightarrow> u8 list \<Rightarrow> nat \<Rightarrow> nat \<Rightarrow> nat \<Rightarrow> bool \<Rightarrow> (int \<times> u8 list \<times> sfs_fs) option" where
  "sfs_buf_op s buf len blkno offset wr =
     (if wr then do { (r, s1) \<leftarrow> sfs_wbuf s buf len blkno offset; Some (r, buf, s1) } else sfs_rbuf s buf len blkno offset)"

definition sfs_block_op :: "sfs_fs \<Rightarrow> u8 list \<Rightarrow> nat \<Rightarrow> nat \<Rightarrow> bool \<Rightarrow> (int \<times> u8 list \<times> sfs_fs) option" where
  "sfs_block_op s buf blkno nblks wr =
     (if wr then do { (r, s1) \<leftarrow> sfs_wblock s buf blkno nblks; Some (r, buf, s1) } else sfs_rblock s buf blkno nblks)"

text \<open>
  The three places of \<^verbatim>\<open>sfs_io_nolock\<close> that transfer a piece: the block is looked up, the piece moved at the
  current position of the buffer, and the count advanced.
\<close>

definition io_piece :: "sfs_fs \<Rightarrow> sfs_inode \<Rightarrow> u8 list \<Rightarrow> nat \<Rightarrow> nat \<Rightarrow> nat \<Rightarrow> nat \<Rightarrow> bool \<Rightarrow> bool \<Rightarrow>
    (int \<times> u8 list \<times> nat \<times> sfs_fs \<times> sfs_inode) option" where
  "io_piece s sin buf alen blkno sz blkoff whole wr = do {
     (r, ino, s1, sin1) \<leftarrow> sfs_bmap_load_nolock s sin blkno;
     if r \<noteq> 0 then Some (r, buf, alen, s1, sin1)
     else do {
       (r2, b, s2) \<leftarrow> (if whole then sfs_block_op s1 (drop alen buf) ino 1 wr
                       else sfs_buf_op s1 (drop alen buf) sz ino blkoff wr);
       Some (r2, take alen buf @ b, if r2 \<noteq> 0 then alen else alen + sz, s2, sin1) } }"

fun io_blocks :: "sfs_fs \<Rightarrow> sfs_inode \<Rightarrow> u8 list \<Rightarrow> nat \<Rightarrow> nat \<Rightarrow> nat \<Rightarrow> bool \<Rightarrow> (int \<times> u8 list \<times> nat \<times> sfs_fs \<times> sfs_inode) option" where
  "io_blocks s sin buf alen blkno 0 wr = Some (0, buf, alen, s, sin)"
| "io_blocks s sin buf alen blkno (Suc n) wr = do {
     (r, buf1, alen1, s1, sin1) \<leftarrow> io_piece s sin buf alen blkno SFS_BLKSIZE 0 True wr;
     if r \<noteq> 0 then Some (r, buf1, alen1, s1, sin1) else io_blocks s1 sin1 buf1 alen1 (Suc blkno) n wr }"

definition io_out :: "int \<Rightarrow> int \<times> u8 list \<times> nat \<times> sfs_fs \<times> sfs_inode \<Rightarrow> int \<times> u8 list \<times> nat \<times> sfs_fs \<times> sfs_inode" where
  "io_out offset = (\<lambda>(r, buf, alen, s, sin).
     (r, buf, alen, s, if nat offset + alen > din_size (sin_din sin) then set_size sin (nat offset + alen) else sin))"

text \<open>The whole blocks and the last, partial block.\<close>

definition io_rest :: "sfs_fs \<Rightarrow> sfs_inode \<Rightarrow> u8 list \<Rightarrow> nat \<Rightarrow> nat \<Rightarrow> nat \<Rightarrow> nat \<Rightarrow> bool \<Rightarrow> (int \<times> u8 list \<times> nat \<times> sfs_fs \<times> sfs_inode) option" where
  "io_rest s sin buf alen blk n t wr = do {
     (r, buf2, alen2, s2, sin2) \<leftarrow> io_blocks s sin buf alen blk n wr;
     if r \<noteq> 0 \<or> t = 0 then Some (r, buf2, alen2, s2, sin2)
     else io_piece s2 sin2 buf2 alen2 (blk + n) t 0 False wr }"

definition io_body :: "sfs_fs \<Rightarrow> sfs_inode \<Rightarrow> u8 list \<Rightarrow> nat \<Rightarrow> nat \<Rightarrow> bool \<Rightarrow> (int \<times> u8 list \<times> nat \<times> sfs_fs \<times> sfs_inode) option" where
  "io_body s sin buf offset endpos wr = do {
     let blkno = offset div SFS_BLKSIZE;
     let nblks = endpos div SFS_BLKSIZE - blkno;
     let blkoff = offset mod SFS_BLKSIZE;
     if blkoff \<noteq> 0 then do {
       let sz = (if nblks \<noteq> 0 then SFS_BLKSIZE - blkoff else endpos - offset);
       (r, buf1, alen1, s1, sin1) \<leftarrow> io_piece s sin buf 0 blkno sz blkoff False wr;
       if r \<noteq> 0 \<or> nblks = 0 then Some (r, buf1, alen1, s1, sin1)
       else io_rest s1 sin1 buf1 alen1 (blkno + 1) (nblks - 1) (endpos mod SFS_BLKSIZE) wr }
     else io_rest s sin buf 0 blkno nblks (endpos mod SFS_BLKSIZE) wr }"

definition sfs_io_nolock :: "sfs_fs \<Rightarrow> sfs_inode \<Rightarrow> u8 list \<Rightarrow> int \<Rightarrow> nat \<Rightarrow> bool \<Rightarrow> (int \<times> u8 list \<times> nat \<times> sfs_fs \<times> sfs_inode) option" where
  "sfs_io_nolock s sin buf offset len wr = do {
     kassert (din_type (sin_din sin) \<noteq> SFS_TYPE_DIR);
     let endpos = sint (word_of_int (offset + int len) :: u32);
     let sz = int (din_size (sin_din sin));
     if offset < 0 \<or> offset \<ge> SFS_MAX_FILE_SIZE \<or> offset > endpos then Some (- E_INVAL, buf, 0, s, sin)
     else if offset = endpos then Some (0, buf, 0, s, sin)
     else do {
       let endpos = (if endpos > SFS_MAX_FILE_SIZE then SFS_MAX_FILE_SIZE else endpos);
       if \<not> wr \<and> offset \<ge> sz then Some (0, buf, 0, s, sin)
       else do {
         let endpos = (if \<not> wr \<and> endpos > sz then sz else endpos);
         map_option (io_out offset) (io_body s sin buf (nat offset) (nat endpos) wr) } } }"

definition sfs_io :: "sfs_fs \<Rightarrow> sfs_inode \<Rightarrow> iobuf \<Rightarrow> bool \<Rightarrow> (int \<times> iobuf \<times> sfs_fs \<times> sfs_inode) option" where
  "sfs_io s sin iob wr = do {
     (r, b, alen, s1, sin1) \<leftarrow> sfs_io_nolock s sin (drop (io_base iob) (io_mem iob)) (io_offset iob) (io_resid iob) wr;
     let iob1 = iob\<lparr>io_mem := take (io_base iob) (io_mem iob) @ b\<rparr>;
     iob2 \<leftarrow> (if alen \<noteq> 0 then iobuf_skip iob1 alen else Some iob1);
     Some (r, iob2, s1, sin1) }"

definition sfs_read :: "sfs_fs \<Rightarrow> sfs_inode \<Rightarrow> iobuf \<Rightarrow> (int \<times> iobuf \<times> sfs_fs \<times> sfs_inode) option" where
  "sfs_read s sin iob = sfs_io s sin iob False"

definition sfs_write :: "sfs_fs \<Rightarrow> sfs_inode \<Rightarrow> iobuf \<Rightarrow> (int \<times> iobuf \<times> sfs_fs \<times> sfs_inode) option" where
  "sfs_write s sin iob = sfs_io s sin iob True"

subsection \<open>Truncation and seeking\<close>

fun trunc_grow :: "sfs_fs \<Rightarrow> sfs_inode \<Rightarrow> nat \<Rightarrow> nat \<Rightarrow> (int \<times> sfs_fs \<times> sfs_inode) option" where
  "trunc_grow s sin nblks 0 = Some (0, s, sin)"
| "trunc_grow s sin nblks (Suc n) = do {
     (r, _, s1, sin1) \<leftarrow> sfs_bmap_load_nolock s sin nblks;
     if r \<noteq> 0 then Some (r, s1, sin1) else trunc_grow s1 sin1 (Suc nblks) n }"

fun trunc_shrink :: "sfs_fs \<Rightarrow> sfs_inode \<Rightarrow> nat \<Rightarrow> (int \<times> sfs_fs \<times> sfs_inode) option" where
  "trunc_shrink s sin 0 = Some (0, s, sin)"
| "trunc_shrink s sin (Suc n) = do {
     (r, s1, sin1) \<leftarrow> sfs_bmap_truncate_nolock s sin;
     if r \<noteq> 0 then Some (r, s1, sin1) else trunc_shrink s1 sin1 n }"

definition sfs_truncfile :: "sfs_fs \<Rightarrow> sfs_inode \<Rightarrow> int \<Rightarrow> (int \<times> sfs_fs \<times> sfs_inode) option" where
  "sfs_truncfile s sin len =
     (if len < 0 \<or> len > SFS_MAX_FILE_SIZE then Some (- E_INVAL, s, sin)
      else do {
        let tblks = (nat len + 4095) div SFS_BLKSIZE;
        let nblks = din_blocks (sin_din sin);
        if int (din_size (sin_din sin)) = len then do { kassert (tblks = nblks); Some (0, s, sin) }
        else do {
          (r, s1, sin1) \<leftarrow>
            (if nblks < tblks then trunc_grow s sin nblks (tblks - nblks)
             else if tblks < nblks then trunc_shrink s sin (nblks - tblks)
             else Some (0, s, sin));
          if r \<noteq> 0 then Some (r, s1, sin1)
          else do {
            kassert (din_blocks (sin_din sin1) = tblks);
            Some (0, s1, set_size sin1 (nat len)) } } })"

definition sfs_tryseek :: "sfs_fs \<Rightarrow> sfs_inode \<Rightarrow> int \<Rightarrow> (int \<times> sfs_fs \<times> sfs_inode) option" where
  "sfs_tryseek s sin pos =
     (if pos < 0 \<or> pos \<ge> SFS_MAX_FILE_SIZE then Some (- E_INVAL, s, sin)
      else if pos > int (din_size (sin_din sin)) then sfs_truncfile s sin pos
      else Some (0, s, sin))"

lemmas sin_setters [simp] = set_direct_def set_indirect_def set_blocks_def set_size_def

subsection \<open>The file as a function from positions to bytes\<close>

definition ent_at :: "(nat \<Rightarrow> u8) \<Rightarrow> nat \<Rightarrow> nat \<Rightarrow> nat" where
  "ent_at m e i = le_nat (span m (e * 4096 + i * 4) 4)"

definition bmap :: "(nat \<Rightarrow> u8) \<Rightarrow> sfs_disk_inode \<Rightarrow> nat \<Rightarrow> nat" where
  "bmap m din i =
     (if i < 12 then din_direct din ! i
      else if din_indirect din = 0 then 0 else ent_at m (din_indirect din) (i - 12))"

definition data_blocks :: "(nat \<Rightarrow> u8) \<Rightarrow> sfs_disk_inode \<Rightarrow> nat set" where
  "data_blocks m din = bmap m din ` {..<din_blocks din}"

definition owned :: "(nat \<Rightarrow> u8) \<Rightarrow> sfs_disk_inode \<Rightarrow> nat set" where
  "owned m din = data_blocks m din \<union> (if din_indirect din = 0 then {} else {din_indirect din})"

definition fdata :: "(nat \<Rightarrow> u8) \<Rightarrow> sfs_disk_inode \<Rightarrow> nat \<Rightarrow> u8" where
  "fdata m din p = (if p div 4096 < din_blocks din then m (bmap m din (p div 4096) * 4096 + p mod 4096) else 0)"

text \<open>
  The invariant of a file: its blocks lie on the volume and are in use, no two entries name the same
  block, none names the indirect block, and the entries behind the last block are zero.
\<close>

definition file_ok :: "sfs_fs \<Rightarrow> sfs_disk_inode \<Rightarrow> bool" where
  "file_ok s din \<longleftrightarrow> length (din_direct din) = 12 \<and> din_blocks din \<le> 1036 \<and>
     (\<forall>b \<in> owned (bytes s) din. blk_ok s b \<and> b \<notin> free s) \<and>
     inj_on (bmap (bytes s) din) {..<din_blocks din} \<and>
     (din_indirect din \<noteq> 0 \<longrightarrow> din_indirect din \<notin> data_blocks (bytes s) din) \<and>
     (\<forall>i. din_blocks din \<le> i \<and> i < 1036 \<longrightarrow> bmap (bytes s) din i = 0)"

text \<open>What an operation on one file leaves alone: its identity, and every block that was neither free nor its own.\<close>

definition same_meta :: "sfs_inode \<Rightarrow> sfs_inode \<Rightarrow> bool" where
  "same_meta sin sin' \<longleftrightarrow> sin_ino sin' = sin_ino sin \<and> sin_reclaim sin' = sin_reclaim sin \<and> sin_ref sin' = sin_ref sin \<and> sin_open sin' = sin_open sin \<and>
     din_type (sin_din sin') = din_type (sin_din sin) \<and> din_nlinks (sin_din sin') = din_nlinks (sin_din sin) \<and>
     din_size (sin_din sin') = din_size (sin_din sin)"

definition upd :: "sfs_fs \<Rightarrow> sfs_inode \<Rightarrow> sfs_fs \<Rightarrow> sfs_inode \<Rightarrow> bool" where
  "upd s sin s' sin' \<longleftrightarrow> fs_ok s' \<and> frame s s' \<and> file_ok s' (sin_din sin') \<and> free s' \<subseteq> free s \<and>
     owned (bytes s') (sin_din sin') \<subseteq> owned (bytes s) (sin_din sin) \<union> free s \<and>
     (\<forall>x. x div 4096 \<notin> free s \<union> owned (bytes s) (sin_din sin) \<longrightarrow> bytes s' x = bytes s x) \<and> same_meta sin sin'"

text \<open>The number of free blocks it takes to bring the file to \<open>nb\<close> blocks.\<close>

definition need :: "sfs_disk_inode \<Rightarrow> nat \<Rightarrow> nat" where
  "need din nb = (nb - din_blocks din) + (if din_indirect din = 0 \<and> nb > 12 then 1 else 0)"

lemma same_meta_refl [simp]: "same_meta sin sin"
  by (simp add: same_meta_def)

lemma upd_refl: "fs_ok s \<Longrightarrow> file_ok s (sin_din sin) \<Longrightarrow> upd s sin s sin"
  by (simp add: upd_def)

lemma upd_trans:
  assumes "upd s sin s1 sin1" "upd s1 sin1 s2 sin2"
  shows "upd s sin s2 sin2"
  using assms unfolding upd_def by (auto simp: same_meta_def intro: frame_trans)

lemma ent_at_cong: "i < 1024 \<Longrightarrow> (\<And>x. x div 4096 = e \<Longrightarrow> m x = m' x) \<Longrightarrow> ent_at m e i = ent_at m' e i"
proof -
  assume a: "i < 1024" "\<And>x. x div 4096 = e \<Longrightarrow> m x = m' x"
  have "span m (e * 4096 + i * 4) 4 = span m' (e * 4096 + i * 4) 4"
    using a by (intro span_cong) (auto intro!: a(2) div_nat_eqI)
  then show ?thesis by (simp add: ent_at_def)
qed

lemma bmap_cong:
  "i < 1036 \<Longrightarrow> (\<And>x. din_indirect din \<noteq> 0 \<Longrightarrow> x div 4096 = din_indirect din \<Longrightarrow> m x = m' x) \<Longrightarrow> bmap m din i = bmap m' din i"
  unfolding bmap_def using ent_at_cong[of "i - 12" "din_indirect din" m m'] by auto

lemma bmap_set_blocks: "bmap m (din\<lparr>din_blocks := k\<rparr>) i = bmap m din i"
  by (simp add: bmap_def)

lemma file_ok_indirect: "file_ok s din \<Longrightarrow> 12 < din_blocks din \<Longrightarrow> din_indirect din \<noteq> 0"
proof
  assume a: "file_ok s din" "12 < din_blocks din" "din_indirect din = 0"
  then have "bmap (bytes s) din 12 = 0" by (simp add: bmap_def)
  moreover have "bmap (bytes s) din 12 \<in> owned (bytes s) din" using a by (auto simp: owned_def data_blocks_def)
  ultimately show False using a(1) by (auto simp: file_ok_def blk_ok_def)
qed

lemma file_okD:
  assumes "file_ok s din"
  shows "length (din_direct din) = 12" "din_blocks din \<le> 1036"
    "i < din_blocks din \<Longrightarrow> blk_ok s (bmap (bytes s) din i) \<and> bmap (bytes s) din i \<notin> free s"
    "din_indirect din \<noteq> 0 \<Longrightarrow> blk_ok s (din_indirect din) \<and> din_indirect din \<notin> free s"
    "i < din_blocks din \<Longrightarrow> din_indirect din \<noteq> 0 \<Longrightarrow> bmap (bytes s) din i \<noteq> din_indirect din"
    "i < din_blocks din \<Longrightarrow> j < din_blocks din \<Longrightarrow> bmap (bytes s) din i = bmap (bytes s) din j \<Longrightarrow> i = j"
    "din_blocks din \<le> i \<Longrightarrow> i < 1036 \<Longrightarrow> bmap (bytes s) din i = 0"
  using assms unfolding file_ok_def owned_def data_blocks_def by (auto dest: inj_onD) (metis imageI lessThan_iff)

text \<open>A write into a block of the file.\<close>

lemma file_write:
  assumes ok: "file_ok s din" and i: "i < din_blocks din" "off + length bs \<le> 4096"
    and st: "fs_step s (free s) (overlay (bytes s) (bmap (bytes s) din i * 4096 + off) bs) s'"
  shows "file_ok s' din" "owned (bytes s') din = owned (bytes s) din"
    "fdata (bytes s') din = overlay (fdata (bytes s) din) (i * 4096 + off) bs"
    "\<forall>x. x div 4096 \<notin> owned (bytes s) din \<longrightarrow> bytes s' x = bytes s x"
proof -
  let ?m = "bytes s" and ?b = "bmap (bytes s) din i"
  have m': "bytes s' = overlay ?m (?b * 4096 + off) bs" using st by (simp add: fs_step_def)
  have same: "bytes s' x = ?m x" if "x div 4096 \<noteq> ?b" for x using overlay_inside[OF i(2) that] by (simp add: m')
  have bm: "bmap (bytes s') din j = bmap ?m din j" if "j < 1036" for j
    using that same file_okD(5)[OF ok i(1)] by (intro bmap_cong) auto
  then have bm': "bmap (bytes s') din j = bmap ?m din j" if "j < din_blocks din" for j
    using that file_okD(2)[OF ok] by auto
  then have db: "data_blocks (bytes s') din = data_blocks ?m din" by (auto simp: data_blocks_def image_iff)
  then show ow: "owned (bytes s') din = owned ?m din" by (simp add: owned_def)
  have "inj_on (bmap (bytes s') din) {..<din_blocks din}" using ok bm' by (auto simp: file_ok_def inj_on_def)
  then show "file_ok s' din" using ok bm db ow st by (simp add: file_ok_def fs_step_def frame_def blk_ok_def)
  show "\<forall>x. x div 4096 \<notin> owned ?m din \<longrightarrow> bytes s' x = ?m x"
    using same i(1) by (auto simp: owned_def data_blocks_def)
  show "fdata (bytes s') din = overlay (fdata ?m din) (i * 4096 + off) bs"
  proof
    fix p :: nat
    let ?j = "p div 4096" and ?k = "p mod 4096"
    have pj: "p = ?j * 4096 + ?k" "?k < 4096" by simp_all
    show "fdata (bytes s') din p = overlay (fdata ?m din) (i * 4096 + off) bs p"
    proof (cases "?j = i")
      case True
      then have "p = i * 4096 + ?k" using pj by simp
      then have "p - (i * 4096 + off) = ?k - off" "i * 4096 + off \<le> p \<longleftrightarrow> off \<le> ?k" "p < i * 4096 + off + length bs \<longleftrightarrow> ?k < off + length bs"
        by linarith+
      then show ?thesis using True i(1) bm'[OF i(1)] by (simp add: fdata_def m' overlay_apply)
    next
      case False
      have "\<not> (i * 4096 + off \<le> p \<and> p < i * 4096 + off + length bs)"
      proof
        assume "i * 4096 + off \<le> p \<and> p < i * 4096 + off + length bs"
        then have "?j = i" using i(2) by (intro div_nat_eqI) auto
        with False show False by simp
      qed
      then have o: "overlay (fdata ?m din) (i * 4096 + off) bs p = fdata ?m din p" by (auto simp: overlay_apply)
      show ?thesis
      proof (cases "?j < din_blocks din")
        case jb: True
        then have "bmap ?m din ?j \<noteq> ?b" using file_okD(6)[OF ok jb i(1)] False by blast
        then have "bytes s' (bmap ?m din ?j * 4096 + ?k) = ?m (bmap ?m din ?j * 4096 + ?k)" by (intro same) simp
        then show ?thesis using o jb bm'[OF jb] by (simp add: fdata_def)
      qed (simp add: o fdata_def)
    qed
  qed
qed

end
