(* ===== verification/Sfs_Bmap.thy ===== *)
theory Sfs_Bmap
  imports Sfs_File
begin

text \<open>
  The block map of a file: looking up a block changes nothing, and looking up the block behind the
  last one adds a zeroed block, together with the indirect block where it is the first to need it.
\<close>

subsection \<open>Looking up\<close>

lemma bmap_out_ok: "fs_ok s \<Longrightarrow> blk_ok s b \<Longrightarrow> b \<notin> free s \<Longrightarrow> bmap_out b s sin = Some (0, b, s, sin)"
  by (simp add: bmap_out_def sfs_block_inuse_ok)

lemma rbuf_entry:
  assumes "fs_ok s" "blk_ok s e" "i < 1024"
  shows "\<exists>b s'. sfs_rbuf s (le_bytes 4 0) 4 e (i * 4) = Some (0, b, s') \<and> le_nat b = ent_at (bytes s) e i \<and> fs_step s (free s) (bytes s) s'"
proof -
  have "i * 4 < 4096" "i * 4 + 4 \<le> 4096" using assms(3) by simp_all
  from sfs_rbuf_ok[OF assms(1,2) this, of "le_bytes 4 0"] show ?thesis by (auto simp: patch_0_all ent_at_def)
qed

lemma step_keeps: "fs_step s (free s) (bytes s) s' \<Longrightarrow> blk_ok s b \<and> b \<notin> free s \<Longrightarrow> fs_ok s' \<and> blk_ok s' b \<and> b \<notin> free s'"
  by (auto simp: fs_step_def blk_ok_def frame_def)

lemma step_file_ok: "fs_step s (free s) (bytes s) s' \<Longrightarrow> file_ok s' din = file_ok s din"
  by (auto simp: fs_step_def file_ok_def blk_ok_def frame_def)

lemma bmap_get_existing:
  assumes ok: "fs_ok s" "file_ok s (sin_din sin)" and i: "i < din_blocks (sin_din sin)"
  shows "\<exists>s'. sfs_bmap_get_nolock s sin i c = Some (0, bmap (bytes s) (sin_din sin) i, s', sin) \<and> fs_step s (free s) (bytes s) s'"
proof -
  let ?d = "sin_din sin" and ?b = "bmap (bytes s) (sin_din sin) i"
  have b: "blk_ok s ?b \<and> ?b \<notin> free s" using file_okD(3)[OF ok(2) i] .
  then have nz: "?b \<noteq> 0" by (simp add: blk_ok_def)
  show ?thesis
  proof (cases "i < 12")
    case True
    then have "?b = din_direct ?d ! i" by (simp add: bmap_def)
    then show ?thesis using True nz b ok(1) bmap_out_ok[of s ?b sin] fs_step_refl[OF ok(1)]
      by (simp add: sfs_bmap_get_nolock_def)
  next
    case False
    have lt: "i - 12 < 1024" using i file_okD(2)[OF ok(2)] False by linarith
    have e: "din_indirect ?d \<noteq> 0" using nz False by (cases "din_indirect ?d = 0") (auto simp: bmap_def)
    then have eb: "blk_ok s (din_indirect ?d)" using file_okD(4)[OF ok(2)] by blast
    have be: "?b = ent_at (bytes s) (din_indirect ?d) (i - 12)" using False e by (simp add: bmap_def)
    obtain b1 s1 where s1: "sfs_rbuf s (le_bytes 4 0) 4 (din_indirect ?d) ((i - 12) * 4) = Some (0, b1, s1)" "le_nat b1 = ?b"
        "fs_step s (free s) (bytes s) s1"
      using rbuf_entry[OF ok(1) eb lt] be by auto
    have "bmap_out ?b s1 sin = Some (0, ?b, s1, sin)" using step_keeps[OF s1(3) b] bmap_out_ok by blast
    then show ?thesis using False lt e nz s1 by (simp add: sfs_bmap_get_nolock_def sfs_bmap_get_sub_nolock_def Let_def)
  qed
qed

lemma bmap_load_existing:
  assumes ok: "fs_ok s" "file_ok s (sin_din sin)" and i: "i < din_blocks (sin_din sin)"
  shows "\<exists>s'. sfs_bmap_load_nolock s sin i = Some (0, bmap (bytes s) (sin_din sin) i, s', sin) \<and> fs_step s (free s) (bytes s) s'"
proof -
  obtain s' where s': "sfs_bmap_get_nolock s sin i False = Some (0, bmap (bytes s) (sin_din sin) i, s', sin)" "fs_step s (free s) (bytes s) s'"
    using bmap_get_existing[OF assms] by blast
  then have "sfs_block_inuse s' (bmap (bytes s) (sin_din sin) i) = Some True"
    using step_keeps[OF s'(2) file_okD(3)[OF ok(2) i]] by (simp add: sfs_block_inuse_ok)
  then show ?thesis using s' i by (simp add: sfs_bmap_load_nolock_def Let_def)
qed

subsection \<open>Adding a block\<close>

text \<open>What the three ways of adding a block \<open>b\<close> have in common.\<close>

definition added :: "sfs_fs \<Rightarrow> sfs_inode \<Rightarrow> nat \<Rightarrow> sfs_fs \<Rightarrow> sfs_inode \<Rightarrow> bool" where
  "added s sin b s' sin' \<longleftrightarrow>
     fs_ok s' \<and> frame s s' \<and> same_meta sin sin' \<and> b \<in> free s \<and>
     (din_indirect (sin_din sin') = din_indirect (sin_din sin) \<and> (din_blocks (sin_din sin) < 12 \<or> din_indirect (sin_din sin) \<noteq> 0) \<or>
      din_indirect (sin_din sin) = 0 \<and> din_indirect (sin_din sin') \<in> free s - {b} \<and> din_blocks (sin_din sin) = 12) \<and>
     free s' = free s - {b, din_indirect (sin_din sin')} \<and>
     length (din_direct (sin_din sin')) = 12 \<and> din_blocks (sin_din sin') = din_blocks (sin_din sin) \<and>
     (\<forall>i < 1036. bmap (bytes s') (sin_din sin') i = (if i = din_blocks (sin_din sin) then b else bmap (bytes s) (sin_din sin) i)) \<and>
     (\<forall>x. x div 4096 \<noteq> b \<and> (din_indirect (sin_din sin') = 0 \<or> x div 4096 \<noteq> din_indirect (sin_din sin')) \<longrightarrow> bytes s' x = bytes s x) \<and>
     (\<forall>x. x div 4096 = b \<longrightarrow> bytes s' x = 0)"

lemma free_not_owned: "file_ok s din \<Longrightarrow> b \<in> free s \<Longrightarrow> b \<notin> owned (bytes s) din"
  by (auto simp: file_ok_def)

text \<open>The inode after the block has been counted.\<close>

definition counted :: "sfs_inode \<Rightarrow> sfs_inode \<Rightarrow> sfs_disk_inode" where
  "counted sin sin' = (sin_din sin')\<lparr>din_blocks := Suc (din_blocks (sin_din sin))\<rparr>"

lemma added_bmap:
  "added s sin b s' sin' \<Longrightarrow> i < 1036 \<Longrightarrow>
   bmap (bytes s') (counted sin sin') i = (if i = din_blocks (sin_din sin) then b else bmap (bytes s) (sin_din sin) i)"
  unfolding counted_def bmap_set_blocks added_def by blast

lemma added_data:
  assumes "added s sin b s' sin'" "din_blocks (sin_din sin) < 1036"
  shows "data_blocks (bytes s') (counted sin sin') = insert b (data_blocks (bytes s) (sin_din sin))"
proof -
  let ?n = "din_blocks (sin_din sin)" and ?f = "bmap (bytes s') (counted sin sin')"
  have "?f ` {..<Suc ?n} = insert (?f ?n) (?f ` {..<?n})" by (simp add: lessThan_Suc)
  also have "?f ` {..<?n} = bmap (bytes s) (sin_din sin) ` {..<?n}" using added_bmap[OF assms(1)] assms(2) by (intro image_cong) auto
  finally show ?thesis using added_bmap[OF assms] by (simp add: data_blocks_def counted_def)
qed

lemma added_indirect:
  assumes "added s sin b s' sin'" "file_ok s (sin_din sin)" "fs_ok s" and e: "e = din_indirect (sin_din sin')" "e \<noteq> 0"
  shows "e \<noteq> b" "e \<notin> data_blocks (bytes s) (sin_din sin)" "e \<in> free s \<or> e \<in> owned (bytes s) (sin_din sin)"
proof -
  have b: "b \<in> free s" using assms(1) by (simp add: added_def)
  have "e = din_indirect (sin_din sin) \<or> e \<in> free s - {b}" using assms(1) unfolding added_def e by blast
  then show "e \<noteq> b" "e \<notin> data_blocks (bytes s) (sin_din sin)" "e \<in> free s \<or> e \<in> owned (bytes s) (sin_din sin)"
    using e(2) b assms(2) by (auto simp: file_ok_def owned_def)
qed

lemma added_owned:
  assumes a: "added s sin b s' sin'" and ok: "fs_ok s" "file_ok s (sin_din sin)" "din_blocks (sin_din sin) < 1036"
    and c: "c \<in> owned (bytes s') (counted sin sin')"
  shows "c \<in> owned (bytes s) (sin_din sin) \<and> c \<notin> free s \<or> c \<in> free s \<and> c \<in> {b, din_indirect (sin_din sin')}"
proof -
  have "b \<in> free s" using a by (simp add: added_def)
  moreover have "c = b \<or> c \<in> data_blocks (bytes s) (sin_din sin) \<or> (c = din_indirect (sin_din sin') \<and> c \<noteq> 0)"
    using c added_data[OF a ok(3)] by (auto simp: owned_def counted_def split: if_splits)
  moreover have "c \<in> owned (bytes s) (sin_din sin) \<Longrightarrow> c \<notin> free s" using ok(2) by (simp add: file_ok_def)
  ultimately show ?thesis using added_indirect(3)[OF a ok(2,1)] by (auto simp: owned_def split: if_splits)
qed

lemma added_inj:
  assumes a: "added s sin b s' sin'" and ok: "file_ok s (sin_din sin)" "din_blocks (sin_din sin) < 1036"
  shows "inj_on (bmap (bytes s') (counted sin sin')) {..<Suc (din_blocks (sin_din sin))}"
proof (rule inj_onI)
  let ?n = "din_blocks (sin_din sin)"
  fix i j assume ij: "i \<in> {..<Suc ?n}" "j \<in> {..<Suc ?n}" "bmap (bytes s') (counted sin sin') i = bmap (bytes s') (counted sin sin') j"
  have "b \<notin> owned (bytes s) (sin_din sin)" using a free_not_owned[OF ok(1)] by (simp add: added_def)
  then have nb: "k < ?n \<Longrightarrow> bmap (bytes s) (sin_din sin) k \<noteq> b" for k by (auto simp: owned_def data_blocks_def)
  have lt: "i < 1036" "j < 1036" "i \<noteq> ?n \<Longrightarrow> i < ?n" "j \<noteq> ?n \<Longrightarrow> j < ?n" using ij(1,2) ok(2) by auto
  show "i = j" using added_bmap[OF a lt(1)] added_bmap[OF a lt(2)] ij(3) nb[of i] nb[of j] lt(3,4) file_okD(6)[OF ok(1), of i j]
    by (cases "i = ?n"; cases "j = ?n") simp_all
qed

lemma added_file_ok:
  assumes a: "added s sin b s' sin'" and ok: "fs_ok s" "file_ok s (sin_din sin)" "din_blocks (sin_din sin) < 1036"
  shows "file_ok s' (counted sin sin')"
proof -
  let ?d = "counted sin sin'"
  have d: "din_blocks ?d = Suc (din_blocks (sin_din sin))" "length (din_direct ?d) = 12" "din_indirect ?d = din_indirect (sin_din sin')"
    using a by (simp_all add: counted_def added_def)
  have blk: "blk_ok s' c = blk_ok s c" for c using a by (simp add: added_def frame_def blk_ok_def)
  have "blk_ok s' c \<and> c \<notin> free s'" if "c \<in> owned (bytes s') ?d" for c
  proof -
    have "free s' = free s - {b, din_indirect (sin_din sin')}" using a by (simp add: added_def)
    then show ?thesis using added_owned[OF a ok that] ok(2) free_blk_ok[OF ok(1)] blk by (auto simp: file_ok_def)
  qed
  moreover have "bmap (bytes s') ?d i = 0" if "din_blocks ?d \<le> i" "i < 1036" for i
    using added_bmap[OF a that(2)] that d(1) file_okD(7)[OF ok(2), of i] by simp
  moreover have "din_indirect ?d \<notin> data_blocks (bytes s') ?d" if "din_indirect ?d \<noteq> 0"
    using added_indirect[OF a ok(2,1) d(3) that] added_data[OF a ok(3)] by simp
  ultimately show ?thesis using added_inj[OF a ok(2,3)] d ok(3) by (simp add: file_ok_def)
qed

lemma added_bytes:
  assumes a: "added s sin b s' sin'" and ok: "fs_ok s" "file_ok s (sin_din sin)" and x: "x div 4096 \<notin> free s \<union> owned (bytes s) (sin_din sin)"
  shows "bytes s' x = bytes s x"
proof -
  have "x div 4096 \<noteq> b \<and> (din_indirect (sin_din sin') = 0 \<or> x div 4096 \<noteq> din_indirect (sin_din sin'))"
    using x a added_indirect(3)[OF a ok(2,1) refl] by (auto simp: added_def)
  then show ?thesis using a unfolding added_def by blast
qed

lemma added_fdata:
  assumes a: "added s sin b s' sin'" and ok: "fs_ok s" "file_ok s (sin_din sin)" and lt: "din_blocks (sin_din sin) < 1036"
  shows "fdata (bytes s') (counted sin sin') = fdata (bytes s) (sin_din sin)"
proof
  fix p
  let ?n = "din_blocks (sin_din sin)" and ?c = "bmap (bytes s) (sin_din sin) (p div 4096)"
  have n2: "din_blocks (counted sin sin') = Suc ?n" by (simp add: counted_def)
  consider "p div 4096 < ?n" | "p div 4096 = ?n" | "Suc ?n \<le> p div 4096" by linarith
  then show "fdata (bytes s') (counted sin sin') p = fdata (bytes s) (sin_din sin) p"
  proof cases
    case 1
    have c: "?c \<in> data_blocks (bytes s) (sin_din sin)" using 1 by (auto simp: data_blocks_def)
    then have "?c \<noteq> b" using a free_not_owned[OF ok(2)] by (auto simp: added_def owned_def)
    moreover have "din_indirect (sin_din sin') = 0 \<or> ?c \<noteq> din_indirect (sin_din sin')"
      using added_indirect(2)[OF a ok(2,1) refl] c by auto
    ultimately have "bytes s' (?c * 4096 + p mod 4096) = bytes s (?c * 4096 + p mod 4096)" using a unfolding added_def by simp
    then show ?thesis using 1 added_bmap[OF a, of "p div 4096"] lt n2 by (simp add: fdata_def)
  next
    case 2
    have "bytes s' (b * 4096 + p mod 4096) = 0" using a unfolding added_def by simp
    then show ?thesis using 2 added_bmap[OF a lt] n2 by (simp add: fdata_def)
  qed (simp add: fdata_def n2)
qed

lemma added_card:
  assumes a: "added s sin b s' sin'" and ok: "fs_ok s" "file_ok s (sin_din sin)"
  shows "card (free s) = card (free s') + need (sin_din sin) (Suc (din_blocks (sin_din sin)))"
proof -
  let ?d = "sin_din sin" and ?e = "din_indirect (sin_din sin')"
  have b: "b \<in> free s" and fr: "free s' = free s - {b, ?e}" using a by (simp_all add: added_def)
  show ?thesis
  proof (cases "?e = din_indirect ?d")
    case True
    then have e: "?e \<notin> free s" using file_okD(4)[OF ok(2)] free_blk_ok[OF ok(1), of 0] by (cases "?e = 0") (auto simp: blk_ok_def)
    then have "free s' = free s - {b}" using fr by auto
    moreover have "din_blocks ?d < 12 \<or> din_indirect ?d \<noteq> 0" using a True e unfolding added_def by blast
    moreover have "card (free s) = Suc (card (free s - {b}))" using card_Suc_Diff1[OF finite_free[OF ok(1)] b] by simp
    ultimately show ?thesis unfolding need_def by (elim disjE) simp_all
  next
    case False
    then have f: "?e \<in> free s" "?e \<noteq> b" "din_indirect ?d = 0" "din_blocks ?d = 12" using a unfolding added_def by auto
    have "card (free s - {b, ?e}) = card (free s) - 2" using f b by (subst card_Diff_subset) auto
    moreover have "2 \<le> card (free s)" using card_mono[OF finite_free[OF ok(1)], of "{b, ?e}"] f b by auto
    ultimately show ?thesis using fr f by (simp add: need_def)
  qed
qed

lemma added_upd:
  assumes ok: "fs_ok s" "file_ok s (sin_din sin)" and lt: "din_blocks (sin_din sin) < 1036" and a: "added s sin b s' sin'"
    and sin2: "sin2 = set_blocks sin' (Suc (din_blocks (sin_din sin)))"
  shows "upd s sin s' sin2" "fdata (bytes s') (sin_din sin2) = fdata (bytes s) (sin_din sin)"
    "bmap (bytes s') (sin_din sin2) (din_blocks (sin_din sin)) = b"
proof -
  have d: "sin_din sin2 = counted sin sin'" by (simp add: sin2 counted_def)
  have "same_meta sin sin2" using a by (simp add: sin2 added_def same_meta_def)
  moreover have "owned (bytes s') (counted sin sin') \<subseteq> owned (bytes s) (sin_din sin) \<union> free s"
    using added_owned[OF a ok lt] by blast
  ultimately show "upd s sin s' sin2"
    using a added_file_ok[OF a ok lt] added_bytes[OF a ok] unfolding upd_def d by (auto simp: added_def)
  show "fdata (bytes s') (sin_din sin2) = fdata (bytes s) (sin_din sin)" using added_fdata[OF a ok lt] d by simp
  show "bmap (bytes s') (sin_din sin2) (din_blocks (sin_din sin)) = b" using added_bmap[OF a lt] d by simp
qed

lemma ent_at_overlay:
  assumes "v < 2 ^ 32"
  shows "ent_at (overlay m (e * 4096 + i * 4) (le_bytes 4 v)) e j = (if j = i then v else ent_at m e j)"
proof (cases "j = i")
  case False
  then have "e * 4096 + i * 4 + 4 \<le> e * 4096 + j * 4 \<or> e * 4096 + j * 4 + 4 \<le> e * 4096 + i * 4" by linarith
  then show ?thesis using False by (simp add: ent_at_def span_overlay_other)
next
  case True
  then show ?thesis using assms by (simp add: ent_at_def)
qed

lemma ent_at_zero: "i < 1024 \<Longrightarrow> ent_at (overlay m (e * 4096) (replicate 4096 0)) e i = 0"
proof -
  assume i: "i < 1024"
  have "span (overlay m (e * 4096) (replicate 4096 0)) (e * 4096 + i * 4) 4 = replicate 4 0"
    using i by (intro nth_equalityI) (auto simp: overlay_apply)
  then show ?thesis by (simp only: ent_at_def le_nat_0)
qed

lemma blk_ok_32: "fs_ok s \<Longrightarrow> blk_ok s b \<Longrightarrow> b < 2 ^ 32"
  by (auto simp: fs_ok_def blk_ok_def)

lemma bmap_add_ok:
  assumes ok: "fs_ok s" and e: "blk_ok s ent" "ent \<notin> free s" and fr: "free s \<noteq> {}" and i: "i < 1024"
  shows "\<exists>b s'. bmap_add s entp ent (i * 4) = Some (0, ent, b, s') \<and> b \<in> free s \<and>
    fs_step s (free s - {b}) (overlay (overlay (bytes s) (b * 4096) (replicate 4096 0)) (ent * 4096 + i * 4) (le_bytes 4 b)) s'"
proof -
  obtain b s1 where s1: "sfs_block_alloc s = Some (0, b, s1)" "b \<in> free s"
      "fs_step s (free s - {b}) (overlay (bytes s) (b * 4096) (replicate 4096 0)) s1"
    using sfs_block_alloc_ok[OF ok fr] by blast
  have "blk_ok s1 ent" using e(1) blk_ok_step[OF s1(3)] by simp
  then obtain s2 where s2: "sfs_wbuf s1 (le_bytes 4 b) 4 ent (i * 4) = Some (0, s2)"
      "fs_step s1 (free s1) (overlay (bytes s1) (ent * 4096 + i * 4) (take 4 (le_bytes 4 b))) s2"
    using sfs_wbuf_ok[OF fs_step_ok[OF s1(3)], of ent "i * 4" 4 "le_bytes 4 b"] i by auto
  have "fs_step s (free s - {b}) (overlay (overlay (bytes s) (b * 4096) (replicate 4096 0)) (ent * 4096 + i * 4) (le_bytes 4 b)) s2"
    using fs_step_trans[OF s1(3) s2(2)] s1(3) by (simp add: fs_step_def)
  then show ?thesis using s1 s2 by (auto simp: bmap_add_def)
qed

lemma bmap_get_direct:
  assumes ok: "fs_ok s" "file_ok s (sin_din sin)" and n: "n = din_blocks (sin_din sin)" "n < 12" and fr: "free s \<noteq> {}"
  shows "\<exists>b s' sin'. sfs_bmap_get_nolock s sin n True = Some (0, b, s', sin') \<and> added s sin b s' sin'"
proof -
  let ?d = "sin_din sin"
  have z: "din_direct ?d ! n = 0" using file_okD(7)[OF ok(2), of n] n by (simp add: bmap_def)
  obtain b s1 where s1: "sfs_block_alloc s = Some (0, b, s1)" "b \<in> free s"
      "fs_step s (free s - {b}) (overlay (bytes s) (b * 4096) (replicate 4096 0)) s1"
    using sfs_block_alloc_ok[OF ok(1) fr] by blast
  let ?sin = "set_direct sin n b"
  have m: "bytes s1 x = (if x div 4096 = b then 0 else bytes s x)" for x using s1(3) overlay_block by (simp add: fs_step_def)
  have bk: "blk_ok s1 b" "b \<notin> free s1" using free_blk_ok[OF ok(1) s1(2)] blk_ok_step[OF s1(3)] s1(3) by (simp_all add: fs_step_def)
  have e: "din_indirect ?d \<notin> free s" using file_okD(4)[OF ok(2)] free_blk_ok[OF ok(1), of 0] by (cases "din_indirect ?d = 0") (auto simp: blk_ok_def)
  then have b0: "bmap (bytes s1) ?d i = bmap (bytes s) ?d i" if "i < 1036" for i
    using that m s1(2) by (intro bmap_cong) auto
  have bm: "bmap (bytes s1) (sin_din ?sin) i = (if i = n then b else bmap (bytes s) ?d i)" if "i < 1036" for i
    using b0[OF that] file_okD(1)[OF ok(2)] n(2) by (cases "i < 12") (auto simp: bmap_def nth_list_update split: if_splits)
  have "free s - {b} = free s - {b, din_indirect ?d}" using e by auto
  then have "added s sin b s1 ?sin"
    using s1 n m bm file_okD(1)[OF ok(2)] by (simp add: added_def fs_step_def same_meta_def)
  moreover have "sfs_bmap_get_nolock s sin n True = Some (0, b, s1, ?sin)"
    using z n(2) s1(1) bmap_out_ok[OF fs_step_ok[OF s1(3)] bk, of ?sin] by (simp add: sfs_bmap_get_nolock_def)
  ultimately show ?thesis by blast
qed

lemma bmap_get_indirect:
  assumes ok: "fs_ok s" "file_ok s (sin_din sin)" and n: "n = din_blocks (sin_din sin)" "12 \<le> n" "n < 1036"
    and e: "din_indirect (sin_din sin) \<noteq> 0" and fr: "free s \<noteq> {}"
  shows "\<exists>b s' sin'. sfs_bmap_get_nolock s sin n True = Some (0, b, s', sin') \<and> added s sin b s' sin'"
proof -
  let ?d = "sin_din sin" and ?e = "din_indirect (sin_din sin)"
  have eb: "blk_ok s ?e" "?e \<notin> free s" using file_okD(4)[OF ok(2) e] by auto
  have lt: "n - 12 < 1024" using n by simp
  have z: "ent_at (bytes s) ?e (n - 12) = 0" using file_okD(7)[OF ok(2), of n] n e by (simp add: bmap_def)
  obtain b0 s1 where s1: "sfs_rbuf s (le_bytes 4 0) 4 ?e ((n - 12) * 4) = Some (0, b0, s1)" "le_nat b0 = 0" "fs_step s (free s) (bytes s) s1"
    using rbuf_entry[OF ok(1) eb(1) lt] z by auto
  have f1: "free s1 = free s" "bytes s1 = bytes s" using s1(3) by (simp_all add: fs_step_def)
  obtain b s2 where s2: "bmap_add s1 ?e ?e ((n - 12) * 4) = Some (0, ?e, b, s2)" "b \<in> free s"
      "fs_step s1 (free s - {b}) (overlay (overlay (bytes s) (b * 4096) (replicate 4096 0)) (?e * 4096 + (n - 12) * 4) (le_bytes 4 b)) s2"
    using bmap_add_ok[OF fs_step_ok[OF s1(3)], of ?e "n - 12" ?e] eb fr lt blk_ok_step[OF s1(3)] f1 by auto
  have st: "fs_step s (free s - {b}) (overlay (overlay (bytes s) (b * 4096) (replicate 4096 0)) (?e * 4096 + (n - 12) * 4) (le_bytes 4 b)) s2"
    using fs_step_trans[OF s1(3) s2(3)] .
  have eb': "?e \<noteq> b" using eb(2) s2(2) by auto
  have m: "bytes s2 x = (if x div 4096 = b then 0 else bytes s x)" if "x div 4096 \<noteq> ?e" for x
    using st that overlay_inside[of "(n - 12) * 4" "le_bytes 4 b" x ?e] overlay_block[of "bytes s" b x] lt by (simp add: fs_step_def)
  have b32: "b < 2 ^ 32" using blk_ok_32[OF ok(1)] free_blk_ok[OF ok(1) s2(2)] by blast
  have en: "ent_at (bytes s2) ?e i = (if i = n - 12 then b else ent_at (bytes s) ?e i)" if "i < 1024" for i
  proof -
    have "ent_at (overlay (bytes s) (b * 4096) (replicate 4096 0)) ?e i = ent_at (bytes s) ?e i"
      using that eb' by (intro ent_at_cong) (auto simp: overlay_block)
    then show ?thesis using st ent_at_overlay[OF b32] by (simp add: fs_step_def)
  qed
  have bm: "bmap (bytes s2) ?d i = (if i = n then b else bmap (bytes s) ?d i)" if "i < 1036" for i
    using that n(2,3) e en[of "i - 12"] by (auto simp: bmap_def)
  have bk: "blk_ok s2 b" "b \<notin> free s2" using free_blk_ok[OF ok(1) s2(2)] blk_ok_step[OF st] st by (simp_all add: fs_step_def)
  have "free s - {b} = free s - {b, ?e}" using eb by auto
  then have "added s sin b s2 sin"
    using st s2(2) n m bm e eb' file_okD(1)[OF ok(2)] by (simp add: added_def fs_step_def)
  moreover have "sfs_bmap_get_nolock s sin n True = Some (0, b, s2, sin)"
    using n lt e s1 s2(1) bmap_out_ok[OF fs_step_ok[OF st] bk, of sin] by (simp add: sfs_bmap_get_nolock_def sfs_bmap_get_sub_nolock_def Let_def)
  ultimately show ?thesis by blast
qed

lemma bmap_get_fresh:
  assumes ok: "fs_ok s" "file_ok s (sin_din sin)" and n: "din_blocks (sin_din sin) = 12"
    and e: "din_indirect (sin_din sin) = 0" and fr: "2 \<le> card (free s)"
  shows "\<exists>b s' sin'. sfs_bmap_get_nolock s sin 12 True = Some (0, b, s', sin') \<and> added s sin b s' sin'"
proof -
  let ?d = "sin_din sin"
  have "free s \<noteq> {}" using fr by auto
  then obtain e' s1 where s1: "sfs_block_alloc s = Some (0, e', s1)" "e' \<in> free s"
      "fs_step s (free s - {e'}) (overlay (bytes s) (e' * 4096) (replicate 4096 0)) s1"
    using sfs_block_alloc_ok[OF ok(1)] by blast
  have f1: "free s1 = free s - {e'}" "bytes s1 = overlay (bytes s) (e' * 4096) (replicate 4096 0)" using s1(3) by (simp_all add: fs_step_def)
  have "card (free s - {e'}) = card (free s) - 1" using s1(2) by simp
  then have ne: "free s1 \<noteq> {}" using fr f1(1) by (metis card.empty not_less_eq_eq numeral_2_eq_2 One_nat_def Suc_diff_1 diff_0_eq_0 le_zero_eq nat.simps(3) diff_is_0_eq)
  have eb: "blk_ok s1 e'" "e' \<notin> free s1" using free_blk_ok[OF ok(1) s1(2)] blk_ok_step[OF s1(3)] f1 by simp_all
  obtain b s2 where s2: "bmap_add s1 0 e' 0 = Some (0, e', b, s2)" "b \<in> free s - {e'}"
      "fs_step s1 (free s - {e'} - {b}) (overlay (overlay (bytes s1) (b * 4096) (replicate 4096 0)) (e' * 4096) (le_bytes 4 b)) s2"
    using bmap_add_ok[OF fs_step_ok[OF s1(3)] eb ne, of 0 0] f1 by auto
  have st: "fs_step s (free s - {e'} - {b}) (overlay (overlay (bytes s1) (b * 4096) (replicate 4096 0)) (e' * 4096) (le_bytes 4 b)) s2"
    using fs_step_trans[OF s1(3) s2(3)] .
  let ?sin = "set_indirect sin e'"
  have nz: "e' \<noteq> 0" using eb(1) by (simp add: blk_ok_def)
  have m: "bytes s2 x = (if x div 4096 = b then 0 else bytes s x)" if "x div 4096 \<noteq> e'" for x
    using st that overlay_inside[of 0 "le_bytes 4 b" x e'] by (simp add: fs_step_def overlay_block f1)
  have b32: "b < 2 ^ 32" using blk_ok_32[OF ok(1)] free_blk_ok[OF ok(1), of b] s2(2) by blast
  have en: "ent_at (bytes s2) e' i = (if i = 0 then b else 0)" if "i < 1024" for i
  proof -
    have "ent_at (overlay (bytes s1) (b * 4096) (replicate 4096 0)) e' i = ent_at (bytes s1) e' i"
      using that s2(2) by (intro ent_at_cong) (auto simp: overlay_block)
    then show ?thesis using st ent_at_overlay[OF b32, of _ e' 0 i] ent_at_zero[OF that] f1(2) by (simp add: fs_step_def)
  qed
  have bm: "bmap (bytes s2) (sin_din ?sin) i = (if i = 12 then b else bmap (bytes s) ?d i)" if "i < 1036" for i
    using that e en[of "i - 12"] nz by (auto simp: bmap_def)
  have bk: "blk_ok s2 b" "b \<notin> free s2" using free_blk_ok[OF ok(1), of b] s2(2) blk_ok_step[OF st] st by (simp_all add: fs_step_def)
  have "free s - {e'} - {b} = free s - {b, e'}" by auto
  then have "added s sin b s2 ?sin"
    using st s1(2) s2(2) n m bm e nz file_okD(1)[OF ok(2)] by (auto simp: added_def fs_step_def same_meta_def)
  moreover have "sfs_bmap_get_nolock s sin 12 True = Some (0, b, s2, ?sin)"
    using e nz s1(1) s2(1) bmap_out_ok[OF fs_step_ok[OF st] bk, of ?sin] by (simp add: sfs_bmap_get_nolock_def sfs_bmap_get_sub_nolock_def Let_def)
  ultimately show ?thesis by blast
qed

lemma bmap_get_append:
  assumes ok: "fs_ok s" "file_ok s (sin_din sin)" and n: "n = din_blocks (sin_din sin)" "n < 1036"
    and fr: "need (sin_din sin) (Suc n) \<le> card (free s)"
  shows "\<exists>b s' sin'. sfs_bmap_get_nolock s sin n True = Some (0, b, s', sin') \<and> added s sin b s' sin'"
proof -
  have ne: "free s \<noteq> {}" using fr n by (auto simp: need_def)
  consider "n < 12" | "12 \<le> n" "din_indirect (sin_din sin) = 0" | "12 \<le> n" "din_indirect (sin_din sin) \<noteq> 0" by linarith
  then show ?thesis
  proof cases
    case 1
    then show ?thesis using bmap_get_direct[OF ok n(1)] ne by blast
  next
    case 2
    then have "n = 12" using file_ok_indirect[OF ok(2)] n by (metis le_neq_implies_less)
    then show ?thesis using bmap_get_fresh[OF ok] 2 fr n by (simp add: need_def)
  next
    case 3
    then show ?thesis using bmap_get_indirect[OF ok n(1) _ n(2) _ ne] by simp
  qed
qed

lemma bmap_load_append:
  assumes ok: "fs_ok s" "file_ok s (sin_din sin)" and n: "n = din_blocks (sin_din sin)" "n < 1036"
    and fr: "need (sin_din sin) (Suc n) \<le> card (free s)"
  shows "\<exists>b s' sin'. sfs_bmap_load_nolock s sin n = Some (0, b, s', sin') \<and> upd s sin s' sin' \<and>
    din_blocks (sin_din sin') = Suc n \<and> fdata (bytes s') (sin_din sin') = fdata (bytes s) (sin_din sin) \<and>
    bmap (bytes s') (sin_din sin') n = b \<and>
    (\<forall>nb \<ge> Suc n. need (sin_din sin) nb + card (free s') = need (sin_din sin') nb + card (free s))"
proof -
  let ?d = "sin_din sin"
  obtain b s' sin' where g: "sfs_bmap_get_nolock s sin n True = Some (0, b, s', sin')" "added s sin b s' sin'"
    using bmap_get_append[OF assms] by blast
  define sin2 where "sin2 = set_blocks sin' (Suc n)"
  note u = added_upd[OF ok n(2)[unfolded n(1)] g(2) sin2_def[unfolded n(1)]]
  have d2: "din_blocks (sin_din sin2) = Suc n" "din_indirect (sin_din sin2) = din_indirect (sin_din sin')" by (simp_all add: sin2_def)
  have fo: "file_ok s' (sin_din sin2)" "fs_ok s'" using u(1) by (simp_all add: upd_def)
  have "sfs_block_inuse s' b = Some True"
    using sfs_block_inuse_ok[OF fo(2), of b] file_okD(3)[OF fo(1), of n] u(3) d2 n by simp
  then have "sfs_bmap_load_nolock s sin n = Some (0, b, s', sin2)"
    using g n(1) by (simp add: sfs_bmap_load_nolock_def sin2_def added_def)
  moreover have "need ?d nb + card (free s') = need (sin_din sin2) nb + card (free s)" if "Suc n \<le> nb" for nb
  proof -
    have "0 \<notin> free s" using free_blk_ok[OF ok(1), of 0] by (auto simp: blk_ok_def)
    then have "din_indirect (sin_din sin') = din_indirect ?d \<and> (n < 12 \<or> din_indirect ?d \<noteq> 0) \<or> din_indirect ?d = 0 \<and> din_indirect (sin_din sin') \<noteq> 0 \<and> n = 12"
      using g(2) n(1) unfolding added_def by force
    then have "need ?d nb = need (sin_din sin2) nb + need ?d (Suc n)" using that n(1) d2 by (auto simp: need_def)
    then show ?thesis using added_card[OF g(2) ok] n(1) by simp
  qed
  ultimately show ?thesis using u n(1) d2 by blast
qed

text \<open>Without a free block a file stays as it is.\<close>

lemma bmap_load_full:
  assumes ok: "fs_ok s" "file_ok s (sin_din sin)" and n: "n = din_blocks (sin_din sin)" "n < 1036" and fr: "free s = {}"
  shows "\<exists>s'. sfs_bmap_load_nolock s sin n = Some (- E_NO_MEM, 0, s', sin) \<and> fs_step s (free s) (bytes s) s'"
proof (cases "n < 12")
  case True
  then have "din_direct (sin_din sin) ! n = 0" using file_okD(7)[OF ok(2), of n] n by (simp add: bmap_def)
  then show ?thesis using True n sfs_block_alloc_full[OF ok(1) fr] fs_step_refl[OF ok(1)]
    by (simp add: sfs_bmap_load_nolock_def sfs_bmap_get_nolock_def E_NO_MEM_def)
next
  case False
  let ?e = "din_indirect (sin_din sin)"
  have lt: "n - 12 < 1024" using n False by simp
  show ?thesis
  proof (cases "?e = 0")
    case True
    then show ?thesis using False lt n sfs_block_alloc_full[OF ok(1) fr] fs_step_refl[OF ok(1)]
      by (simp add: sfs_bmap_load_nolock_def sfs_bmap_get_nolock_def sfs_bmap_get_sub_nolock_def Let_def E_NO_MEM_def)
  next
    case e: False
    have z: "ent_at (bytes s) ?e (n - 12) = 0" using file_okD(7)[OF ok(2), of n] n e False by (simp add: bmap_def)
    obtain b0 s1 where s1: "sfs_rbuf s (le_bytes 4 0) 4 ?e ((n - 12) * 4) = Some (0, b0, s1)" "le_nat b0 = 0" "fs_step s (free s) (bytes s) s1"
      using rbuf_entry[OF ok(1) conjunct1[OF file_okD(4)[OF ok(2) e]] lt] z by auto
    have "free s1 = {}" using s1(3) fr by (simp add: fs_step_def)
    then have "sfs_block_alloc s1 = Some (- E_NO_MEM, 0, s1)" using sfs_block_alloc_full[OF fs_step_ok[OF s1(3)]] by blast
    then show ?thesis using False e lt n s1
      by (simp add: sfs_bmap_load_nolock_def sfs_bmap_get_nolock_def sfs_bmap_get_sub_nolock_def bmap_add_def bmap_cleanup_def Let_def E_NO_MEM_def)
  qed
qed

text \<open>The map ends with the indirect block: there is no block 1036, and asking for it stops the kernel.\<close>

lemma bmap_get_bound: "12 + 1024 \<le> i \<Longrightarrow> sfs_bmap_get_nolock s sin i c = None"
proof -
  assume i: "12 + 1024 \<le> i"
  then have "\<not> i < 12" "\<not> i - 12 < 1024" by linarith+
  then show ?thesis unfolding sfs_bmap_get_nolock_def by (simp only: if_False)
qed

end
