(* ===== verification/Sfs_Io.thy ===== *)
theory Sfs_Io
  imports Sfs_Bmap
begin

text \<open>
  Reading, writing and truncating a file of the simple file system, seen as a function from
  positions to bytes: a write overlays the buffer on it, a read returns a piece of it, and neither
  touches a block of another file.
\<close>

subsection \<open>One piece\<close>

lemma step_upd: "fs_step s (free s) (bytes s) s' \<Longrightarrow> file_ok s (sin_din sin) \<Longrightarrow> upd s sin s' sin"
  using step_file_ok[of s s'] by (auto simp: upd_def fs_step_def)

lemma bmap_load_ok:
  assumes ok: "fs_ok s" "file_ok s (sin_din sin)" and n: "n \<le> din_blocks (sin_din sin)" "n < nb" "nb \<le> 1036"
    and fr: "need (sin_din sin) nb \<le> card (free s)"
  shows "\<exists>b s' sin'. sfs_bmap_load_nolock s sin n = Some (0, b, s', sin') \<and> upd s sin s' sin' \<and>
    din_blocks (sin_din sin') = max (din_blocks (sin_din sin)) (Suc n) \<and> fdata (bytes s') (sin_din sin') = fdata (bytes s) (sin_din sin) \<and>
    bmap (bytes s') (sin_din sin') n = b \<and> need (sin_din sin') nb \<le> card (free s')"
proof (cases "n < din_blocks (sin_din sin)")
  case True
  obtain s' where s': "sfs_bmap_load_nolock s sin n = Some (0, bmap (bytes s) (sin_din sin) n, s', sin)" "fs_step s (free s) (bytes s) s'"
    using bmap_load_existing[OF ok True] by blast
  then have "free s' = free s" "bytes s' = bytes s" by (simp_all add: fs_step_def)
  then show ?thesis using s' step_upd[OF s'(2) ok(2)] True fr by auto
next
  case False
  then have n': "n = din_blocks (sin_din sin)" using n(1) by simp
  have n36: "n < 1036" and fr2: "need (sin_din sin) (Suc n) \<le> card (free s)" using n(2,3) n' fr by (auto simp: need_def)
  from bmap_load_append[OF ok n' n36 fr2] obtain b s' sin' where l: "sfs_bmap_load_nolock s sin n = Some (0, b, s', sin')" "upd s sin s' sin'"
      "din_blocks (sin_din sin') = Suc n" "fdata (bytes s') (sin_din sin') = fdata (bytes s) (sin_din sin)"
      "bmap (bytes s') (sin_din sin') n = b" "\<forall>nb \<ge> Suc n. need (sin_din sin) nb + card (free s') = need (sin_din sin') nb + card (free s)"
    by blast
  have "need (sin_din sin) nb + card (free s') = need (sin_din sin') nb + card (free s)" using l(6) n(2) by simp
  then have "need (sin_din sin') nb \<le> card (free s')" using fr by linarith
  with l n' show ?thesis by auto
qed

lemma file_write_upd:
  assumes u: "upd s sin s1 sin1" and i: "i < din_blocks (sin_din sin1)" "off + length bs \<le> 4096"
    and st: "fs_step s1 (free s1) (overlay (bytes s1) (bmap (bytes s1) (sin_din sin1) i * 4096 + off) bs) s2"
  shows "upd s sin s2 sin1" "fdata (bytes s2) (sin_din sin1) = overlay (fdata (bytes s1) (sin_din sin1)) (i * 4096 + off) bs"
    "free s2 = free s1"
proof -
  have f: "file_ok s1 (sin_din sin1)" using u by (simp add: upd_def)
  note w = file_write[OF f i st]
  have "upd s1 sin1 s2 sin1" using w st by (simp add: upd_def fs_step_def)
  then show "upd s sin s2 sin1" using upd_trans[OF u] by blast
  show "fdata (bytes s2) (sin_din sin1) = overlay (fdata (bytes s1) (sin_din sin1)) (i * 4096 + off) bs" by (rule w(3))
  show "free s2 = free s1" using st by (simp add: fs_step_def)
qed

lemma io_piece_write:
  assumes ok: "fs_ok s" "file_ok s (sin_din sin)" and n: "n \<le> din_blocks (sin_din sin)" "n < nb" "nb \<le> 1036"
    and fr: "need (sin_din sin) nb \<le> card (free s)"
    and o: "off < 4096" "off + sz \<le> 4096" "alen + sz \<le> length buf" "whole \<Longrightarrow> off = 0 \<and> sz = 4096"
  shows "\<exists>s' sin'. io_piece s sin buf alen n sz off whole True = Some (0, buf, alen + sz, s', sin') \<and> upd s sin s' sin' \<and>
    din_blocks (sin_din sin') = max (din_blocks (sin_din sin)) (Suc n) \<and>
    fdata (bytes s') (sin_din sin') = overlay (fdata (bytes s) (sin_din sin)) (n * 4096 + off) (take sz (drop alen buf)) \<and>
    need (sin_din sin') nb \<le> card (free s')"
proof -
  obtain b s1 sin1 where l: "sfs_bmap_load_nolock s sin n = Some (0, b, s1, sin1)" "upd s sin s1 sin1"
      "din_blocks (sin_din sin1) = max (din_blocks (sin_din sin)) (Suc n)" "fdata (bytes s1) (sin_din sin1) = fdata (bytes s) (sin_din sin)"
      "bmap (bytes s1) (sin_din sin1) n = b" "need (sin_din sin1) nb \<le> card (free s1)"
    using bmap_load_ok[OF ok n fr] by blast
  let ?t = "take sz (drop alen buf)"
  have lt: "n < din_blocks (sin_din sin1)" using l(3) by simp
  have f1: "fs_ok s1" "file_ok s1 (sin_din sin1)" using l(2) by (simp_all add: upd_def)
  have bk: "blk_ok s1 b" using file_okD(3)[OF f1(2) lt] l(5) by simp
  have lb: "sz \<le> length (drop alen buf)" using o(3) by simp
  have lo: "off + length ?t \<le> 4096" using o(2) by simp
  obtain s2 where s2: "(if whole then sfs_block_op s1 (drop alen buf) b 1 True else sfs_buf_op s1 (drop alen buf) sz b off True) = Some (0, drop alen buf, s2)"
      "fs_step s1 (free s1) (overlay (bytes s1) (b * 4096 + off) ?t) s2"
  proof (cases whole)
    case True
    then show ?thesis using that sfs_wblock_ok[OF f1(1) bk, of "drop alen buf"] o(4) lb by (auto simp: sfs_block_op_def)
  next
    case False
    then show ?thesis using that sfs_wbuf_ok[OF f1(1) bk o(1,2) lb] by (auto simp: sfs_buf_op_def)
  qed
  have "io_piece s sin buf alen n sz off whole True = Some (0, buf, alen + sz, s2, sin1)" using l(1) s2(1) by (simp add: io_piece_def)
  then show ?thesis using file_write_upd[OF l(2) lt lo s2(2)[folded l(5)]] l(3,4,6) by auto
qed

lemma io_piece_read:
  assumes ok: "fs_ok s" "file_ok s (sin_din sin)" and n: "n < din_blocks (sin_din sin)"
    and o: "off < 4096" "off + sz \<le> 4096" "alen + sz \<le> length buf" "whole \<Longrightarrow> off = 0 \<and> sz = 4096"
  shows "\<exists>s'. io_piece s sin buf alen n sz off whole False =
      Some (0, patch buf alen (span (fdata (bytes s) (sin_din sin)) (n * 4096 + off) sz), alen + sz, s', sin) \<and> fs_step s (free s) (bytes s) s'"
proof -
  let ?b = "bmap (bytes s) (sin_din sin) n"
  obtain s1 where s1: "sfs_bmap_load_nolock s sin n = Some (0, ?b, s1, sin)" "fs_step s (free s) (bytes s) s1"
    using bmap_load_existing[OF ok n] by blast
  have f1: "fs_ok s1" "blk_ok s1 ?b" "bytes s1 = bytes s" "free s1 = free s"
    using step_keeps[OF s1(2) file_okD(3)[OF ok(2) n]] s1(2) by (auto simp: fs_step_def)
  have sp: "span (bytes s) (?b * 4096 + off) sz = span (fdata (bytes s) (sin_din sin)) (n * 4096 + off) sz"
  proof (rule nth_equalityI)
    fix k assume "k < length (span (bytes s) (?b * 4096 + off) sz)"
    then have k: "k < sz" by simp
    then have "(n * 4096 + off + k) div 4096 = n" using o(2) by (intro div_nat_eqI) auto
    moreover have "(n * 4096 + off + k) mod 4096 = off + k"
    proof -
      have "off + k < 4096" using o(2) k by simp
      then show ?thesis by (metis add.assoc mod_less mod_mult_self3)
    qed
    ultimately show "span (bytes s) (?b * 4096 + off) sz ! k = span (fdata (bytes s) (sin_din sin)) (n * 4096 + off) sz ! k"
      using k n by (simp add: fdata_def add.assoc)
  qed simp
  obtain s2 where s2: "(if whole then sfs_block_op s1 (drop alen buf) ?b 1 False else sfs_buf_op s1 (drop alen buf) sz ?b off False) =
      Some (0, patch (drop alen buf) 0 (span (bytes s) (?b * 4096 + off) sz), s2)" "fs_step s1 (free s1) (bytes s1) s2"
  proof (cases whole)
    case True
    then have "4096 \<le> length (drop alen buf)" using o(3,4) by simp
    from sfs_rblock_ok[OF f1(1,2) this] show ?thesis using that True o(4) f1(3) by (auto simp: sfs_block_op_def)
  next
    case False
    then show ?thesis using that sfs_rbuf_ok[OF f1(1,2) o(1,2), of "drop alen buf"] f1(3) by (auto simp: sfs_buf_op_def)
  qed
  have "take alen buf @ patch (drop alen buf) 0 (span (bytes s) (?b * 4096 + off) sz) = patch buf alen (span (bytes s) (?b * 4096 + off) sz)"
    using o(3) by (simp add: patch_def add.commute)
  then have "io_piece s sin buf alen n sz off whole False =
      Some (0, patch buf alen (span (fdata (bytes s) (sin_din sin)) (n * 4096 + off) sz), alen + sz, s2, sin)"
    using s1(1) s2(1) by (simp add: io_piece_def sp)
  moreover have "fs_step s (free s) (bytes s) s2" using fs_step_trans[OF s1(2) s2(2)] f1 by simp
  ultimately show ?thesis by blast
qed

subsection \<open>Runs of blocks\<close>

lemma take_drop_add: "take (a + b) (drop k xs) = take a (drop k xs) @ take b (drop (k + a) xs)"
  by (simp add: take_add add.commute)

lemma overlay_take2:
  assumes "k + a + b \<le> length xs"
  shows "overlay (overlay m p (take a (drop k xs))) (p + a) (take b (drop (k + a) xs)) = overlay m p (take (a + b) (drop k xs))"
  using assms overlay_append[of m p "take a (drop k xs)" "take b (drop (k + a) xs)"] by (simp add: take_drop_add)

lemma io_blocks_write:
  assumes "fs_ok s" "file_ok s (sin_din sin)" "blk \<le> din_blocks (sin_din sin)" "blk + n \<le> nb" "nb \<le> 1036"
    "need (sin_din sin) nb \<le> card (free s)" "alen + n * 4096 \<le> length buf"
  shows "\<exists>s' sin'. io_blocks s sin buf alen blk n True = Some (0, buf, alen + n * 4096, s', sin') \<and> upd s sin s' sin' \<and>
    din_blocks (sin_din sin') = max (din_blocks (sin_din sin)) (blk + n) \<and>
    fdata (bytes s') (sin_din sin') = overlay (fdata (bytes s) (sin_din sin)) (blk * 4096) (take (n * 4096) (drop alen buf)) \<and>
    need (sin_din sin') nb \<le> card (free s')"
  using assms
proof (induction n arbitrary: s sin alen blk)
  case 0
  then show ?case using upd_refl by simp
next
  case (Suc n)
  obtain s1 sin1 where p: "io_piece s sin buf alen blk 4096 0 True True = Some (0, buf, alen + 4096, s1, sin1)" "upd s sin s1 sin1"
      "din_blocks (sin_din sin1) = max (din_blocks (sin_din sin)) (Suc blk)"
      "fdata (bytes s1) (sin_din sin1) = overlay (fdata (bytes s) (sin_din sin)) (blk * 4096) (take 4096 (drop alen buf))"
      "need (sin_din sin1) nb \<le> card (free s1)"
    using io_piece_write[OF Suc.prems(1,2,3) _ Suc.prems(5,6), where off = 0 and sz = 4096 and alen = alen and buf = buf and whole = True]
      Suc.prems(4,7) by auto
  have ok1: "fs_ok s1" "file_ok s1 (sin_din sin1)" using p(2) by (simp_all add: upd_def)
  have "Suc blk \<le> din_blocks (sin_din sin1)" "Suc blk + n \<le> nb" "alen + 4096 + n * 4096 \<le> length buf"
    using p(3) Suc.prems(4,7) by simp_all
  from Suc.IH[OF ok1 this(1,2) Suc.prems(5) p(5) this(3)]
  obtain s2 sin2 where r: "io_blocks s1 sin1 buf (alen + 4096) (Suc blk) n True = Some (0, buf, alen + 4096 + n * 4096, s2, sin2)" "upd s1 sin1 s2 sin2"
      "din_blocks (sin_din sin2) = max (din_blocks (sin_din sin1)) (Suc blk + n)"
      "fdata (bytes s2) (sin_din sin2) = overlay (fdata (bytes s1) (sin_din sin1)) (Suc blk * 4096) (take (n * 4096) (drop (alen + 4096) buf))"
      "need (sin_din sin2) nb \<le> card (free s2)" by blast
  have "fdata (bytes s2) (sin_din sin2) = overlay (fdata (bytes s) (sin_din sin)) (blk * 4096) (take (Suc n * 4096) (drop alen buf))"
    using overlay_take2[of alen 4096 "n * 4096" buf _ "blk * 4096"] Suc.prems(7) r(4) p(4) by (simp add: algebra_simps)
  then show ?case using p r upd_trans[OF p(2) r(2)] by (auto simp: algebra_simps)
qed

lemma patch_span2:
  assumes "k + a + b \<le> length buf"
  shows "patch (patch buf k (span m p a)) (k + a) (span m (p + a) b) = patch buf k (span m p (a + b))"
  using assms patch_append[of k "span m p a" "span m (p + a) b" buf] by (simp add: span_append)

lemma io_blocks_read:
  assumes "fs_ok s" "file_ok s (sin_din sin)" "blk + n \<le> din_blocks (sin_din sin)" "alen + n * 4096 \<le> length buf"
  shows "\<exists>s'. io_blocks s sin buf alen blk n False =
      Some (0, patch buf alen (span (fdata (bytes s) (sin_din sin)) (blk * 4096) (n * 4096)), alen + n * 4096, s', sin) \<and> fs_step s (free s) (bytes s) s'"
  using assms
proof (induction n arbitrary: s alen blk buf)
  case 0
  then show ?case using fs_step_refl by simp
next
  case (Suc n)
  let ?f = "fdata (bytes s) (sin_din sin)"
  obtain s1 where p: "io_piece s sin buf alen blk 4096 0 True False = Some (0, patch buf alen (span ?f (blk * 4096) 4096), alen + 4096, s1, sin)"
      "fs_step s (free s) (bytes s) s1"
    using io_piece_read[OF Suc.prems(1,2), of blk 0 4096 alen buf True] Suc.prems(3,4) by auto
  have ok1: "fs_ok s1" "file_ok s1 (sin_din sin)" "bytes s1 = bytes s" "free s1 = free s"
    using p(2) step_file_ok[OF p(2)] Suc.prems(2) by (simp_all add: fs_step_def)
  have "Suc blk + n \<le> din_blocks (sin_din sin)" "alen + 4096 + n * 4096 \<le> length (patch buf alen (span ?f (blk * 4096) 4096))"
    using Suc.prems(3,4) by simp_all
  from Suc.IH[OF ok1(1,2) this] obtain s2 where r:
      "io_blocks s1 sin (patch buf alen (span ?f (blk * 4096) 4096)) (alen + 4096) (Suc blk) n False =
        Some (0, patch (patch buf alen (span ?f (blk * 4096) 4096)) (alen + 4096) (span ?f (Suc blk * 4096) (n * 4096)), alen + 4096 + n * 4096, s2, sin)"
      "fs_step s1 (free s1) (bytes s1) s2" by (auto simp: ok1)
  have "fs_step s (free s) (bytes s) s2" using fs_step_trans[OF p(2) r(2)] ok1 by simp
  then show ?case using p(1) r(1) patch_span2[of alen 4096 "n * 4096" buf ?f "blk * 4096"] Suc.prems(4) by (simp add: algebra_simps)
qed

subsection \<open>The whole transfer\<close>

lemma io_rest_write:
  assumes ok: "fs_ok s" "file_ok s (sin_din sin)" and b: "blk \<le> din_blocks (sin_din sin)" and t: "t < 4096"
    and nb: "nb = blk + n + (if t = 0 then 0 else 1)" "nb \<le> 1036" and fr: "need (sin_din sin) nb \<le> card (free s)"
    and l: "len = n * 4096 + t" "alen + len \<le> length buf"
  shows "\<exists>s' sin'. io_rest s sin buf alen blk n t True = Some (0, buf, alen + len, s', sin') \<and> upd s sin s' sin' \<and>
    din_blocks (sin_din sin') = max (din_blocks (sin_din sin)) nb \<and>
    fdata (bytes s') (sin_din sin') = overlay (fdata (bytes s) (sin_din sin)) (blk * 4096) (take len (drop alen buf)) \<and>
    need (sin_din sin') nb \<le> card (free s')"
proof -
  have "blk + n \<le> nb" "alen + n * 4096 \<le> length buf" using nb l by auto
  from io_blocks_write[OF ok b this(1) nb(2) fr this(2)]
  obtain s1 sin1 where r: "io_blocks s sin buf alen blk n True = Some (0, buf, alen + n * 4096, s1, sin1)" "upd s sin s1 sin1"
      "din_blocks (sin_din sin1) = max (din_blocks (sin_din sin)) (blk + n)"
      "fdata (bytes s1) (sin_din sin1) = overlay (fdata (bytes s) (sin_din sin)) (blk * 4096) (take (n * 4096) (drop alen buf))"
      "need (sin_din sin1) nb \<le> card (free s1)" by blast
  show ?thesis
  proof (cases "t = 0")
    case True
    then show ?thesis using r nb(1) l(1) by (auto simp: io_rest_def)
  next
    case False
    have ok1: "fs_ok s1" "file_ok s1 (sin_din sin1)" using r(2) by (simp_all add: upd_def)
    have c: "blk + n \<le> din_blocks (sin_din sin1)" "blk + n < nb" "alen + n * 4096 + t \<le> length buf" using r(3) nb(1) False l by simp_all
    obtain s2 sin2 where p: "io_piece s1 sin1 buf (alen + n * 4096) (blk + n) t 0 False True = Some (0, buf, alen + n * 4096 + t, s2, sin2)" "upd s1 sin1 s2 sin2"
        "din_blocks (sin_din sin2) = max (din_blocks (sin_din sin1)) (Suc (blk + n))"
        "fdata (bytes s2) (sin_din sin2) = overlay (fdata (bytes s1) (sin_din sin1)) ((blk + n) * 4096) (take t (drop (alen + n * 4096) buf))"
        "need (sin_din sin2) nb \<le> card (free s2)"
      using io_piece_write[OF ok1 c(1,2) nb(2) r(5), of 0 t "alen + n * 4096" buf False] t c(3) by auto
    have "fdata (bytes s2) (sin_din sin2) = overlay (fdata (bytes s) (sin_din sin)) (blk * 4096) (take len (drop alen buf))"
      using overlay_take2[of alen "n * 4096" t buf _ "blk * 4096"] c(3) p(4) r(4) l(1) by (simp add: add_mult_distrib)
    then show ?thesis using False r p upd_trans[OF r(2) p(2)] nb(1) l(1) by (auto simp: io_rest_def add.assoc)
  qed
qed

lemma io_rest_read:
  assumes ok: "fs_ok s" "file_ok s (sin_din sin)" and t: "t < 4096"
    and nb: "blk + n + (if t = 0 then 0 else 1) \<le> din_blocks (sin_din sin)" and l: "len = n * 4096 + t" "alen + len \<le> length buf"
  shows "\<exists>s'. io_rest s sin buf alen blk n t False =
      Some (0, patch buf alen (span (fdata (bytes s) (sin_din sin)) (blk * 4096) len), alen + len, s', sin) \<and> fs_step s (free s) (bytes s) s'"
proof -
  let ?f = "fdata (bytes s) (sin_din sin)" and ?buf = "patch buf alen (span (fdata (bytes s) (sin_din sin)) (blk * 4096) (n * 4096))"
  have "blk + n \<le> din_blocks (sin_din sin)" "alen + n * 4096 \<le> length buf" using nb l by simp_all
  from io_blocks_read[OF ok this] obtain s1 where r:
      "io_blocks s sin buf alen blk n False = Some (0, ?buf, alen + n * 4096, s1, sin)" "fs_step s (free s) (bytes s) s1" by blast
  show ?thesis
  proof (cases "t = 0")
    case True
    then show ?thesis using r l(1) by (simp add: io_rest_def)
  next
    case False
    have ok1: "fs_ok s1" "file_ok s1 (sin_din sin)" "bytes s1 = bytes s" "free s1 = free s"
      using r(2) step_file_ok[OF r(2)] ok(2) by (simp_all add: fs_step_def)
    have c: "blk + n < din_blocks (sin_din sin)" "alen + n * 4096 + t \<le> length ?buf" using nb False l by simp_all
    obtain s2 where p: "io_piece s1 sin ?buf (alen + n * 4096) (blk + n) t 0 False False =
          Some (0, patch ?buf (alen + n * 4096) (span ?f ((blk + n) * 4096) t), alen + n * 4096 + t, s2, sin)" "fs_step s1 (free s1) (bytes s1) s2"
      using io_piece_read[OF ok1(1,2) c(1), of 0 t "alen + n * 4096" ?buf False] t c(2) ok1(3) by auto
    have "fs_step s (free s) (bytes s) s2" using fs_step_trans[OF r(2) p(2)] ok1 by simp
    then show ?thesis using False r(1) p(1) patch_span2[of alen "n * 4096" t buf ?f "blk * 4096"] l
      by (simp add: io_rest_def add.assoc add_mult_distrib)
  qed
qed

text \<open>Where the pieces of a transfer lie.\<close>

lemma io_geometry:
  fixes off endpos :: nat
  assumes "off < endpos" and b: "blkno = off div 4096" "nblks = endpos div 4096 - blkno" "blkoff = off mod 4096"
    and nb: "nb = (endpos + 4095) div 4096" and t: "t = endpos mod 4096"
  shows "blkno < nb" "nblks = 0 \<Longrightarrow> nb = Suc blkno \<and> blkoff + (endpos - off) \<le> 4096"
    "nblks \<noteq> 0 \<Longrightarrow> blkoff \<noteq> 0 \<Longrightarrow> nb = Suc blkno + (nblks - 1) + (if t = 0 then 0 else 1) \<and>
       endpos - off = (4096 - blkoff) + ((nblks - 1) * 4096 + t)"
    "blkoff = 0 \<Longrightarrow> nb = blkno + nblks + (if t = 0 then 0 else 1) \<and> endpos - off = nblks * 4096 + t"
    "off = blkno * 4096 + blkoff" "blkoff < 4096"
proof -
  have e: "endpos = (endpos div 4096) * 4096 + t" "t < 4096" by (simp_all add: t)
  show o: "off = blkno * 4096 + blkoff" "blkoff < 4096" by (simp_all add: b)
  have le: "blkno \<le> endpos div 4096" using assms(1) b(1) by (simp add: div_le_mono)
  then have eb: "endpos div 4096 = blkno + nblks" using b(2) by simp
  have n: "nb = blkno + nblks + (if t = 0 then 0 else 1)"
    unfolding nb using e eb by (intro div_nat_eqI) (auto split: if_splits)
  have e2: "endpos = (blkno + nblks) * 4096 + t" using e(1) eb by simp
  show "blkno < nb" using n e2 o assms(1) by (cases "nblks = 0") auto
  show "nblks = 0 \<Longrightarrow> nb = Suc blkno \<and> blkoff + (endpos - off) \<le> 4096" using n e2 e(2) o assms(1) by auto
  show "nblks \<noteq> 0 \<Longrightarrow> blkoff \<noteq> 0 \<Longrightarrow> nb = Suc blkno + (nblks - 1) + (if t = 0 then 0 else 1) \<and> endpos - off = (4096 - blkoff) + ((nblks - 1) * 4096 + t)"
    using n e2 o by (cases nblks) auto
  show "blkoff = 0 \<Longrightarrow> nb = blkno + nblks + (if t = 0 then 0 else 1) \<and> endpos - off = nblks * 4096 + t"
    using n e2 o by (auto simp: add_mult_distrib)
qed

lemma io_body_unfold:
  assumes "blkno = off div 4096" "nblks = endpos div 4096 - blkno" "blkoff = off mod 4096" "t = endpos mod 4096"
  shows "io_body s sin buf off endpos wr = (if blkoff \<noteq> 0 then do {
       (r, buf1, alen1, s1, sin1) \<leftarrow> io_piece s sin buf 0 blkno (if nblks \<noteq> 0 then 4096 - blkoff else endpos - off) blkoff False wr;
       if r \<noteq> 0 \<or> nblks = 0 then Some (r, buf1, alen1, s1, sin1)
       else io_rest s1 sin1 buf1 alen1 (blkno + 1) (nblks - 1) t wr }
     else io_rest s sin buf 0 blkno nblks t wr)"
  unfolding io_body_def Let_def assms by (rule refl)

lemma io_body_write:
  assumes ok: "fs_ok s" "file_ok s (sin_din sin)" and e: "off < endpos" "off div 4096 \<le> din_blocks (sin_din sin)"
    and nb: "nb = (endpos + 4095) div 4096" "nb \<le> 1036" and fr: "need (sin_din sin) nb \<le> card (free s)" and l: "endpos - off \<le> length buf"
  shows "\<exists>s' sin'. io_body s sin buf off endpos True = Some (0, buf, endpos - off, s', sin') \<and> upd s sin s' sin' \<and>
    din_blocks (sin_din sin') = max (din_blocks (sin_din sin)) nb \<and>
    fdata (bytes s') (sin_din sin') = overlay (fdata (bytes s) (sin_din sin)) off (take (endpos - off) buf)"
proof -
  define blkno where "blkno = off div 4096"
  define nblks where "nblks = endpos div 4096 - blkno"
  define blkoff where "blkoff = off mod 4096"
  define t where "t = endpos mod 4096"
  note g = io_geometry[OF e(1) blkno_def nblks_def blkoff_def nb(1) t_def]
  have t: "t < 4096" by (simp add: t_def)
  have b: "blkno \<le> din_blocks (sin_din sin)" using e(2) by (simp add: blkno_def)
  note body = io_body_unfold[OF blkno_def nblks_def blkoff_def t_def, of s sin buf True]
  consider "blkoff = 0" | "blkoff \<noteq> 0" "nblks = 0" | "blkoff \<noteq> 0" "nblks \<noteq> 0" by blast
  then show ?thesis
  proof cases
    case 1
    then show ?thesis using io_rest_write[OF ok b t _ nb(2) fr, of nblks "endpos - off" 0 buf] g(4,5) l body by auto
  next
    case 2
    then show ?thesis using io_piece_write[OF ok b g(1) nb(2) fr, of blkoff "endpos - off" 0 buf False] g(2,5,6) l body by auto
  next
    case 3
    let ?a = "4096 - blkoff" and ?l = "(nblks - 1) * 4096 + t"
    have gl: "nb = Suc blkno + (nblks - 1) + (if t = 0 then 0 else 1)" "endpos - off = ?a + ?l" using g(3) 3 by blast+
    obtain s1 sin1 where p: "io_piece s sin buf 0 blkno ?a blkoff False True = Some (0, buf, ?a, s1, sin1)" "upd s sin s1 sin1"
        "din_blocks (sin_din sin1) = max (din_blocks (sin_din sin)) (Suc blkno)"
        "fdata (bytes s1) (sin_din sin1) = overlay (fdata (bytes s) (sin_din sin)) off (take ?a buf)"
        "need (sin_din sin1) nb \<le> card (free s1)"
      using io_piece_write[OF ok b g(1) nb(2) fr, of blkoff ?a 0 buf False] g(5,6) l gl(2) by auto
    have ok1: "fs_ok s1" "file_ok s1 (sin_din sin1)" using p(2) by (simp_all add: upd_def)
    have b1: "Suc blkno \<le> din_blocks (sin_din sin1)" using p(3) by simp
    obtain s2 sin2 where r: "io_rest s1 sin1 buf ?a (Suc blkno) (nblks - 1) t True = Some (0, buf, ?a + ?l, s2, sin2)" "upd s1 sin1 s2 sin2"
        "din_blocks (sin_din sin2) = max (din_blocks (sin_din sin1)) nb"
        "fdata (bytes s2) (sin_din sin2) = overlay (fdata (bytes s1) (sin_din sin1)) (Suc blkno * 4096) (take ?l (drop ?a buf))"
      using io_rest_write[OF ok1 b1 t gl(1) nb(2) p(5) refl, of ?a buf] l gl(2) by auto
    have "Suc blkno * 4096 = off + ?a" using g(5,6) by simp
    then have "fdata (bytes s2) (sin_din sin2) = overlay (fdata (bytes s) (sin_din sin)) off (take (endpos - off) buf)"
      using overlay_take2[of 0 ?a ?l buf _ off] l gl(2) r(4) p(4) by simp
    moreover have "din_blocks (sin_din sin2) = max (din_blocks (sin_din sin)) nb" using r(3) p(3) g(1) by simp
    ultimately show ?thesis using 3 p(1) r(1) upd_trans[OF p(2) r(2)] body gl(2) by auto
  qed
qed

lemma io_body_read:
  assumes ok: "fs_ok s" "file_ok s (sin_din sin)" and e: "off < endpos" "endpos \<le> din_blocks (sin_din sin) * 4096" and l: "endpos - off \<le> length buf"
  shows "\<exists>s'. io_body s sin buf off endpos False =
      Some (0, patch buf 0 (span (fdata (bytes s) (sin_din sin)) off (endpos - off)), endpos - off, s', sin) \<and> fs_step s (free s) (bytes s) s'"
proof -
  define blkno where "blkno = off div 4096"
  define nblks where "nblks = endpos div 4096 - blkno"
  define blkoff where "blkoff = off mod 4096"
  define t where "t = endpos mod 4096"
  define nb where "nb = (endpos + 4095) div 4096"
  note g = io_geometry[OF e(1) blkno_def nblks_def blkoff_def nb_def t_def]
  let ?f = "fdata (bytes s) (sin_din sin)"
  have t: "t < 4096" by (simp add: t_def)
  have nbb: "nb \<le> din_blocks (sin_din sin)"
  proof -
    have "endpos + 4095 < Suc (din_blocks (sin_din sin)) * 4096" using e(2) by simp
    then show ?thesis unfolding nb_def using less_mult_imp_div_less less_Suc_eq_le by blast
  qed
  note body = io_body_unfold[OF blkno_def nblks_def blkoff_def t_def, of s sin buf False]
  consider "blkoff = 0" | "blkoff \<noteq> 0" "nblks = 0" | "blkoff \<noteq> 0" "nblks \<noteq> 0" by blast
  then show ?thesis
  proof cases
    case 1
    then show ?thesis using io_rest_read[OF ok t, of blkno nblks "endpos - off" 0 buf] g(4,5) l nbb body by auto
  next
    case 2
    then show ?thesis using io_piece_read[OF ok, of blkno blkoff "endpos - off" 0 buf False] g(1,2,5,6) l nbb body by auto
  next
    case 3
    let ?a = "4096 - blkoff" and ?l = "(nblks - 1) * 4096 + t"
    have gl: "nb = Suc blkno + (nblks - 1) + (if t = 0 then 0 else 1)" "endpos - off = ?a + ?l" using g(3) 3 by blast+
    have lt: "blkno < din_blocks (sin_din sin)" using g(1) nbb by simp
    obtain s1 where p: "io_piece s sin buf 0 blkno ?a blkoff False False = Some (0, patch buf 0 (span ?f off ?a), ?a, s1, sin)" "fs_step s (free s) (bytes s) s1"
      using io_piece_read[OF ok lt, of blkoff ?a 0 buf False] g(5,6) l gl(2) by auto
    have ok1: "fs_ok s1" "file_ok s1 (sin_din sin)" "bytes s1 = bytes s" "free s1 = free s"
      using p(2) step_file_ok[OF p(2)] ok(2) by (simp_all add: fs_step_def)
    have la: "?a + ?l \<le> length (patch buf 0 (span ?f off ?a))" using l gl(2) by simp
    obtain s2 where r: "io_rest s1 sin (patch buf 0 (span ?f off ?a)) ?a (Suc blkno) (nblks - 1) t False =
          Some (0, patch (patch buf 0 (span ?f off ?a)) ?a (span ?f (Suc blkno * 4096) ?l), ?a + ?l, s2, sin)" "fs_step s1 (free s1) (bytes s1) s2"
      using io_rest_read[OF ok1(1,2) t, of "Suc blkno" "nblks - 1" ?l ?a "patch buf 0 (span ?f off ?a)"] la nbb gl(1) ok1(3) by auto
    have "Suc blkno * 4096 = off + ?a" using g(5,6) by simp
    then have "patch (patch buf 0 (span ?f off ?a)) ?a (span ?f (Suc blkno * 4096) ?l) = patch buf 0 (span ?f off (endpos - off))"
      using patch_span2[of 0 ?a ?l buf ?f off] l gl(2) by simp
    moreover have "fs_step s (free s) (bytes s) s2" using fs_step_trans[OF p(2) r(2)] ok1 by simp
    ultimately show ?thesis using 3 p(1) r(1) body gl(2) by auto
  qed
qed

subsection \<open>Reading and writing a file\<close>

lemma endpos_small: "x < 2 ^ 31 \<Longrightarrow> sint (word_of_int (int x) :: u32) = int x"
  using to_off_small[of x] by (simp add: to_off_def)

lemma set_size_views [simp]:
  "file_ok s (din\<lparr>din_size := z\<rparr>) = file_ok s din" "fdata m (din\<lparr>din_size := z\<rparr>) = fdata m din"
  "owned m (din\<lparr>din_size := z\<rparr>) = owned m din"
proof -
  have b: "bmap m (din\<lparr>din_size := z\<rparr>) = bmap m din" for m by (simp add: bmap_def fun_eq_iff)
  then have d: "data_blocks m (din\<lparr>din_size := z\<rparr>) = data_blocks m din" for m by (simp add: data_blocks_def)
  then show o: "owned m (din\<lparr>din_size := z\<rparr>) = owned m din" for m by (simp add: owned_def)
  show "file_ok s (din\<lparr>din_size := z\<rparr>) = file_ok s din" by (simp add: file_ok_def b d o)
  show "fdata m (din\<lparr>din_size := z\<rparr>) = fdata m din" by (simp add: fdata_def b fun_eq_iff)
qed

text \<open>The parts of a file that a write of \<open>len\<close> bytes at \<open>off\<close> determines, and what it leaves alone.\<close>

definition written :: "sfs_fs \<Rightarrow> sfs_inode \<Rightarrow> nat \<Rightarrow> u8 list \<Rightarrow> sfs_fs \<Rightarrow> sfs_inode \<Rightarrow> bool" where
  "written s sin off bs s' sin' \<longleftrightarrow> fs_ok s' \<and> frame s s' \<and> file_ok s' (sin_din sin') \<and> free s' \<subseteq> free s \<and>
     fdata (bytes s') (sin_din sin') = overlay (fdata (bytes s) (sin_din sin)) off bs \<and>
     din_size (sin_din sin') = max (din_size (sin_din sin)) (off + length bs) \<and>
     din_blocks (sin_din sin') = max (din_blocks (sin_din sin)) ((off + length bs + 4095) div 4096) \<and>
     din_type (sin_din sin') = din_type (sin_din sin) \<and> sin_ino sin' = sin_ino sin \<and>
     (\<forall>x. x div 4096 \<notin> free s \<union> owned (bytes s) (sin_din sin) \<longrightarrow> bytes s' x = bytes s x)"

lemma sfs_io_write:
  assumes ok: "fs_ok s" "file_ok s (sin_din sin)" and ty: "din_type (sin_din sin) \<noteq> SFS_TYPE_DIR"
    and len: "0 < len" "len \<le> length buf" "off + len \<le> 1036 * 4096" and o: "off div 4096 \<le> din_blocks (sin_din sin)"
    and fr: "need (sin_din sin) ((off + len + 4095) div 4096) \<le> card (free s)"
  shows "\<exists>s' sin'. sfs_io_nolock s sin buf (int off) len True = Some (0, buf, len, s', sin') \<and> written s sin off (take len buf) s' sin'"
proof -
  let ?e = "off + len"
  have small: "?e < 2 ^ 31" "(?e + 4095) div 4096 \<le> 1036" using len(3) by simp_all
  have ep: "sint (word_of_int (int off + int len) :: u32) = int ?e" using endpos_small[OF small(1)] by simp
  have lt: "off < ?e" "?e - off \<le> length buf" using len by simp_all
  obtain s1 sin1 where b: "io_body s sin buf off ?e True = Some (0, buf, ?e - off, s1, sin1)" "upd s sin s1 sin1"
      "din_blocks (sin_din sin1) = max (din_blocks (sin_din sin)) ((?e + 4095) div 4096)"
      "fdata (bytes s1) (sin_din sin1) = overlay (fdata (bytes s) (sin_din sin)) off (take (?e - off) buf)"
    using io_body_write[OF ok lt(1) o refl small(2) fr lt(2)] by blast
  have d: "din_size (sin_din sin1) = din_size (sin_din sin)" "din_type (sin_din sin1) = din_type (sin_din sin)" "sin_ino sin1 = sin_ino sin"
    using b(2) by (simp_all add: upd_def same_meta_def)
  let ?sin2 = "if ?e > din_size (sin_din sin1) then set_size sin1 ?e else sin1"
  have "sfs_io_nolock s sin buf (int off) len True = map_option (io_out (int off)) (io_body s sin buf off ?e True)"
    using ty len ep by (simp add: sfs_io_nolock_def Let_def nat_add_distrib flip: of_nat_add)
  then have "sfs_io_nolock s sin buf (int off) len True = Some (0, buf, len, s1, ?sin2)" using b(1) by (simp add: io_out_def)
  moreover have "written s sin off (take len buf) s1 ?sin2"
    using b(2,3,4) d len(2) by (auto simp: written_def upd_def)
  ultimately show ?thesis by blast
qed

lemma sfs_io_read:
  assumes ok: "fs_ok s" "file_ok s (sin_din sin)" and ty: "din_type (sin_din sin) \<noteq> SFS_TYPE_DIR"
    and sz: "din_size (sin_din sin) \<le> din_blocks (sin_din sin) * 4096" and o: "off < din_size (sin_din sin)" "off + len < 2 ^ 31"
    and n: "n = min len (din_size (sin_din sin) - off)" "n \<le> length buf"
  shows "\<exists>s'. sfs_io_nolock s sin buf (int off) len False =
      Some (0, patch buf 0 (span (fdata (bytes s) (sin_din sin)) off n), n, s', sin) \<and> fs_step s (free s) (bytes s) s'"
proof -
  let ?e = "off + len" and ?z = "din_size (sin_din sin)"
  have ep: "sint (word_of_int (int off + int len) :: u32) = int ?e" using endpos_small[OF o(2)] by simp
  have z: "?z \<le> 1036 * 4096" using sz file_okD(2)[OF ok(2)] by linarith
  show ?thesis
  proof (cases "len = 0")
    case True
    then show ?thesis using ty ep o(1) z n(1) fs_step_refl[OF ok(1)] by (simp add: sfs_io_nolock_def Let_def)
  next
    case False
    have e: "off < off + n" "off + n \<le> din_blocks (sin_din sin) * 4096" "off + n - off \<le> length buf" using False o n sz by auto
    obtain s1 where b: "io_body s sin buf off (off + n) False =
          Some (0, patch buf 0 (span (fdata (bytes s) (sin_din sin)) off (off + n - off)), off + n - off, s1, sin)" "fs_step s (free s) (bytes s) s1"
      using io_body_read[OF ok e] by blast
    have en: "(if int ?z < (if int ?e > SFS_MAX_FILE_SIZE then SFS_MAX_FILE_SIZE else int ?e) then int ?z
        else (if int ?e > SFS_MAX_FILE_SIZE then SFS_MAX_FILE_SIZE else int ?e)) = int (off + n)"
      using n(1) o(1) z by (auto simp: min_def)
    have "sfs_io_nolock s sin buf (int off) len False = map_option (io_out (int off)) (io_body s sin buf off (off + n) False)"
      unfolding sfs_io_nolock_def Let_def ep using ty o(1) z False en by (simp add: nat_add_distrib)
    then show ?thesis using b n(1) o(1) by (auto simp: io_out_def)
  qed
qed

subsection \<open>Truncation\<close>

lemma trunc_grow_ok:
  assumes "fs_ok s" "file_ok s (sin_din sin)" "din_blocks (sin_din sin) + n \<le> 1036" "need (sin_din sin) (din_blocks (sin_din sin) + n) \<le> card (free s)"
  shows "\<exists>s' sin'. trunc_grow s sin (din_blocks (sin_din sin)) n = Some (0, s', sin') \<and> upd s sin s' sin' \<and>
    din_blocks (sin_din sin') = din_blocks (sin_din sin) + n \<and> fdata (bytes s') (sin_din sin') = fdata (bytes s) (sin_din sin)"
  using assms
proof (induction n arbitrary: s sin)
  case 0
  then show ?case using upd_refl by simp
next
  case (Suc n)
  let ?b = "din_blocks (sin_din sin)"
  have "?b < ?b + Suc n" by simp
  from bmap_load_ok[OF Suc.prems(1,2) le_refl this Suc.prems(3,4)] obtain b s1 sin1 where l:
      "sfs_bmap_load_nolock s sin ?b = Some (0, b, s1, sin1)" "upd s sin s1 sin1" "din_blocks (sin_din sin1) = Suc ?b"
      "fdata (bytes s1) (sin_din sin1) = fdata (bytes s) (sin_din sin)" "need (sin_din sin1) (?b + Suc n) \<le> card (free s1)" by auto
  have ok1: "fs_ok s1" "file_ok s1 (sin_din sin1)" using l(2) by (simp_all add: upd_def)
  from Suc.IH[OF ok1] obtain s2 sin2 where r: "trunc_grow s1 sin1 (Suc ?b) n = Some (0, s2, sin2)" "upd s1 sin1 s2 sin2"
      "din_blocks (sin_din sin2) = Suc ?b + n" "fdata (bytes s2) (sin_din sin2) = fdata (bytes s1) (sin_din sin1)"
    using Suc.prems(3) l(3,5) by auto
  then show ?case using l upd_trans[OF l(2) r(2)] by auto
qed

text \<open>Cutting off blocks: they become free, and the file is zero from there on.\<close>

definition cut :: "sfs_fs \<Rightarrow> sfs_inode \<Rightarrow> nat \<Rightarrow> sfs_fs \<Rightarrow> sfs_inode \<Rightarrow> bool" where
  "cut s sin k s' sin' \<longleftrightarrow> fs_ok s' \<and> frame s s' \<and> file_ok s' (sin_din sin') \<and> same_meta sin sin' \<and>
     din_blocks (sin_din sin') = k \<and> free s' = free s \<union> bmap (bytes s) (sin_din sin) ` {k..<din_blocks (sin_din sin)} \<and>
     (\<forall>i < k. bmap (bytes s') (sin_din sin') i = bmap (bytes s) (sin_din sin) i) \<and>
     din_indirect (sin_din sin') = din_indirect (sin_din sin) \<and>
     (\<forall>p. p div 4096 < k \<longrightarrow> fdata (bytes s') (sin_din sin') p = fdata (bytes s) (sin_din sin) p) \<and>
     (\<forall>x. din_indirect (sin_din sin) = 0 \<or> x div 4096 \<noteq> din_indirect (sin_din sin) \<longrightarrow> bytes s' x = bytes s x)"

lemma cut_file_ok:
  assumes ok: "file_ok s din" and k: "din_blocks din = Suc k" and d: "din_blocks din' = k" "length (din_direct din') = 12" "din_indirect din' = din_indirect din"
    and bm: "\<And>i. i < 1036 \<Longrightarrow> bmap (bytes s') din' i = (if i = k then 0 else bmap (bytes s) din i)"
    and fr: "free s' = insert (bmap (bytes s) din k) (free s)" and sb: "sb_blocks (super s') = sb_blocks (super s)"
  shows "file_ok s' din'"
proof -
  have k36: "k < 1036" using file_okD(2)[OF ok] k by simp
  have bm': "bmap (bytes s') din' i = bmap (bytes s) din i" if "i < k" for i using bm[of i] that k36 by simp
  have db: "data_blocks (bytes s') din' = bmap (bytes s) din ` {..<k}" using bm' d(1) by (auto simp: data_blocks_def image_iff)
  then have sub: "data_blocks (bytes s') din' \<subseteq> data_blocks (bytes s) din" using k by (auto simp: data_blocks_def)
  have ow: "owned (bytes s') din' \<subseteq> owned (bytes s) din" using sub d(3) by (auto simp: owned_def)
  have nk: "bmap (bytes s) din k \<notin> owned (bytes s') din'"
  proof
    assume "bmap (bytes s) din k \<in> owned (bytes s') din'"
    then consider i where "i < k" "bmap (bytes s) din k = bmap (bytes s) din i" | "din_indirect din \<noteq> 0" "bmap (bytes s) din k = din_indirect din"
      using db d(3) by (auto simp: owned_def split: if_splits)
    then show False
    proof cases
      case (1 i)
      then show ?thesis using file_okD(6)[OF ok, of k i] k by simp
    next
      case 2
      then show ?thesis using file_okD(5)[OF ok, of k] k by simp
    qed
  qed
  have "inj_on (bmap (bytes s') din') {..<k}" using file_okD(6)[OF ok] bm' k by (auto simp: inj_on_def)
  moreover have "bmap (bytes s') din' i = 0" if "k \<le> i" "i < 1036" for i using bm[OF that(2)] that file_okD(7)[OF ok, of i] k by auto
  moreover have "blk_ok s' b = blk_ok s b" for b using sb by (simp add: blk_ok_def)
  ultimately show ?thesis using ok ow nk fr sub d k36 unfolding file_ok_def by auto
qed

definition freed :: "sfs_fs \<Rightarrow> sfs_inode \<Rightarrow> nat \<Rightarrow> sfs_fs \<Rightarrow> sfs_inode \<Rightarrow> bool" where
  "freed s sin k s' sin1 \<longleftrightarrow> fs_ok s' \<and> frame s s' \<and> free s' = insert (bmap (bytes s) (sin_din sin) k) (free s) \<and>
    same_meta sin sin1 \<and> din_blocks (sin_din sin1) = Suc k \<and> length (din_direct (sin_din sin1)) = 12 \<and>
    din_indirect (sin_din sin1) = din_indirect (sin_din sin) \<and>
    (\<forall>i < 1036. bmap (bytes s') (sin_din sin1) i = (if i = k then 0 else bmap (bytes s) (sin_din sin) i)) \<and>
    (\<forall>x. din_indirect (sin_din sin) = 0 \<or> x div 4096 \<noteq> din_indirect (sin_din sin) \<longrightarrow> bytes s' x = bytes s x)"

lemma bmap_free_direct:
  assumes ok: "fs_ok s" "file_ok s (sin_din sin)" and k: "din_blocks (sin_din sin) = Suc k" and True: "k < 12"
  shows "\<exists>s' sin1. sfs_bmap_free_nolock s sin k = Some (0, s', sin1) \<and> freed s sin k s' sin1"
proof -
  let ?d = "sin_din sin" and ?b = "bmap (bytes s) (sin_din sin) k" and ?e = "din_indirect (sin_din sin)"
  have b: "blk_ok s ?b" "?b \<notin> free s" "?b \<noteq> 0" using file_okD(3)[OF ok(2), of k] k by (auto simp: blk_ok_def)
  have bd: "?b = din_direct ?d ! k" using True by (simp add: bmap_def)
  obtain s' where s': "sfs_block_free s ?b = Some s'" "fs_step s (insert ?b (free s)) (bytes s) s'"
    using sfs_block_free_ok[OF ok(1) b(1,2)] by blast
  let ?sin = "set_direct sin k 0"
  have "bmap (bytes s) (sin_din ?sin) i = (if i = k then 0 else bmap (bytes s) ?d i)" for i
    using True file_okD(1)[OF ok(2)] by (simp add: bmap_def nth_list_update)
  moreover have "sfs_bmap_free_nolock s sin k = Some (0, s', ?sin)"
    using True bd b(3) s'(1) by (simp add: sfs_bmap_free_nolock_def)
  ultimately show ?thesis using s'(2) k file_okD(1)[OF ok(2)] by (auto simp: freed_def fs_step_def same_meta_def)
qed

lemma bmap_free_indirect:
  assumes ok: "fs_ok s" "file_ok s (sin_din sin)" and k: "din_blocks (sin_din sin) = Suc k" and False: "\<not> k < 12"
  shows "\<exists>s' sin1. sfs_bmap_free_nolock s sin k = Some (0, s', sin1) \<and> freed s sin k s' sin1"
proof -
  let ?d = "sin_din sin" and ?b = "bmap (bytes s) (sin_din sin) k" and ?e = "din_indirect (sin_din sin)"
  have b: "blk_ok s ?b" "?b \<notin> free s" "?b \<noteq> 0" using file_okD(3)[OF ok(2), of k] k by (auto simp: blk_ok_def)
  have k36: "k < 1036" using file_okD(2)[OF ok(2)] k by simp
  have lt: "k - 12 < 1024" using k36 False by simp
  have e: "?e \<noteq> 0" using file_ok_indirect[OF ok(2)] k False by simp
  have be: "?b = ent_at (bytes s) ?e (k - 12)" using False e by (simp add: bmap_def)
  have eb: "blk_ok s ?e" "?e \<notin> free s" using file_okD(4)[OF ok(2) e] by auto
  obtain b0 s1 where s1: "sfs_rbuf s (le_bytes 4 0) 4 ?e ((k - 12) * 4) = Some (0, b0, s1)" "le_nat b0 = ?b" "fs_step s (free s) (bytes s) s1"
    using rbuf_entry[OF ok(1) eb(1) lt] be by auto
  have f1: "fs_ok s1" "blk_ok s1 ?e" "free s1 = free s" "bytes s1 = bytes s" using s1(3) eb blk_ok_step[OF s1(3)] by (auto simp: fs_step_def)
  obtain s2 where s2: "sfs_wbuf s1 (le_bytes 4 0) 4 ?e ((k - 12) * 4) = Some (0, s2)"
      "fs_step s1 (free s) (overlay (bytes s) (?e * 4096 + (k - 12) * 4) (le_bytes 4 0)) s2"
    using sfs_wbuf_ok[OF f1(1,2), of "(k - 12) * 4" 4 "le_bytes 4 0"] lt f1(3,4) by auto
  have b2: "blk_ok s2 ?b" "?b \<notin> free s2" using b blk_ok_step[OF s1(3)] blk_ok_step[OF s2(2)] s2(2) by (auto simp: fs_step_def)
  obtain s3 where s3: "sfs_block_free s2 ?b = Some s3" "fs_step s2 (insert ?b (free s2)) (bytes s2) s3"
    using sfs_block_free_ok[OF fs_step_ok[OF s2(2)] b2] by blast
  have st: "fs_step s (insert ?b (free s)) (overlay (bytes s) (?e * 4096 + (k - 12) * 4) (le_bytes 4 0)) s3"
    using fs_step_trans[OF fs_step_trans[OF s1(3) s2(2)] s3(2)] s2(2) by (simp add: fs_step_def)
  have m: "bytes s3 x = bytes s x" if "x div 4096 \<noteq> ?e" for x
    using st that overlay_inside[of "(k - 12) * 4" "le_bytes 4 0" x ?e] lt by (simp add: fs_step_def)
  have "ent_at (bytes s3) ?e i = (if i = k - 12 then 0 else ent_at (bytes s) ?e i)" for i
    using st ent_at_overlay[of 0 "bytes s" ?e "k - 12" i] by (simp add: fs_step_def)
  then have "bmap (bytes s3) ?d i = (if i = k then 0 else bmap (bytes s) ?d i)" for i
    using False e by (auto simp: bmap_def)
  moreover have "sfs_bmap_free_nolock s sin k = Some (0, s3, sin)"
    using False lt e sfs_block_inuse_ok[OF ok(1) eb(1)] eb(2) s1 s2(1) s3(1) b(3)
    by (simp add: sfs_bmap_free_nolock_def sfs_bmap_free_sub_nolock_def)
  ultimately show ?thesis using st m k e file_okD(1)[OF ok(2)] by (auto simp: freed_def fs_step_def)
qed

lemma bmap_truncate_ok:
  assumes ok: "fs_ok s" "file_ok s (sin_din sin)" and k: "din_blocks (sin_din sin) = Suc k"
  shows "\<exists>s' sin'. sfs_bmap_truncate_nolock s sin = Some (0, s', sin') \<and> cut s sin k s' sin'"
proof -
  let ?d = "sin_din sin" and ?b = "bmap (bytes s) (sin_din sin) k" and ?e = "din_indirect (sin_din sin)"
  have k36: "k < 1036" using file_okD(2)[OF ok(2)] k by simp
  have "\<exists>s' sin1. sfs_bmap_free_nolock s sin k = Some (0, s', sin1) \<and> freed s sin k s' sin1"
    using bmap_free_direct[OF ok k] bmap_free_indirect[OF ok k] by blast
  then obtain s' sin1 where f: "sfs_bmap_free_nolock s sin k = Some (0, s', sin1)" "fs_ok s'" "frame s s'" "free s' = insert ?b (free s)"
    "same_meta sin sin1" "din_blocks (sin_din sin1) = Suc k" "length (din_direct (sin_din sin1)) = 12" "din_indirect (sin_din sin1) = ?e"
    "\<forall>i < 1036. bmap (bytes s') (sin_din sin1) i = (if i = k then 0 else bmap (bytes s) ?d i)"
    "\<forall>x. ?e = 0 \<or> x div 4096 \<noteq> ?e \<longrightarrow> bytes s' x = bytes s x" unfolding freed_def by blast
  let ?sin2 = "(set_blocks sin1 k)\<lparr>sin_dirty := True\<rparr>"
  have bm: "bmap (bytes s') (sin_din ?sin2) i = (if i = k then 0 else bmap (bytes s) ?d i)" if "i < 1036" for i
    using f(9) that by (simp add: bmap_set_blocks)
  have "file_ok s' (sin_din ?sin2)"
    using cut_file_ok[OF ok(2) k, of "sin_din ?sin2" s'] f bm by (simp add: frame_def)
  moreover have "fdata (bytes s') (sin_din ?sin2) p = fdata (bytes s) ?d p" if p: "p div 4096 < k" for p
  proof -
    let ?c = "bmap (bytes s) ?d (p div 4096)"
    have "?e = 0 \<or> ?c \<noteq> ?e" using file_okD(5)[OF ok(2), of "p div 4096"] p k by auto
    then have "bytes s' (?c * 4096 + p mod 4096) = bytes s (?c * 4096 + p mod 4096)" using f(10) by (elim disjE) simp_all
    then show ?thesis using p k bm[of "p div 4096"] k36 by (simp add: fdata_def)
  qed
  moreover have "{k..<din_blocks ?d} = {k}" using k by auto
  ultimately have "cut s sin k s' ?sin2" using f k bm k36 by (simp add: cut_def same_meta_def)
  moreover have "sfs_bmap_truncate_nolock s sin = Some (0, s', ?sin2)" using k f(1,6) by (simp add: sfs_bmap_truncate_nolock_def)
  ultimately show ?thesis by blast
qed

lemma cut_trans:
  assumes c: "cut s sin k s1 sin1" "cut s1 sin1 j s2 sin2" and j: "j \<le> k" "k \<le> din_blocks (sin_din sin)"
  shows "cut s sin j s2 sin2"
proof -
  have bm: "bmap (bytes s1) (sin_din sin1) i = bmap (bytes s) (sin_din sin) i" if "i < k" for i using c(1) that by (simp add: cut_def)
  have "bmap (bytes s1) (sin_din sin1) ` {j..<k} = bmap (bytes s) (sin_din sin) ` {j..<k}" using bm by (intro image_cong) auto
  moreover have "{j..<din_blocks (sin_din sin)} = {j..<k} \<union> {k..<din_blocks (sin_din sin)}" using j by auto
  ultimately have "free s2 = free s \<union> bmap (bytes s) (sin_din sin) ` {j..<din_blocks (sin_din sin)}"
    using c by (auto simp: cut_def image_Un)
  then show ?thesis using c j bm unfolding cut_def by (auto simp: same_meta_def intro: frame_trans)
qed

lemma trunc_shrink_ok:
  assumes "fs_ok s" "file_ok s (sin_din sin)" "n \<le> din_blocks (sin_din sin)"
  shows "\<exists>s' sin'. trunc_shrink s sin n = Some (0, s', sin') \<and> cut s sin (din_blocks (sin_din sin) - n) s' sin'"
  using assms
proof (induction n arbitrary: s sin)
  case 0
  then show ?case by (simp add: cut_def)
next
  case (Suc n)
  obtain k where k: "din_blocks (sin_din sin) = Suc k" using Suc.prems(3) by (cases "din_blocks (sin_din sin)") auto
  obtain s1 sin1 where t: "sfs_bmap_truncate_nolock s sin = Some (0, s1, sin1)" "cut s sin k s1 sin1"
    using bmap_truncate_ok[OF Suc.prems(1,2) k] by blast
  have ok1: "fs_ok s1" "file_ok s1 (sin_din sin1)" "din_blocks (sin_din sin1) = k" using t(2) by (simp_all add: cut_def)
  obtain s2 sin2 where r: "trunc_shrink s1 sin1 n = Some (0, s2, sin2)" "cut s1 sin1 (k - n) s2 sin2"
    using Suc.IH[OF ok1(1,2)] ok1(3) Suc.prems(3) k by auto
  then show ?case using t k cut_trans[OF t(2) r(2)] by simp
qed

lemma sfs_truncfile_shrink:
  assumes ok: "fs_ok s" "file_ok s (sin_din sin)" and t: "t = (n + 4095) div 4096" "t \<le> din_blocks (sin_din sin)"
    and n: "n \<noteq> din_size (sin_din sin)" "n \<le> 1036 * 4096"
  shows "\<exists>s' sin1. sfs_truncfile s sin (int n) = Some (0, s', set_size sin1 n) \<and> cut s sin t s' sin1"
proof (cases "t = din_blocks (sin_din sin)")
  case True
  then have "cut s sin t s sin" using ok by (simp add: cut_def)
  then show ?thesis using True t n by (auto simp: sfs_truncfile_def Let_def intro!: exI[of _ s] exI[of _ sin])
next
  case False
  then have lt: "t < din_blocks (sin_din sin)" using t(2) by simp
  obtain s' sin1 where r: "trunc_shrink s sin (din_blocks (sin_din sin) - t) = Some (0, s', sin1)" "cut s sin t s' sin1"
    using trunc_shrink_ok[OF ok, of "din_blocks (sin_din sin) - t"] lt by auto
  moreover have "din_blocks (sin_din sin1) = t" using r(2) by (simp add: cut_def)
  ultimately show ?thesis using lt n unfolding t(1) by (auto simp: sfs_truncfile_def Let_def)
qed

lemma sfs_truncfile_grow:
  assumes ok: "fs_ok s" "file_ok s (sin_din sin)" and t: "t = (n + 4095) div 4096" "din_blocks (sin_din sin) < t"
    and n: "n \<noteq> din_size (sin_din sin)" "n \<le> 1036 * 4096" and fr: "need (sin_din sin) t \<le> card (free s)"
  shows "\<exists>s' sin1. sfs_truncfile s sin (int n) = Some (0, s', set_size sin1 n) \<and> upd s sin s' sin1 \<and>
    din_blocks (sin_din sin1) = t \<and> fdata (bytes s') (sin_din sin1) = fdata (bytes s) (sin_din sin)"
proof -
  have t36: "t \<le> 1036" using n(2) t(1) by simp
  obtain s' sin1 where r: "trunc_grow s sin (din_blocks (sin_din sin)) (t - din_blocks (sin_din sin)) = Some (0, s', sin1)" "upd s sin s' sin1"
      "din_blocks (sin_din sin1) = t" "fdata (bytes s') (sin_din sin1) = fdata (bytes s) (sin_din sin)"
    using trunc_grow_ok[OF ok, of "t - din_blocks (sin_din sin)"] t(2) t36 fr by auto
  then show ?thesis using n t(2) unfolding t(1) by (auto simp: sfs_truncfile_def Let_def)
qed

lemma bmap_load_bound: "12 + 1024 \<le> i \<Longrightarrow> sfs_bmap_load_nolock s sin i = None"
  by (simp add: sfs_bmap_load_nolock_def bmap_get_bound)

lemma trunc_grow_bound: "1036 < n + k \<Longrightarrow> 0 < k \<Longrightarrow> trunc_grow s sin n k \<noteq> Some (0, s', sin')"
proof (induction k arbitrary: s sin n)
  case (Suc k)
  show ?case
  proof (cases "1036 \<le> n")
    case True
    then show ?thesis using bmap_load_bound[of n] by simp
  next
    case False
    then have "1036 < Suc n + k" "0 < k" using Suc.prems by auto
    then show ?thesis using Suc.IH[of "Suc n"] by (auto simp: bind_eq_Some_conv)
  qed
qed simp

subsection \<open>The contract of files\<close>

text \<open>
  C32. Writing to a file of the simple file system, within its block map and with enough free blocks,
  succeeds: the contents become the old ones with the buffer laid over them, the size and the number
  of blocks grow as needed, the invariants of volume and file hold again, and no block changes that
  was neither free nor the file's own.
\<close>

theorem sfs_write_overlays:
  assumes "fs_ok s" "file_ok s (sin_din sin)" "din_type (sin_din sin) \<noteq> SFS_TYPE_DIR"
    and "0 < len" "len \<le> length buf" "off + len \<le> (12 + 1024) * 4096" "off div 4096 \<le> din_blocks (sin_din sin)"
    and "need (sin_din sin) ((off + len + 4095) div 4096) \<le> card (free s)"
  shows "\<exists>s' sin'. sfs_io_nolock s sin buf (int off) len True = Some (0, buf, len, s', sin') \<and>
    fs_ok s' \<and> file_ok s' (sin_din sin') \<and> free s' \<subseteq> free s \<and>
    fdata (bytes s') (sin_din sin') = overlay (fdata (bytes s) (sin_din sin)) off (take len buf) \<and>
    din_size (sin_din sin') = max (din_size (sin_din sin)) (off + len) \<and>
    din_blocks (sin_din sin') = max (din_blocks (sin_din sin)) ((off + len + 4095) div 4096) \<and>
    (\<forall>x. x div 4096 \<notin> free s \<union> owned (bytes s) (sin_din sin) \<longrightarrow> bytes s' x = bytes s x)"
proof -
  have "off + len \<le> 1036 * 4096" "length (take len buf) = len" using assms(5,6) by simp_all
  then show ?thesis using sfs_io_write[OF assms(1-5) _ assms(7,8)] unfolding written_def by metis
qed

text \<open>
  C33. What was written to a file is read back, whatever the split of the range into partial and whole
  blocks and whichever of them had to be allocated.
\<close>

theorem sfs_write_read_roundtrip:
  assumes "fs_ok s" "file_ok s (sin_din sin)" "din_type (sin_din sin) \<noteq> SFS_TYPE_DIR" "din_size (sin_din sin) \<le> din_blocks (sin_din sin) * 4096"
    and "0 < len" "len \<le> length buf" "len \<le> length buf2" "off + len \<le> (12 + 1024) * 4096" "off div 4096 \<le> din_blocks (sin_din sin)"
    and "need (sin_din sin) ((off + len + 4095) div 4096) \<le> card (free s)"
  shows "\<exists>s1 sin1 s2. sfs_io_nolock s sin buf (int off) len True = Some (0, buf, len, s1, sin1) \<and>
    sfs_io_nolock s1 sin1 buf2 (int off) len False = Some (0, take len buf @ drop len buf2, len, s2, sin1)"
proof -
  have le: "off + len \<le> 1036 * 4096" using assms(8) by simp
  obtain s1 sin1 where w: "sfs_io_nolock s sin buf (int off) len True = Some (0, buf, len, s1, sin1)" "written s sin off (take len buf) s1 sin1"
    using sfs_io_write[OF assms(1-3,5,6) le assms(9,10)] by blast
  let ?z = "din_size (sin_din sin1)"
  have l: "length (take len buf) = len" using assms(6) by simp
  have z: "?z = max (din_size (sin_din sin)) (off + len)" "fs_ok s1" "file_ok s1 (sin_din sin1)" "din_type (sin_din sin1) \<noteq> SFS_TYPE_DIR"
    "fdata (bytes s1) (sin_din sin1) = overlay (fdata (bytes s) (sin_din sin)) off (take len buf)"
    "din_blocks (sin_din sin1) = max (din_blocks (sin_din sin)) ((off + len + 4095) div 4096)"
    using w(2) l assms(3) by (simp_all add: written_def)
  have "off + len \<le> (off + len + 4095) div 4096 * 4096" by linarith
  then have zb: "?z \<le> din_blocks (sin_din sin1) * 4096" using assms(4) z(1,6) by (auto simp: max_mult_distrib_right)
  have "off < ?z" "off + len < 2 ^ 31" "len = min len (?z - off)" using z(1) assms(5) le by auto
  from sfs_io_read[OF z(2,3,4) zb this assms(7)] obtain s2 where
    "sfs_io_nolock s1 sin1 buf2 (int off) len False = Some (0, patch buf2 0 (span (fdata (bytes s1) (sin_din sin1)) off len), len, s2, sin1)" by blast
  moreover have "patch buf2 0 (span (fdata (bytes s1) (sin_din sin1)) off len) = take len buf @ drop len buf2"
    using l by (simp add: z(5) patch_def)
  ultimately show ?thesis using w(1) by auto
qed

text \<open>
  C34. Resizing a file: a shorter length gives the blocks behind it back, exactly those, and keeps the
  contents before; a longer one adds zero blocks; both set the size, and a length outside the
  admitted range is refused without effect.
\<close>

theorem sfs_truncfile_resizes:
  assumes "fs_ok s" "file_ok s (sin_din sin)" "n \<noteq> din_size (sin_din sin)" "n \<le> (12 + 1024) * 4096"
    and "t = (n + 4095) div 4096" and "din_blocks (sin_din sin) < t \<Longrightarrow> need (sin_din sin) t \<le> card (free s)"
  shows "(\<exists>s' sin'. sfs_truncfile s sin (int n) = Some (0, s', sin') \<and> fs_ok s' \<and> file_ok s' (sin_din sin') \<and>
      din_size (sin_din sin') = n \<and> din_blocks (sin_din sin') = t \<and>
      (t \<le> din_blocks (sin_din sin) \<longrightarrow> free s' = free s \<union> bmap (bytes s) (sin_din sin) ` {t..<din_blocks (sin_din sin)}) \<and>
      (\<forall>p. p div 4096 < t \<longrightarrow> fdata (bytes s') (sin_din sin') p = fdata (bytes s) (sin_din sin) p)) \<and>
    (\<forall>len. len < 0 \<or> len > SFS_MAX_FILE_SIZE \<longrightarrow> sfs_truncfile s sin len = Some (- E_INVAL, s, sin))"
proof (intro conjI allI impI)
  have n: "n \<le> 1036 * 4096" using assms(4) by simp
  show "\<exists>s' sin'. sfs_truncfile s sin (int n) = Some (0, s', sin') \<and> fs_ok s' \<and> file_ok s' (sin_din sin') \<and>
      din_size (sin_din sin') = n \<and> din_blocks (sin_din sin') = t \<and>
      (t \<le> din_blocks (sin_din sin) \<longrightarrow> free s' = free s \<union> bmap (bytes s) (sin_din sin) ` {t..<din_blocks (sin_din sin)}) \<and>
      (\<forall>p. p div 4096 < t \<longrightarrow> fdata (bytes s') (sin_din sin') p = fdata (bytes s) (sin_din sin) p)"
  proof (cases "t \<le> din_blocks (sin_din sin)")
    case True
    obtain s' sin1 where "sfs_truncfile s sin (int n) = Some (0, s', set_size sin1 n)" "cut s sin t s' sin1"
      using sfs_truncfile_shrink[OF assms(1,2,5) True assms(3) n] by blast
    then show ?thesis by (intro exI[of _ s'] exI[of _ "set_size sin1 n"]) (simp add: cut_def)
  next
    case False
    then obtain s' sin1 where "sfs_truncfile s sin (int n) = Some (0, s', set_size sin1 n)" "upd s sin s' sin1"
        "din_blocks (sin_din sin1) = t" "fdata (bytes s') (sin_din sin1) = fdata (bytes s) (sin_din sin)"
      using sfs_truncfile_grow[OF assms(1,2,5) _ assms(3) n] assms(6) by auto
    then show ?thesis using False by (intro exI[of _ s'] exI[of _ "set_size sin1 n"]) (simp add: upd_def)
  qed
qed (simp add: sfs_truncfile_def)

lemma sfs_truncfile_bound:
  assumes "din_blocks (sin_din sin) \<le> 12 + 1024" "(12 + 1024) * 4096 < n" "int n \<le> SFS_MAX_FILE_SIZE" "n \<noteq> din_size (sin_din sin)"
  shows "sfs_truncfile s sin (int n) \<noteq> Some (0, s', sin')"
proof -
  note n = assms(2-4)
  have t: "1036 < (n + 4095) div 4096" using n(1) by simp
  then have "trunc_grow s sin (din_blocks (sin_din sin)) ((n + 4095) div 4096 - din_blocks (sin_din sin)) \<noteq> Some (0, a, b)" for a b
    using assms(1) by (intro trunc_grow_bound) auto
  then show "sfs_truncfile s sin (int n) \<noteq> Some (0, s', sin')" using n t assms(1) by (auto simp: sfs_truncfile_def Let_def bind_eq_Some_conv)
qed

lemma sfs_io_bound:
  assumes "din_type (sin_din sin) \<noteq> SFS_TYPE_DIR" "(12 + 1024) * 4096 \<le> off" "int off < SFS_MAX_FILE_SIZE" "0 < len" "off + len < 2 ^ 31"
  shows "sfs_io_nolock s sin buf (int off) len True = None"
proof -
  note o = assms(2-5)
  have ep: "sint (word_of_int (int off + int len) :: u32) = int (off + len)" using endpos_small[OF o(4)] by simp
  have pc: "io_piece s sin b al i z f w wr = None" if "1036 \<le> i" for s sin b al i z f w wr
    using bmap_load_bound[of i] that by (simp add: io_piece_def)
  have od: "1036 \<le> off div 4096" using o(1) by simp
  have bd: "io_body s sin buf off e True = None" if e: "off < e" for e
  proof (cases "off mod 4096 = 0")
    case False
    then show ?thesis using pc[OF od] by (simp add: io_body_def Let_def)
  next
    case True
    have "e mod 4096 \<noteq> 0" if "e div 4096 - off div 4096 = 0"
      using that e True div_mult_mod_eq[of e 4096] div_mult_mod_eq[of off 4096] by linarith
    then have "io_rest s sin buf 0 (off div 4096) (e div 4096 - off div 4096) (e mod 4096) True = None"
      using pc od by (cases "e div 4096 - off div 4096") (auto simp: io_rest_def)
    then show ?thesis using True by (simp add: io_body_def Let_def)
  qed
  show "sfs_io_nolock s sin buf (int off) len True = None"
    unfolding sfs_io_nolock_def Let_def ep using assms(1) o bd by simp
qed


subsection \<open>A small volume\<close>

text \<open>A volume of 64 blocks on a blank disk, of which the first three are in use, and an empty file on it.\<close>

definition small_sfs :: sfs_fs where
  "small_sfs = \<lparr>super = \<lparr>sb_magic = SFS_MAGIC, sb_blocks = 64, sb_unused = 61, sb_info = replicate 32 0\<rparr>,
     sdev = blank_disk0 64, freemap = \<lparr>nbits = 64, nwords = 2, bwords = [NOT 7, NOT 0]\<rparr>,
     super_dirty = False, sfs_buffer = replicate 4096 0,
     inodes = (\<lambda>_. \<lparr>sin_din = \<lparr>din_size = 0, din_type = 0, din_nlinks = 0, din_blocks = 0, din_direct = replicate 12 0, din_indirect = 0\<rparr>,
       sin_ino = 0, sin_dirty = False, sin_reclaim = 0, sin_ref = 0, sin_open = 0\<rparr>), inode_list = [], hash_list = (\<lambda>_. [])\<rparr>"

definition empty_file :: sfs_inode where
  "empty_file = \<lparr>sin_din = \<lparr>din_size = 0, din_type = SFS_TYPE_FILE, din_nlinks = 1, din_blocks = 0, din_direct = replicate 12 0, din_indirect = 0\<rparr>,
     sin_ino = 2, sin_dirty = False, sin_reclaim = 1, sin_ref = 1, sin_open = 0\<rparr>"

lemma small_sfs_free: "free small_sfs = {3..<64}"
proof -
  have b7: "bit (NOT 7 :: u32) k \<longleftrightarrow> k < 32 \<and> 3 \<le> k" for k
  proof -
    have "(7 :: u32) = mask 3" by (simp add: mask_eq_exp_minus_1)
    then show ?thesis by (simp only: bit_simps) auto
  qed
  have "i \<in> free small_sfs \<longleftrightarrow> i \<in> {3..<64}" for i
  proof (cases "i < 32")
    case True
    then show ?thesis using b7[of i] by (simp add: free_def free_bits_def small_sfs_def)
  next
    case False
    then have "i < 64 \<Longrightarrow> i div 32 = 1" by simp
    then show ?thesis using False by (auto simp: free_def free_bits_def small_sfs_def bit_simps)
  qed
  then show ?thesis by blast
qed

lemma small_sfs_ok: "fs_ok small_sfs"
proof -
  have "bitmap_inv (freemap small_sfs)" using small_sfs_free by (simp add: bitmap_inv_def free_def) (auto simp: small_sfs_def)
  then show ?thesis using small_sfs_free blank_disk0_ok[of 64]
    by (auto simp: fs_ok_def) (simp_all add: small_sfs_def blank_disk0_def)
qed

lemma empty_file_ok: "file_ok s (sin_din empty_file)"
  by (simp add: file_ok_def empty_file_def owned_def data_blocks_def bmap_def)

lemma empty_file_views [simp]:
  "din_type (sin_din empty_file) = 1" "din_blocks (sin_din empty_file) = 0" "din_size (sin_din empty_file) = 0" "din_indirect (sin_din empty_file) = 0"
  by (simp_all add: empty_file_def sfs_types)

theorem sfs_write_overlays_witness:
  "\<exists>s' sin'. sfs_io_nolock small_sfs empty_file (replicate 10000 7) 0 10000 True = Some (0, replicate 10000 7, 10000, s', sin') \<and>
     fs_ok s' \<and> file_ok s' (sin_din sin') \<and> din_size (sin_din sin') = 10000 \<and> din_blocks (sin_din sin') = 3"
  using sfs_write_overlays[OF small_sfs_ok empty_file_ok, of 10000 "replicate 10000 7" 0]
  by (auto simp: sfs_types need_def small_sfs_free)

theorem sfs_write_read_roundtrip_witness:
  "\<exists>s1 sin1 s2. sfs_io_nolock small_sfs empty_file (replicate 10000 7) 0 10000 True = Some (0, replicate 10000 7, 10000, s1, sin1) \<and>
     sfs_io_nolock s1 sin1 (replicate 10000 0) 0 10000 False = Some (0, replicate 10000 7, 10000, s2, sin1)"
  using sfs_write_read_roundtrip[OF small_sfs_ok empty_file_ok, of 10000 "replicate 10000 7" "replicate 10000 0" 0]
  by (auto simp: sfs_types need_def small_sfs_free)

theorem sfs_truncfile_resizes_witness:
  "\<exists>s' sin'. sfs_truncfile small_sfs empty_file 5000 = Some (0, s', sin') \<and> fs_ok s' \<and> file_ok s' (sin_din sin') \<and>
     din_size (sin_din sin') = 5000 \<and> din_blocks (sin_din sin') = 2"
  using sfs_truncfile_resizes[OF small_sfs_ok empty_file_ok, of 5000 2] by (auto simp: need_def small_sfs_free)


end
