(* ===== verification/Kstring.thy ===== *)
theory Kstring
  imports Disk
begin

text \<open>
  The string and memory routines of \<^verbatim>\<open>libs/string.c\<close>, in the portable C version and, where
  \<^verbatim>\<open>libs/x86.h\<close> has one, in the assembly version that is compiled instead.

  A pointer to a string that is only read is the list of bytes from there to the end of the object:
  running off the list is \<open>None\<close>. Routines that write take the memory as a function from addresses
  to bytes, so that source and destination may overlap.
\<close>

type_synonym memory = "nat \<Rightarrow> u8"

subsection \<open>Strings that are read\<close>

fun strlen :: "u8 list \<Rightarrow> nat option" where
  "strlen [] = None"
| "strlen (c # s) = (if c \<noteq> 0 then map_option Suc (strlen s) else Some 0)"

fun strnlen :: "u8 list \<Rightarrow> nat \<Rightarrow> nat option" where
  "strnlen s 0 = Some 0"
| "strnlen [] (Suc n) = None"
| "strnlen (c # s) (Suc n) = (if c \<noteq> 0 then map_option Suc (strnlen s n) else Some 0)"

fun strcmp_c :: "u8 list \<Rightarrow> u8 list \<Rightarrow> int option" where
  "strcmp_c (a # s) (b # t) = (if a \<noteq> 0 \<and> a = b then strcmp_c s t else Some (uint a - uint b))"
| "strcmp_c _ _ = None"

text \<open>
  \<^verbatim>\<open>__strcmp\<close>: \<^verbatim>\<open>lodsb; scasb\<close> compare the bytes and set the carry flag when the first is below the second;
  \<^verbatim>\<open>sbbl; orb\<close> turn the carry flag into -1 or 1.
\<close>

fun arch_strcmp :: "u8 list \<Rightarrow> u8 list \<Rightarrow> int option" where
  "arch_strcmp (a # s) (b # t) =
     (if a \<noteq> b then Some (if a < b then -1 else 1) else if a \<noteq> 0 then arch_strcmp s t else Some 0)"
| "arch_strcmp _ _ = None"

fun strncmp :: "u8 list \<Rightarrow> u8 list \<Rightarrow> nat \<Rightarrow> int option" where
  "strncmp s t 0 = Some 0"
| "strncmp (a # s) (b # t) (Suc n) = (if a \<noteq> 0 \<and> a = b then strncmp s t n else Some (uint a - uint b))"
| "strncmp _ _ (Suc n) = None"

text \<open>A found position is the rest of the string from there.\<close>

fun strchr :: "u8 list \<Rightarrow> u8 \<Rightarrow> u8 list option option" where
  "strchr [] c = None"
| "strchr (a # s) c = (if a = 0 then Some None else if a = c then Some (Some (a # s)) else strchr s c)"

fun strfind :: "u8 list \<Rightarrow> u8 \<Rightarrow> u8 list option" where
  "strfind [] c = None"
| "strfind (a # s) c = (if a = 0 \<or> a = c then Some (a # s) else strfind s c)"

fun memcmp :: "u8 list \<Rightarrow> u8 list \<Rightarrow> nat \<Rightarrow> int option" where
  "memcmp s t 0 = Some 0"
| "memcmp (a # s) (b # t) (Suc n) = (if a \<noteq> b then Some (uint a - uint b) else memcmp s t n)"
| "memcmp _ _ (Suc n) = None"

subsection \<open>strtol\<close>

text \<open>Characters are \<^verbatim>\<open>char\<close>, signed: a byte above 127 is below every digit and letter.\<close>

definition digit_of :: "u8 \<Rightarrow> nat option" where
  "digit_of c =
     (if 48 \<le> c \<and> c \<le> 57 then Some (unat c - 48)
      else if 97 \<le> c \<and> c \<le> 122 then Some (unat c - 97 + 10)
      else if 65 \<le> c \<and> c \<le> 90 then Some (unat c - 65 + 10)
      else None)"

fun strtol_digits :: "u8 list \<Rightarrow> nat \<Rightarrow> u32 \<Rightarrow> (u32 \<times> u8 list) option" where
  "strtol_digits [] base val = None"
| "strtol_digits (c # s) base val =
     (case digit_of c of
        None \<Rightarrow> Some (val, c # s)
      | Some dig \<Rightarrow>
          if dig \<ge> base then Some (val, c # s)
          else strtol_digits s base (val * word_of_nat base + word_of_nat dig))"

fun skip_blanks :: "u8 list \<Rightarrow> u8 list option" where
  "skip_blanks [] = None"
| "skip_blanks (c # s) = (if c = 32 \<or> c = 9 then skip_blanks s else Some (c # s))"

definition strtol_sign :: "u8 list \<Rightarrow> bool \<times> u8 list" where
  "strtol_sign s = (case s of [] \<Rightarrow> (False, s) | c # t \<Rightarrow> if c = 43 then (False, t) else if c = 45 then (True, t) else (False, s))"

definition strtol_prefix :: "u8 list \<Rightarrow> nat \<Rightarrow> nat \<times> u8 list" where
  "strtol_prefix s base =
     (case s of
        c # d # t \<Rightarrow>
          if (base = 0 \<or> base = 16) \<and> c = 48 \<and> d = 120 then (16, t)
          else if base = 0 \<and> c = 48 then (8, d # t)
          else if base = 0 then (10, s) else (base, s)
      | [c] \<Rightarrow> if base = 0 \<and> c = 48 then (8, []) else if base = 0 then (10, s) else (base, s)
      | [] \<Rightarrow> (if base = 0 then 10 else base, s))"

definition strtol :: "u8 list \<Rightarrow> nat \<Rightarrow> (int \<times> u8 list) option" where
  "strtol s base = do {
     s1 \<leftarrow> skip_blanks s;
     let (neg, s2) = strtol_sign s1;
     let (b, s3) = strtol_prefix s2 base;
     (val, s4) \<leftarrow> strtol_digits s3 b 0;
     Some (sint (if neg then - val else val), s4) }"

subsection \<open>Routines that write\<close>

fun memset_c :: "memory \<Rightarrow> nat \<Rightarrow> u8 \<Rightarrow> nat \<Rightarrow> memory" where
  "memset_c m p c 0 = m"
| "memset_c m p c (Suc n) = memset_c (m(p := c)) (Suc p) c n"

text \<open>The loops of \<^verbatim>\<open>memcpy\<close> and \<^verbatim>\<open>memmove\<close>, upwards and downwards.\<close>

fun copy_up :: "memory \<Rightarrow> nat \<Rightarrow> nat \<Rightarrow> nat \<Rightarrow> memory" where
  "copy_up m d s 0 = m"
| "copy_up m d s (Suc n) = copy_up (m(d := m s)) (Suc d) (Suc s) n"

fun copy_down :: "memory \<Rightarrow> nat \<Rightarrow> nat \<Rightarrow> nat \<Rightarrow> memory" where
  "copy_down m d s 0 = m"
| "copy_down m d s (Suc n) = copy_down (m(d + n := m (s + n))) d s n"

definition memcpy_c :: "memory \<Rightarrow> nat \<Rightarrow> nat \<Rightarrow> nat \<Rightarrow> memory" where
  "memcpy_c m dst src n = copy_up m dst src n"

definition memmove_c :: "memory \<Rightarrow> nat \<Rightarrow> nat \<Rightarrow> nat \<Rightarrow> memory" where
  "memmove_c m dst src n = (if src < dst \<and> src + n > dst then copy_down m dst src n else copy_up m dst src n)"

text \<open>\<^verbatim>\<open>rep; movsl\<close>: each step reads four bytes before it writes them.\<close>

fun copy_words :: "memory \<Rightarrow> nat \<Rightarrow> nat \<Rightarrow> nat \<Rightarrow> memory" where
  "copy_words m d s 0 = m"
| "copy_words m d s (Suc n) = copy_words (overlay m d (span m s 4)) (d + 4) (s + 4) n"

definition arch_memcpy :: "memory \<Rightarrow> nat \<Rightarrow> nat \<Rightarrow> nat \<Rightarrow> memory" where
  "arch_memcpy m dst src n =
     (let k = n div 4; m1 = copy_words m dst src k in
      if n mod 4 = 0 then m1 else copy_up m1 (dst + 4 * k) (src + 4 * k) (n mod 4))"

definition arch_memmove :: "memory \<Rightarrow> nat \<Rightarrow> nat \<Rightarrow> nat \<Rightarrow> memory" where
  "arch_memmove m dst src n = (if dst < src then arch_memcpy m dst src n else copy_down m dst src n)"

partial_function (option) strlen_at :: "memory \<Rightarrow> nat \<Rightarrow> nat \<Rightarrow> nat option" where
  "strlen_at m s cnt = (if m s \<noteq> 0 then strlen_at m (Suc s) (Suc cnt) else Some cnt)"

partial_function (option) strcpy_c :: "memory \<Rightarrow> nat \<Rightarrow> nat \<Rightarrow> memory option" where
  "strcpy_c m p s = (if m s \<noteq> 0 then strcpy_c (m(p := m s)) (Suc p) (Suc s) else Some (m(p := m s)))"

fun strncpy :: "memory \<Rightarrow> nat \<Rightarrow> nat \<Rightarrow> nat \<Rightarrow> memory" where
  "strncpy m p s 0 = m"
| "strncpy m p s (Suc len) = strncpy (m(p := m s)) (Suc p) (if m s \<noteq> 0 then Suc s else s) len"

definition strcat :: "memory \<Rightarrow> nat \<Rightarrow> nat \<Rightarrow> memory option" where
  "strcat m dst src = do {
     n \<leftarrow> strlen_at m dst 0;
     strcpy_c m (dst + n) src }"

text \<open>\<^verbatim>\<open>strdup\<close> and \<^verbatim>\<open>stradd\<close> of \<^verbatim>\<open>kern/libs/string.c\<close>; \<open>dst\<close> is what \<^verbatim>\<open>kmalloc\<close> returns for the given length.\<close>

definition strdup :: "memory \<Rightarrow> nat \<Rightarrow> (nat \<Rightarrow> nat option) \<Rightarrow> (nat option \<times> memory) option" where
  "strdup m src kmalloc = do {
     len \<leftarrow> strlen_at m src 0;
     Some (case kmalloc (len + 1) of
       None \<Rightarrow> (None, m)
     | Some dst \<Rightarrow> (Some dst, (arch_memcpy m dst src len)(dst + len := 0))) }"

definition stradd :: "memory \<Rightarrow> nat \<Rightarrow> nat \<Rightarrow> (nat \<Rightarrow> nat option) \<Rightarrow> (nat option \<times> memory) option" where
  "stradd m src1 src2 kmalloc = do {
     len1 \<leftarrow> strlen_at m src1 0;
     len2 \<leftarrow> strlen_at m src2 0;
     Some (case kmalloc (len1 + len2 + 1) of
       None \<Rightarrow> (None, m)
     | Some dst \<Rightarrow>
         let m1 = arch_memcpy m dst src1 len1; m2 = arch_memcpy m1 (dst + len1) src2 len2
         in (Some dst, m2(dst + len1 + len2 := 0))) }"

subsection \<open>Comparison\<close>

text \<open>The text of a string: its bytes before the terminating zero.\<close>

definition cstr :: "u8 list \<Rightarrow> u8 list" where
  "cstr s = takeWhile (\<lambda>c. c \<noteq> 0) s"

lemma strlen_cstr: "0 \<in> set s \<Longrightarrow> strlen s = Some (length (cstr s))"
  by (induction s) (auto simp: cstr_def)

lemma strlen_term: "0 \<notin> set t \<Longrightarrow> strlen (t @ [0]) = Some (length t)"
  by (induction t) auto

lemma cstr_term [simp]: "0 \<notin> set t \<Longrightarrow> cstr (t @ [0]) = t"
  by (simp add: cstr_def takeWhile_append)

lemma strnlen_cstr: "0 \<in> set s \<Longrightarrow> strnlen s n = Some (min n (length (cstr s)))"
proof (induction s arbitrary: n)
  case (Cons c s)
  then show ?case by (cases n) (auto simp: cstr_def)
qed simp

lemma arch_strcmp_zero: "0 \<in> set s \<Longrightarrow> 0 \<in> set t \<Longrightarrow> \<exists>v. arch_strcmp s t = Some v \<and> (v = 0 \<longleftrightarrow> cstr s = cstr t)"
proof (induction s t rule: arch_strcmp.induct)
  case (1 a s b t)
  then show ?case by (cases "a = b"; cases "a = 0") (auto simp: cstr_def)
qed simp_all

lemma arch_strcmp_sgn: "map_option sgn (strcmp_c s t) = map_option sgn (arch_strcmp s t)"
proof (induction s t rule: arch_strcmp.induct)
  case (1 a s b t)
  then show ?case using word_uint_eq_iff[of a b] by (auto simp: word_less_alt sgn_if)
qed simp_all

lemma strncmp_take: "0 \<in> set s \<Longrightarrow> 0 \<in> set t \<Longrightarrow> \<exists>v. strncmp s t n = Some v \<and> (v = 0 \<longleftrightarrow> take n (cstr s) = take n (cstr t))"
proof (induction s t n rule: strncmp.induct)
  case (2 a s b t n)
  then show ?case by (cases "a = b"; cases "a = 0") (auto simp: cstr_def word_uint_eq_iff)
qed simp_all

subsection \<open>Copying\<close>

lemma upd_overlay: "m(d := v) = overlay m d [v]"
  by (auto simp: overlay_def fun_eq_iff)

lemma copy_step:
  assumes "d \<le> s \<or> s + (k + n) \<le> d"
  shows "overlay (overlay m d (span m s k)) (d + k) (span (overlay m d (span m s k)) (s + k) n) = overlay m d (span m s (k + n))"
proof -
  have "span (overlay m d (span m s k)) (s + k) n = span m (s + k) n"
    using assms by (intro span_overlay_other) auto
  then show ?thesis using overlay_append[of m d "span m s k" "span m (s + k) n"] by (simp add: span_append)
qed

lemma copy_up_ok: "d \<le> s \<or> s + n \<le> d \<Longrightarrow> copy_up m d s n = overlay m d (span m s n)"
proof (induction n arbitrary: m d s)
  case (Suc n)
  have "m(d := m s) = overlay m d (span m s 1)" by (simp add: upd_overlay span_def)
  then show ?case using Suc.IH[of "Suc d" "Suc s" "m(d := m s)"] Suc.prems copy_step[of d s 1 n m] by auto
qed simp

lemma copy_words_ok: "d \<le> s \<or> s + 4 * n \<le> d \<Longrightarrow> copy_words m d s n = overlay m d (span m s (4 * n))"
proof (induction n arbitrary: m d s)
  case (Suc n)
  then show ?case using Suc.IH[of "d + 4" "s + 4" "overlay m d (span m s 4)"] copy_step[of d s 4 "4 * n" m] by auto
qed simp

lemma copy_down_ok: "s \<le> d \<or> d + n \<le> s \<Longrightarrow> copy_down m d s n = overlay m d (span m s n)"
proof (induction n arbitrary: m)
  case (Suc n)
  let ?m = "m(d + n := m (s + n))"
  have "span ?m s n = span m s n" using Suc.prems by (intro span_cong) auto
  then have "copy_down ?m d s n = overlay ?m d (span m s n)" using Suc by auto
  also have "\<dots> = overlay m d (span m s (Suc n))"
  proof
    fix x
    consider "x < d \<or> d + n < x" | "x = d + n" | k where "x = d + k" "k < n" by (metis le_eq_less_or_eq le_iff_add linorder_not_less nat_add_left_cancel_less)
    then show "overlay ?m d (span m s n) x = overlay m d (span m s (Suc n)) x"
      by cases (auto simp: overlay_apply)
  qed
  finally show ?case by simp
qed simp

lemma arch_memcpy_ok:
  assumes "dst \<le> src \<or> src + n \<le> dst"
  shows "arch_memcpy m dst src n = overlay m dst (span m src n)"
proof -
  define k where "k = n div 4"
  define r where "r = n mod 4"
  have n: "n = 4 * k + r" by (simp add: k_def r_def)
  have a: "arch_memcpy m dst src n =
      (if r = 0 then copy_words m dst src k else copy_up (copy_words m dst src k) (dst + 4 * k) (src + 4 * k) r)"
    by (simp add: arch_memcpy_def Let_def k_def r_def)
  have w: "copy_words m dst src k = overlay m dst (span m src (4 * k))" using assms n by (intro copy_words_ok) auto
  show ?thesis
  proof (cases "r = 0")
    case True
    then have "4 * k = n" using n by simp
    with True a w show ?thesis by simp
  next
    case False
    have "copy_up (copy_words m dst src k) (dst + 4 * k) (src + 4 * k) r =
        overlay (copy_words m dst src k) (dst + 4 * k) (span (copy_words m dst src k) (src + 4 * k) r)"
      using assms n by (intro copy_up_ok) auto
    moreover have "dst \<le> src \<or> src + (4 * k + r) \<le> dst" using assms n by simp
    ultimately show ?thesis unfolding a w using False copy_step[of dst src "4 * k" r m] n by simp
  qed
qed

lemma memset_ok: "memset_c m p c n = overlay m p (replicate n c)"
proof (induction n arbitrary: m p)
  case (Suc n)
  have "memset_c m p c (Suc n) = overlay (m(p := c)) (p + length [c]) (replicate n c)" using Suc.IH by (simp add: fun_upd_def)
  also have "\<dots> = overlay m p ([c] @ replicate n c)" unfolding upd_overlay by (rule overlay_append)
  finally show ?case by simp
qed simp

lemma strcpy_ok:
  assumes "\<forall>i < n. m (s + i) \<noteq> 0" "m (s + n) = 0" "p + n < s \<or> s + n < p"
  shows "strcpy_c m p s = Some (overlay m p (span m s (Suc n)))"
  using assms
proof (induction n arbitrary: m p s)
  case 0
  then show ?case by (simp add: strcpy_c.simps[of m] upd_overlay span_def)
next
  case (Suc n)
  let ?m = "m(p := m s)"
  have nz: "m s \<noteq> 0" using Suc.prems(1) by (metis add.right_neutral zero_less_Suc)
  have "strcpy_c ?m (Suc p) (Suc s) = Some (overlay ?m (Suc p) (span ?m (Suc s) (Suc n)))"
  proof (rule Suc.IH)
    have same: "?m (Suc s + i) = m (s + Suc i)" if "i \<le> n" for i using Suc.prems(3) that by auto
    show "\<forall>i < n. ?m (Suc s + i) \<noteq> 0" using same Suc.prems(1) by auto
    show "?m (Suc s + n) = 0" using same[of n] Suc.prems(2) by simp
    show "Suc p + n < Suc s \<or> Suc s + n < Suc p" using Suc.prems(3) by linarith
  qed
  moreover have "?m = overlay m p (span m s 1)" by (simp add: upd_overlay span_def)
  ultimately show ?case using nz copy_step[of p s 1 "Suc n" m] Suc.prems(3) by (auto simp: strcpy_c.simps[of m])
qed

text \<open>
  C36. The assembly routines of the kernel agree with the C routines they replace: both versions of
  \<^verbatim>\<open>memmove\<close> copy the old contents of the source for every overlap of source and destination, both
  versions of \<^verbatim>\<open>memcpy\<close> do so for areas that do not overlap, and both versions of \<^verbatim>\<open>strcmp\<close> have the same sign.
\<close>

theorem string_arch_equivalent:
  "memmove_c m dst src n = overlay m dst (span m src n) \<and> arch_memmove m dst src n = overlay m dst (span m src n) \<and>
   (if dst + n \<le> src \<or> src + n \<le> dst
    then memcpy_c m dst src n = overlay m dst (span m src n) \<and> arch_memcpy m dst src n = overlay m dst (span m src n) else True) \<and>
   map_option sgn (strcmp_c s t) = map_option sgn (arch_strcmp s t)"
proof (intro conjI)
  show "memmove_c m dst src n = overlay m dst (span m src n)"
    using copy_down_ok[of src dst n m] copy_up_ok[of dst src n m] by (auto simp: memmove_c_def)
  show "arch_memmove m dst src n = overlay m dst (span m src n)"
    using copy_down_ok[of src dst n m] arch_memcpy_ok[of dst src n m] by (auto simp: arch_memmove_def)
  show "if dst + n \<le> src \<or> src + n \<le> dst
    then memcpy_c m dst src n = overlay m dst (span m src n) \<and> arch_memcpy m dst src n = overlay m dst (span m src n) else True"
    using arch_memcpy_ok[of dst src n m] copy_up_ok[of dst src n m] by (auto simp: memcpy_c_def)
qed (rule arch_strcmp_sgn)

end
