(* ===== verification/Sfs_Inode.thy ===== *)
theory Sfs_Inode
  imports Sfs_Io Kstring
begin

text \<open>
  The inodes in memory and the entries of directories (\<^verbatim>\<open>kern/fs/sfs/sfs_inode.c\<close>,
  \<^verbatim>\<open>kern/fs/vfs/inode.c\<close>). A directory is a file whose blocks hold one entry each, an inode number and a
  name. The inodes in memory are named by address; what \<^verbatim>\<open>kmalloc\<close> returns is an argument, \<open>None\<close> (or
  \<open>False\<close>) when there is no memory. Names are C strings without the terminating zero.
\<close>

subsection \<open>On-disk form\<close>

definition din_bytes :: "sfs_disk_inode \<Rightarrow> u8 list" where
  "din_bytes d = le_bytes 4 (din_size d) @ le_bytes 2 (din_type d) @ le_bytes 2 (din_nlinks d) @ le_bytes 4 (din_blocks d) @
     concat (map (le_bytes 4) (din_direct d)) @ le_bytes 4 (din_indirect d)"

fun le_words :: "nat \<Rightarrow> u8 list \<Rightarrow> nat list" where
  "le_words 0 bs = []"
| "le_words (Suc n) bs = le_nat (take 4 bs) # le_words n (drop 4 bs)"

definition din_of :: "u8 list \<Rightarrow> sfs_disk_inode" where
  "din_of b = \<lparr>din_size = le_nat (take 4 b), din_type = le_nat (take 2 (drop 4 b)), din_nlinks = le_nat (take 2 (drop 6 b)),
     din_blocks = le_nat (take 4 (drop 8 b)), din_direct = le_words 12 (drop 12 b), din_indirect = le_nat (take 4 (drop 60 b))\<rparr>"

definition entry_of :: "u8 list \<Rightarrow> sfs_disk_entry" where
  "entry_of b = \<lparr>ent_ino = le_nat (take 4 b), ent_name = take SFS_MAX_FNAME_LEN (drop 4 b) @ [0]\<rparr>"

definition put :: "sfs_fs \<Rightarrow> nat \<Rightarrow> sfs_inode \<Rightarrow> sfs_fs" where
  "put s node sin = s\<lparr>inodes := (inodes s)(node := sin)\<rparr>"

subsection \<open>Reading entries\<close>

definition sfs_dirent_read_nolock :: "sfs_fs \<Rightarrow> sfs_inode \<Rightarrow> nat \<Rightarrow> sfs_disk_entry \<Rightarrow> (int \<times> sfs_disk_entry \<times> sfs_fs \<times> sfs_inode) option" where
  "sfs_dirent_read_nolock s sin slot entry = do {
     kassert (din_type (sin_din sin) = SFS_TYPE_DIR \<and> slot < din_blocks (sin_din sin));
     (r, ino, s1, sin1) \<leftarrow> sfs_bmap_load_nolock s sin slot;
     if r \<noteq> 0 then Some (r, entry, s1, sin1)
     else do {
       u \<leftarrow> sfs_block_inuse s1 ino;
       kassert u;
       (r2, b, s2) \<leftarrow> sfs_rbuf s1 (replicate 260 0) 260 ino 0;
       if r2 \<noteq> 0 then Some (r2, entry, s2, sin1) else Some (0, entry_of b, s2, sin1) } }"

text \<open>
  The loop of \<^verbatim>\<open>sfs_dirent_search_nolock\<close> from slot \<open>i\<close> on with \<open>n\<close> slots to go. It returns what it stores
  through its pointers: the inode number and the slot of the name when it is found, and the empty slot.
\<close>

fun search_loop :: "sfs_fs \<Rightarrow> sfs_inode \<Rightarrow> u8 list \<Rightarrow> nat \<Rightarrow> nat \<Rightarrow> nat \<Rightarrow> sfs_disk_entry \<Rightarrow>
    (int \<times> (nat \<times> nat) option \<times> nat \<times> sfs_fs \<times> sfs_inode) option" where
  "search_loop s sin name i 0 gap entry = Some (- E_NOENT, None, gap, s, sin)"
| "search_loop s sin name i (Suc n) gap entry = do {
     (r, e, s1, sin1) \<leftarrow> sfs_dirent_read_nolock s sin i entry;
     if r \<noteq> 0 then Some (r, None, gap, s1, sin1)
     else if ent_ino e = 0 then search_loop s1 sin1 name (Suc i) n i e
     else do {
       c \<leftarrow> arch_strcmp (name @ [0]) (ent_name e);
       if c = 0 then Some (0, Some (ent_ino e, i), gap, s1, sin1)
       else search_loop s1 sin1 name (Suc i) n gap e } }"

definition sfs_dirent_search_nolock :: "sfs_fs \<Rightarrow> sfs_inode \<Rightarrow> u8 list \<Rightarrow> sfs_disk_entry option \<Rightarrow>
    (int \<times> (nat \<times> nat) option \<times> nat \<times> sfs_fs \<times> sfs_inode) option" where
  "sfs_dirent_search_nolock s sin name mem = do {
     n \<leftarrow> strlen (name @ [0]);
     kassert (n \<le> SFS_MAX_FNAME_LEN);
     (case mem of
        None \<Rightarrow> Some (- E_NO_MEM, None, 0, s, sin)
      | Some entry \<Rightarrow> search_loop s sin name 0 (din_blocks (sin_din sin)) (din_blocks (sin_din sin)) entry) }"

fun sfs_dirent_findino_nolock :: "sfs_fs \<Rightarrow> sfs_inode \<Rightarrow> nat \<Rightarrow> nat \<Rightarrow> nat \<Rightarrow> sfs_disk_entry \<Rightarrow> (int \<times> sfs_disk_entry \<times> sfs_fs \<times> sfs_inode) option" where
  "sfs_dirent_findino_nolock s sin ino i 0 entry = Some (- E_NOENT, entry, s, sin)"
| "sfs_dirent_findino_nolock s sin ino i (Suc n) entry = do {
     (r, e, s1, sin1) \<leftarrow> sfs_dirent_read_nolock s sin i entry;
     if r \<noteq> 0 then Some (r, e, s1, sin1)
     else if ent_ino e = ino then Some (0, e, s1, sin1)
     else sfs_dirent_findino_nolock s1 sin1 ino (Suc i) n e }"

fun sfs_getdirentry_sub_nolock :: "sfs_fs \<Rightarrow> sfs_inode \<Rightarrow> nat \<Rightarrow> nat \<Rightarrow> nat \<Rightarrow> sfs_disk_entry \<Rightarrow> (int \<times> sfs_disk_entry \<times> sfs_fs \<times> sfs_inode) option" where
  "sfs_getdirentry_sub_nolock s sin slot i 0 entry = Some (- E_NOENT, entry, s, sin)"
| "sfs_getdirentry_sub_nolock s sin slot i (Suc n) entry = do {
     (r, e, s1, sin1) \<leftarrow> sfs_dirent_read_nolock s sin i entry;
     if r \<noteq> 0 then Some (r, e, s1, sin1)
     else if ent_ino e \<noteq> 0 then
       (if slot = 0 then Some (0, e, s1, sin1) else sfs_getdirentry_sub_nolock s1 sin1 (slot - 1) (Suc i) n e)
     else sfs_getdirentry_sub_nolock s1 sin1 slot (Suc i) n e }"

definition sfs_getdirentry :: "sfs_fs \<Rightarrow> nat \<Rightarrow> iobuf \<Rightarrow> sfs_disk_entry option \<Rightarrow> (int \<times> iobuf \<times> sfs_fs) option" where
  "sfs_getdirentry s node iob mem =
     (case mem of
        None \<Rightarrow> Some (- E_NO_MEM, iob, s)
      | Some entry \<Rightarrow>
          let sin = inodes s node; offset = io_offset iob in
          if offset < 0 \<or> offset mod 256 \<noteq> 0 then Some (- E_INVAL, iob, s)
          else if nat (offset div 256) > din_blocks (sin_din sin) then Some (- E_NOENT, iob, s)
          else do {
            (r, e, s1, sin1) \<leftarrow> sfs_getdirentry_sub_nolock s sin (nat (offset div 256)) 0 (din_blocks (sin_din sin)) entry;
            let s2 = put s1 node sin1;
            if r \<noteq> 0 then Some (r, iob, s2)
            else do {
              (r2, _, iob1, _) \<leftarrow> iobuf_move iob (ent_name e) 256 True;
              Some (r2, iob1, s2) } })"

subsection \<open>The inodes in memory\<close>

definition sin_hashfn :: "nat \<Rightarrow> nat" where
  "sin_hashfn ino = unat (hash32 (word_of_nat ino) 10)"

definition sfs_set_links :: "sfs_fs \<Rightarrow> nat \<Rightarrow> sfs_fs" where
  "sfs_set_links s node = (let h = sin_hashfn (sin_ino (inodes s node)) in
     s\<lparr>inode_list := node # inode_list s, hash_list := (hash_list s)(h := node # hash_list s h)\<rparr>)"

definition sfs_remove_links :: "sfs_fs \<Rightarrow> nat \<Rightarrow> sfs_fs" where
  "sfs_remove_links s node =
     s\<lparr>inode_list := remove1 node (inode_list s), hash_list := (\<lambda>h. remove1 node (hash_list s h))\<rparr>"

text \<open>\<^verbatim>\<open>sfs_get_ops\<close> knows directories and files; every other type stops the kernel.\<close>

definition sfs_create_inode :: "sfs_fs \<Rightarrow> sfs_disk_inode \<Rightarrow> nat \<Rightarrow> nat option \<Rightarrow> (int \<times> nat \<times> sfs_fs) option" where
  "sfs_create_inode s din ino mem =
     (case mem of
        None \<Rightarrow> Some (- E_NO_MEM, 0, s)
      | Some node \<Rightarrow> do {
          kassert (din_type din = SFS_TYPE_DIR \<or> din_type din = SFS_TYPE_FILE);
          Some (0, node, put s node \<lparr>sin_din = din, sin_ino = ino, sin_dirty = False, sin_reclaim = 1, sin_ref = 1, sin_open = 0\<rparr>) })"

definition inode_ref_inc :: "sfs_fs \<Rightarrow> nat \<Rightarrow> int \<times> sfs_fs" where
  "inode_ref_inc s node = (let ref = sin_ref (inodes s node) + 1 in (ref, put s node ((inodes s node)\<lparr>sin_ref := ref\<rparr>)))"

definition lookup_sfs_nolock :: "sfs_fs \<Rightarrow> nat \<Rightarrow> nat option \<times> sfs_fs" where
  "lookup_sfs_nolock s ino =
     (case find (\<lambda>n. sin_ino (inodes s n) = ino) (hash_list s (sin_hashfn ino)) of
        None \<Rightarrow> (None, s)
      | Some node \<Rightarrow>
          let (ref, s1) = inode_ref_inc s node; sin = inodes s1 node in
          (Some node, if ref = 1 then put s1 node (sin\<lparr>sin_reclaim := sin_reclaim sin + 1\<rparr>) else s1))"

definition sfs_load_inode :: "sfs_fs \<Rightarrow> nat \<Rightarrow> bool \<Rightarrow> nat option \<Rightarrow> (int \<times> nat \<times> sfs_fs) option" where
  "sfs_load_inode s ino din_mem node_mem =
     (case lookup_sfs_nolock s ino of
        (Some node, s1) \<Rightarrow> Some (0, node, s1)
      | (None, _) \<Rightarrow>
          if \<not> din_mem then Some (- E_NO_MEM, 0, s)
          else do {
            u \<leftarrow> sfs_block_inuse s ino;
            kassert u;
            (r, b, s1) \<leftarrow> sfs_rbuf s (replicate 64 0) 64 ino 0;
            if r \<noteq> 0 then Some (r, 0, s1)
            else do {
              kassert (din_nlinks (din_of b) \<noteq> 0);
              (r2, node, s2) \<leftarrow> sfs_create_inode s1 (din_of b) ino node_mem;
              if r2 \<noteq> 0 then Some (r2, 0, s2) else Some (0, node, sfs_set_links s2 node) } })"

text \<open>Every \<^verbatim>\<open>vop_\<close> call first runs \<^verbatim>\<open>inode_check\<close>.\<close>

definition inode_check :: "sfs_fs \<Rightarrow> nat \<Rightarrow> unit option" where
  "inode_check s node = (let ref = sin_ref (inodes s node); opn = sin_open (inodes s node) in
     kassert (ref \<ge> opn \<and> opn \<ge> 0 \<and> ref < 65536 \<and> opn < 65536))"

definition sfs_fsync :: "sfs_fs \<Rightarrow> nat \<Rightarrow> (int \<times> sfs_fs) option" where
  "sfs_fsync s node = (let sin = inodes s node in
     if sin_dirty sin then do {
       (r, s1) \<leftarrow> sfs_wbuf s (din_bytes (sin_din sin)) 64 (sin_ino sin) 0;
       Some (r, put s1 node (sin\<lparr>sin_dirty := r \<noteq> 0\<rparr>)) }
     else Some (0, s))"

definition vop_fsync :: "sfs_fs \<Rightarrow> nat \<Rightarrow> (int \<times> sfs_fs) option" where
  "vop_fsync s node = do { inode_check s node; sfs_fsync s node }"

definition sfs_close :: "sfs_fs \<Rightarrow> nat \<Rightarrow> (int \<times> sfs_fs) option" where
  "sfs_close s node = vop_fsync s node"

text \<open>Directories have no truncate operation, and \<^verbatim>\<open>vop_truncate\<close> asserts that there is one.\<close>

definition vop_truncate :: "sfs_fs \<Rightarrow> nat \<Rightarrow> int \<Rightarrow> (int \<times> sfs_fs) option" where
  "vop_truncate s node len = do {
     kassert (din_type (sin_din (inodes s node)) \<noteq> SFS_TYPE_DIR);
     inode_check s node;
     (r, s1, sin1) \<leftarrow> sfs_truncfile s (inodes s node) len;
     Some (r, put s1 node sin1) }"

definition inode_kill :: "sfs_fs \<Rightarrow> nat \<Rightarrow> unit option" where
  "inode_kill s node = kassert (sin_ref (inodes s node) = 0 \<and> sin_open (inodes s node) = 0)"

text \<open>The end of \<^verbatim>\<open>sfs_reclaim\<close>: the inode leaves both rings, and without links its blocks are freed.\<close>

definition reclaim_drop :: "sfs_fs \<Rightarrow> nat \<Rightarrow> (int \<times> sfs_fs) option" where
  "reclaim_drop s node = do {
     let s1 = sfs_remove_links s node;
     let sin = inodes s1 node;
     s2 \<leftarrow> (if din_nlinks (sin_din sin) = 0 then do {
         a \<leftarrow> sfs_block_free s1 (sin_ino sin);
         (if din_indirect (sin_din sin) \<noteq> 0 then sfs_block_free a (din_indirect (sin_din sin)) else Some a) }
       else Some s1);
     inode_kill s2 node;
     Some (0, s2) }"

definition sfs_reclaim :: "sfs_fs \<Rightarrow> nat \<Rightarrow> (int \<times> sfs_fs) option" where
  "sfs_reclaim s node = do {
     let sin = inodes s node;
     kassert (sin_reclaim sin > 0);
     let s1 = put s node (sin\<lparr>sin_reclaim := sin_reclaim sin - 1\<rparr>);
     if sin_reclaim sin - 1 \<noteq> 0 \<or> sin_ref sin \<noteq> 0 then Some (- E_BUSY, s1)
     else do {
       (r, s2) \<leftarrow> (if din_nlinks (sin_din sin) = 0 then vop_truncate s1 node 0 else Some (0, s1));
       if r \<noteq> 0 then Some (r, s2)
       else do {
         (r2, s3) \<leftarrow> (if sin_dirty (inodes s2 node) then vop_fsync s2 node else Some (0, s2));
         if r2 \<noteq> 0 then Some (r2, s3) else reclaim_drop s3 node } } }"

subsection \<open>Counts (vfs/inode.c)\<close>

definition inode_ref_dec :: "sfs_fs \<Rightarrow> nat \<Rightarrow> (int \<times> sfs_fs) option" where
  "inode_ref_dec s node = do {
     kassert (sin_ref (inodes s node) > 0);
     let ref = sin_ref (inodes s node) - 1;
     let s1 = put s node ((inodes s node)\<lparr>sin_ref := ref\<rparr>);
     if ref = 0 then do {
       inode_check s1 node;
       (_, s2) \<leftarrow> sfs_reclaim s1 node;
       Some (ref, s2) }
     else Some (ref, s1) }"

definition inode_open_inc :: "sfs_fs \<Rightarrow> nat \<Rightarrow> int \<times> sfs_fs" where
  "inode_open_inc s node = (let opn = sin_open (inodes s node) + 1 in (opn, put s node ((inodes s node)\<lparr>sin_open := opn\<rparr>)))"

definition inode_open_dec :: "sfs_fs \<Rightarrow> nat \<Rightarrow> (int \<times> sfs_fs) option" where
  "inode_open_dec s node = do {
     kassert (sin_open (inodes s node) > 0);
     let opn = sin_open (inodes s node) - 1;
     let s1 = put s node ((inodes s node)\<lparr>sin_open := opn\<rparr>);
     if opn = 0 then do {
       inode_check s1 node;
       (_, s2) \<leftarrow> sfs_close s1 node;
       Some (opn, s2) }
     else Some (opn, s1) }"

subsection \<open>Type, status and opening\<close>

definition S_IFREG :: nat where "S_IFREG = 4096"
definition S_IFDIR :: nat where "S_IFDIR = 8192"
definition S_IFLNK :: nat where "S_IFLNK = 12288"

definition sfs_gettype :: "sfs_fs \<Rightarrow> nat \<Rightarrow> (int \<times> nat) option" where
  "sfs_gettype s node = (let t = din_type (sin_din (inodes s node)) in
     if t = SFS_TYPE_DIR then Some (0, S_IFDIR) else if t = SFS_TYPE_FILE then Some (0, S_IFREG)
     else if t = SFS_TYPE_LINK then Some (0, S_IFLNK) else kpanic)"

record stat =
  st_mode :: nat
  st_nlinks :: nat
  st_blocks :: nat
  st_size :: nat

definition sfs_fstat :: "sfs_fs \<Rightarrow> nat \<Rightarrow> (int \<times> stat) option" where
  "sfs_fstat s node = do {
     inode_check s node;
     (r, mode) \<leftarrow> sfs_gettype s node;
     let din = sin_din (inodes s node);
     if r \<noteq> 0 then Some (r, \<lparr>st_mode = mode, st_nlinks = 0, st_blocks = 0, st_size = 0\<rparr>)
     else Some (0, \<lparr>st_mode = mode, st_nlinks = din_nlinks din, st_blocks = din_blocks din, st_size = din_size din\<rparr>) }"

definition O_ACCMODE :: u32 where "O_ACCMODE = 3"
definition O_RDONLY :: u32 where "O_RDONLY = 0"
definition O_APPEND :: u32 where "O_APPEND = 32"

definition sfs_opendir :: "u32 \<Rightarrow> int" where
  "sfs_opendir open_flags =
     (if open_flags AND O_ACCMODE \<noteq> O_RDONLY then - E_ISDIR
      else if open_flags AND O_APPEND \<noteq> 0 then - E_ISDIR else 0)"

definition sfs_openfile :: "u32 \<Rightarrow> int" where
  "sfs_openfile open_flags = 0"

subsection \<open>Inodes on disk\<close>

definition din_wf :: "sfs_disk_inode \<Rightarrow> bool" where
  "din_wf d \<longleftrightarrow> din_size d < 2 ^ 32 \<and> din_type d < 2 ^ 16 \<and> din_nlinks d < 2 ^ 16 \<and> din_blocks d < 2 ^ 32 \<and>
     length (din_direct d) = 12 \<and> (\<forall>b \<in> set (din_direct d). b < 2 ^ 32) \<and> din_indirect d < 2 ^ 32"

lemma le_words_bytes:
  "(\<forall>w \<in> set ws. w < 2 ^ 32) \<Longrightarrow> n = length ws \<Longrightarrow> le_words n (concat (map (le_bytes 4) ws) @ rest) = ws"
  by (induction ws arbitrary: n) simp_all

lemma length_words_bytes: "length (concat (map (le_bytes 4) ws)) = 4 * length ws"
  by (induction ws) simp_all

lemma length_din_bytes: "length (din_direct d) = 12 \<Longrightarrow> length (din_bytes d) = 64"
  by (simp add: din_bytes_def length_words_bytes)

lemma din_roundtrip:
  assumes "din_wf d"
  shows "din_of (din_bytes d @ rest) = d"
proof -
  let ?w = "concat (map (le_bytes 4) (din_direct d))"
  have w: "length ?w = 48" using assms by (simp add: length_words_bytes din_wf_def)
  have d12: "drop 12 (din_bytes d @ rest) = ?w @ le_bytes 4 (din_indirect d) @ rest" by (simp add: din_bytes_def)
  have "drop 60 (din_bytes d @ rest) = drop 48 (drop 12 (din_bytes d @ rest))" unfolding drop_drop by simp
  also have "\<dots> = le_bytes 4 (din_indirect d) @ rest" unfolding d12 using w by simp
  finally have d60: "drop 60 (din_bytes d @ rest) = le_bytes 4 (din_indirect d) @ rest" .
  have hd: "take 4 (din_bytes d @ rest) = le_bytes 4 (din_size d)" "take 2 (drop 4 (din_bytes d @ rest)) = le_bytes 2 (din_type d)"
    "take 2 (drop 6 (din_bytes d @ rest)) = le_bytes 2 (din_nlinks d)" "take 4 (drop 8 (din_bytes d @ rest)) = le_bytes 4 (din_blocks d)"
    by (simp_all add: din_bytes_def)
  show ?thesis unfolding din_of_def hd d12 d60 using assms le_words_bytes[of "din_direct d" 12]
    by (simp add: din_wf_def)
qed

subsection \<open>The entries of a directory\<close>

definition dir_ok :: "sfs_fs \<Rightarrow> sfs_disk_inode \<Rightarrow> bool" where
  "dir_ok s din \<longleftrightarrow> file_ok s din \<and> din_type din = SFS_TYPE_DIR"

definition dirent :: "(nat \<Rightarrow> u8) \<Rightarrow> sfs_disk_inode \<Rightarrow> nat \<Rightarrow> sfs_disk_entry" where
  "dirent m din i = entry_of (span m (bmap m din i * 4096) 260)"

definition entries :: "(nat \<Rightarrow> u8) \<Rightarrow> sfs_disk_inode \<Rightarrow> sfs_disk_entry list" where
  "entries m din = map (dirent m din) [0..<din_blocks din]"

text \<open>The first live entry with the name, numbered from \<open>i\<close>: inode number and slot.\<close>

fun dir_find :: "sfs_disk_entry list \<Rightarrow> u8 list \<Rightarrow> nat \<Rightarrow> (nat \<times> nat) option" where
  "dir_find [] name i = None"
| "dir_find (e # es) name i =
     (if ent_ino e \<noteq> 0 \<and> cstr (ent_name e) = name then Some (ent_ino e, i) else dir_find es name (Suc i))"

lemma dir_find_append:
  "dir_find (xs @ ys) name i = (case dir_find xs name i of None \<Rightarrow> dir_find ys name (i + length xs) | Some r \<Rightarrow> Some r)"
  by (induction xs arbitrary: i) (auto split: option.splits)

lemma dir_find_None: "dir_find es name i = None \<longleftrightarrow> (\<forall>e \<in> set es. ent_ino e \<noteq> 0 \<longrightarrow> cstr (ent_name e) \<noteq> name)"
  by (induction es arbitrary: i) auto

lemma dir_find_Some:
  "dir_find es name i = Some (ino, j) \<Longrightarrow>
   \<exists>k < length es. j = i + k \<and> ent_ino (es ! k) = ino \<and> ino \<noteq> 0 \<and> cstr (ent_name (es ! k)) = name"
proof (induction es arbitrary: i)
  case (Cons e es)
  show ?case
  proof (cases "ent_ino e \<noteq> 0 \<and> cstr (ent_name e) = name")
    case True
    then show ?thesis using Cons.prems by (intro exI[of _ 0]) simp
  next
    case False
    then have "dir_find es name (Suc i) = Some (ino, j)" using Cons.prems by (simp split: if_splits)
    from Cons.IH[OF this] obtain k where "k < length es" "j = Suc i + k" "ent_ino (es ! k) = ino \<and> ino \<noteq> 0 \<and> cstr (ent_name (es ! k)) = name" by blast
    then show ?thesis by (intro exI[of _ "Suc k"]) simp
  qed
qed simp

lemma step_dir_ok: "fs_step s (free s) (bytes s) s' \<Longrightarrow> dir_ok s' din = dir_ok s din"
  by (simp add: dir_ok_def step_file_ok)

lemma step_twice: "fs_step s (free s) (bytes s) s1 \<Longrightarrow> fs_step s1 (free s1) (bytes s1) s2 \<Longrightarrow> fs_step s (free s) (bytes s) s2"
  using fs_step_trans[of s "free s" "bytes s" s1 "free s1" "bytes s1" s2] by (simp add: fs_step_def)

lemma dirent_read_ok:
  assumes "fs_ok s" "dir_ok s (sin_din sin)" "i < din_blocks (sin_din sin)"
  shows "\<exists>s'. sfs_dirent_read_nolock s sin i e = Some (0, dirent (bytes s) (sin_din sin) i, s', sin) \<and> fs_step s (free s) (bytes s) s'"
proof -
  let ?b = "bmap (bytes s) (sin_din sin) i"
  have f: "file_ok s (sin_din sin)" using assms(2) by (simp add: dir_ok_def)
  obtain s1 where s1: "sfs_bmap_load_nolock s sin i = Some (0, ?b, s1, sin)" "fs_step s (free s) (bytes s) s1"
    using bmap_load_existing[OF assms(1) f assms(3)] by blast
  have k: "fs_ok s1" "blk_ok s1 ?b" "?b \<notin> free s1" using step_keeps[OF s1(2) file_okD(3)[OF f assms(3)]] by auto
  obtain s2 where s2: "sfs_rbuf s1 (replicate 260 0) 260 ?b 0 = Some (0, patch (replicate 260 0) 0 (span (bytes s1) (?b * 4096 + 0) 260), s2)"
      "fs_step s1 (free s1) (bytes s1) s2"
    using sfs_rbuf_ok[OF k(1,2), of 0 260 "replicate 260 0"] by auto
  have "patch (replicate 260 0) 0 (span (bytes s1) (?b * 4096 + 0) 260) = span (bytes s) (?b * 4096) 260"
    using s1(2) by (simp add: patch_0_all fs_step_def)
  then show ?thesis using assms(2,3) s1(1) s2(1) sfs_block_inuse_ok[OF k(1,2)] k(3) step_twice[OF s1(2) s2(2)]
    by (simp add: sfs_dirent_read_nolock_def dir_ok_def dirent_def)
qed

lemma entry_terminated: "0 \<in> set (ent_name (dirent m din i))"
  by (simp add: dirent_def entry_of_def)

lemma search_loop_ok:
  assumes "fs_ok s" "dir_ok s (sin_din sin)" "0 \<notin> set name" "i + n = din_blocks (sin_din sin)"
    and r: "r = dir_find (map (dirent (bytes s) (sin_din sin)) [i..<i + n]) name i"
  shows "\<exists>gap' s'. search_loop s sin name i n gap e = Some (if r = None then - E_NOENT else 0, r, gap', s', sin) \<and> fs_step s (free s) (bytes s) s'"
  using assms
proof (induction n arbitrary: s i gap e r)
  case 0
  then show ?case using fs_step_refl[OF 0(1)] by auto
next
  case (Suc n)
  let ?m = "bytes s" and ?d = "sin_din sin"
  let ?e = "dirent ?m ?d i"
  obtain s1 where s1: "sfs_dirent_read_nolock s sin i e = Some (0, ?e, s1, sin)" "fs_step s (free s) (bytes s) s1"
    using dirent_read_ok[OF Suc.prems(1,2), of i e] Suc.prems(4) by auto
  have m1: "bytes s1 = ?m" using s1(2) by (simp add: fs_step_def)
  have up: "[i..<i + Suc n] = i # [Suc i..<Suc i + n]" by (simp add: upt_conv_Cons)
  obtain v where v: "arch_strcmp (name @ [0]) (ent_name ?e) = Some v" "v = 0 \<longleftrightarrow> name = cstr (ent_name ?e)"
    using arch_strcmp_zero[of "name @ [0]" "ent_name ?e"] entry_terminated Suc.prems(3) by auto
  have IH: "\<exists>gap' s'. search_loop s1 sin name (Suc i) n g e' = Some (if r' = None then - E_NOENT else 0, r', gap', s', sin) \<and> fs_step s1 (free s1) (bytes s1) s'"
    if "r' = dir_find (map (dirent ?m ?d) [Suc i..<Suc i + n]) name (Suc i)" for r' g e'
  proof (rule Suc.IH[OF fs_step_ok[OF s1(2)] _ Suc.prems(3)])
    show "dir_ok s1 ?d" using step_dir_ok[OF s1(2)] Suc.prems(2) by simp
    show "Suc i + n = din_blocks ?d" using Suc.prems(4) by simp
    show "r' = dir_find (map (dirent (bytes s1) ?d) [Suc i..<Suc i + n]) name (Suc i)" using that m1 by simp
  qed
  show ?case
  proof (cases "ent_ino ?e \<noteq> 0 \<and> cstr (ent_name ?e) = name")
    case True
    then have "r = Some (ent_ino ?e, i)" using Suc.prems(5) unfolding up by simp
    then show ?thesis using True s1 v by (auto simp: E_NOENT_def)
  next
    case False
    have r: "r = dir_find (map (dirent ?m ?d) [Suc i..<Suc i + n]) name (Suc i)" using Suc.prems(5) unfolding up list.map dir_find.simps if_not_P[OF False] .
    show ?thesis
    proof (cases "ent_ino ?e = 0")
      case True
      then show ?thesis using s1(1) IH[OF r, of i ?e] step_twice[OF s1(2)] by auto
    next
      case nz: False
      then have "v \<noteq> 0" using False v(2) by auto
      then show ?thesis using nz s1(1) v(1) IH[OF r, of gap ?e] step_twice[OF s1(2)] by auto
    qed
  qed
qed

lemma dirent_search_ok:
  assumes "fs_ok s" "dir_ok s (sin_din sin)" "0 \<notin> set name" "length name \<le> 255"
    and "r = dir_find (entries (bytes s) (sin_din sin)) name 0"
  shows "\<exists>gap s'. sfs_dirent_search_nolock s sin name (Some e) = Some (if r = None then - E_NOENT else 0, r, gap, s', sin) \<and>
    fs_step s (free s) (bytes s) s'"
  using search_loop_ok[OF assms(1-3), of 0 "din_blocks (sin_din sin)" r "din_blocks (sin_din sin)" e] assms(3-5)
  by (simp add: sfs_dirent_search_nolock_def strlen_term entries_def)

end
