(* ===== verification/Sfs_Vol.thy ===== *)
theory Sfs_Vol
  imports Sfs_Inode
begin

text \<open>
  The layout of a volume: super block, root directory, free map, and the inodes written back among the
  other blocks. What writing back an inode, the super block and the free map does to the bytes of the
  volume, for the operations on directories and for mounting.
\<close>

subsection \<open>Storing an inode in memory\<close>

lemma put_views [simp]:
  "free (put s n x) = free s" "bytes (put s n x) = bytes s" "super (put s n x) = super s" "freemap (put s n x) = freemap s"
  "sdev (put s n x) = sdev s" "super_dirty (put s n x) = super_dirty s" "sfs_buffer (put s n x) = sfs_buffer s"
  "inode_list (put s n x) = inode_list s" "hash_list (put s n x) = hash_list s" "inodes (put s n x) = (inodes s)(n := x)"
  by (simp_all add: put_def free_def bytes_def)

lemma fs_ok_put [simp]: "fs_ok (put s n x) = fs_ok s"
  by (simp add: fs_ok_def)

lemma blk_ok_put [simp]: "blk_ok (put s n x) b = blk_ok s b"
  by (simp add: blk_ok_def)

lemma file_ok_put [simp]: "file_ok (put s n x) d = file_ok s d"
  by (simp add: file_ok_def)

lemma dir_ok_put [simp]: "dir_ok (put s n x) d = dir_ok s d"
  by (simp add: dir_ok_def)

lemma fs_ok_dirty [simp]: "fs_ok (s\<lparr>super_dirty := v\<rparr>) = fs_ok s"
  by (simp add: fs_ok_def free_def)

lemma dirty_views [simp]: "free (s\<lparr>super_dirty := v\<rparr>) = free s" "bytes (s\<lparr>super_dirty := v\<rparr>) = bytes s"
  by (simp_all add: free_def bytes_def)

subsection \<open>Layout\<close>

definition meta_blocks :: "sfs_fs \<Rightarrow> nat set" where
  "meta_blocks s = insert 0 {2..<2 + sfs_freemap_blocks (super s)}"

lemma meta_blocks_dirty [simp]: "meta_blocks (s\<lparr>super_dirty := v\<rparr>) = meta_blocks s"
  by (simp add: meta_blocks_def)

definition vol_ok :: "sfs_fs \<Rightarrow> bool" where
  "vol_ok s \<longleftrightarrow> fs_ok s \<and> 2 + sfs_freemap_blocks (super s) \<le> sb_blocks (super s) \<and>
     4 * nwords (freemap s) = sfs_freemap_blocks (super s) * 4096 \<and> nbits (freemap s) = sfs_freemap_bits (super s) \<and>
     sb_magic (super s) = SFS_MAGIC \<and> length (sb_info (super s)) = 32 \<and> sb_info (super s) ! 31 = 0 \<and>
     free s \<inter> meta_blocks s = {}"

definition super_block :: "sfs_super \<Rightarrow> u8 list" where
  "super_block sb = patch (replicate 4096 0) 0 (super_bytes sb)"

text \<open>The super block and the free map on disk are those in memory.\<close>

definition meta_on_disk :: "sfs_fs \<Rightarrow> bool" where
  "meta_on_disk s \<longleftrightarrow> span (bytes s) 0 4096 = super_block (super s) \<and>
     span (bytes s) 8192 (sfs_freemap_blocks (super s) * 4096) = words_bytes (bwords (freemap s))"

text \<open>What no operation changes of the volume and of the rings of inodes.\<close>

definition sframe :: "sfs_fs \<Rightarrow> sfs_fs \<Rightarrow> bool" where
  "sframe s s' \<longleftrightarrow> sb_blocks (super s') = sb_blocks (super s) \<and> sb_magic (super s') = sb_magic (super s) \<and> sb_info (super s') = sb_info (super s) \<and>
     nbits (freemap s') = nbits (freemap s) \<and> nwords (freemap s') = nwords (freemap s)"

lemma sframe_put [simp]: "sframe s (put s' n x) = sframe s s'" "sframe (put s n x) s' = sframe s s'"
  by (simp_all add: sframe_def)

lemma frame_sframe: "frame s s' \<Longrightarrow> sframe s s'"
  by (simp add: frame_def sframe_def)

lemma sframe_trans: "sframe s s1 \<Longrightarrow> sframe s1 s2 \<Longrightarrow> sframe s s2"
  by (simp add: sframe_def)

lemma sframe_meta: "sframe s s' \<Longrightarrow> meta_blocks s' = meta_blocks s"
  by (simp add: sframe_def meta_blocks_def sfs_freemap_blocks_def)

lemma vol_ok_sframe: "vol_ok s \<Longrightarrow> sframe s s' \<Longrightarrow> fs_ok s' \<Longrightarrow> free s' \<subseteq> free s \<Longrightarrow> vol_ok s'"
  using sframe_meta[of s s'] by (auto simp: vol_ok_def sframe_def sfs_freemap_blocks_def sfs_freemap_bits_def)

lemma vol_ok_put [simp]: "vol_ok (put s n x) = vol_ok s"
  by (simp add: vol_ok_def meta_blocks_def)

lemma blk_ok_sframe: "sframe s s' \<Longrightarrow> blk_ok s' b = blk_ok s b"
  by (simp add: sframe_def blk_ok_def)

text \<open>A step that writes only the blocks of \<open>B\<close> and leaves the rest of the state alone.\<close>

definition touches :: "nat set \<Rightarrow> sfs_fs \<Rightarrow> sfs_fs \<Rightarrow> bool" where
  "touches B s s' \<longleftrightarrow> fs_ok s' \<and> super s' = super s \<and> freemap s' = freemap s \<and> inode_list s' = inode_list s \<and> hash_list s' = hash_list s \<and>
     (\<forall>x. x div 4096 \<notin> B \<longrightarrow> bytes s' x = bytes s x)"

lemma touches_put [simp]: "touches B s (put s' n x) = touches B s s'" "touches B (put s n x) s' = touches B s s'"
  by (simp_all add: touches_def)

lemma touches_buffer: "length b = 4096 \<Longrightarrow> touches B s s' \<Longrightarrow> touches B s (s'\<lparr>sfs_buffer := b\<rparr>)"
    "touches B (s\<lparr>sfs_buffer := b\<rparr>) s' = touches B s s'"
  by (simp_all add: touches_def fs_ok_buffer)

lemma touches_dirty [simp]: "touches B (s\<lparr>super_dirty := v\<rparr>) s' = touches B s s'" "touches B s (s'\<lparr>super_dirty := v\<rparr>) = touches B s s'"
  by (simp_all add: touches_def)

lemma touches_free: "touches B s s' \<Longrightarrow> free s' = free s"
  by (simp add: touches_def free_def)

lemma touches_trans: "touches B s s1 \<Longrightarrow> touches C s1 s2 \<Longrightarrow> touches (B \<union> C) s s2"
  by (auto simp: touches_def)

lemma touches_vol_ok: "touches B s s' \<Longrightarrow> vol_ok s \<Longrightarrow> vol_ok s'"
  by (auto simp: vol_ok_def touches_free meta_blocks_def touches_def)

lemma touches_span: "touches B s s' \<Longrightarrow> (\<And>x. a \<le> x \<Longrightarrow> x < a + n \<Longrightarrow> x div 4096 \<notin> B) \<Longrightarrow> span (bytes s') a n = span (bytes s) a n"
  by (intro span_cong) (simp add: touches_def)

definition keeps :: "sfs_fs \<Rightarrow> sfs_fs \<Rightarrow> bool" where
  "keeps s s' \<longleftrightarrow> super s' = super s \<and> freemap s' = freemap s \<and> super_dirty s' = super_dirty s"

lemma keeps_trans: "keeps s s1 \<Longrightarrow> keeps s1 s2 \<Longrightarrow> keeps s s2"
  by (simp add: keeps_def)

lemma keeps_buffer [simp]: "keeps s (s'\<lparr>sfs_buffer := b\<rparr>) = keeps s s'" "keeps (s\<lparr>sfs_buffer := b\<rparr>) s' = keeps s s'"
  by (simp_all add: keeps_def)

lemma rwblock_keeps: "sfs_rwblock_nolock s buf b wr chk = Some (r, c, s') \<Longrightarrow> keeps s s'"
  by (auto simp: sfs_rwblock_nolock_def bind_eq_Some_conv keeps_def split: if_splits)

lemma sfs_wbuf_keeps: "sfs_wbuf s buf n b off = Some (r, s') \<Longrightarrow> keeps s s'"
  by (auto simp: sfs_wbuf_def bind_eq_Some_conv Let_def split: if_splits dest!: rwblock_keeps intro: keeps_trans)

lemma sfs_rbuf_keeps: "sfs_rbuf s buf n b off = Some (r, c, s') \<Longrightarrow> keeps s s'"
  by (auto simp: sfs_rbuf_def bind_eq_Some_conv Let_def split: if_splits dest!: rwblock_keeps intro: keeps_trans)

lemma sfs_rwblock_keeps: "sfs_rwblock s buf b n wr = Some (r, c, s') \<Longrightarrow> keeps s s'"
proof (induction n arbitrary: s buf b r c)
  case (Suc n)
  then obtain r1 b1 s1 where s1: "sfs_rwblock_nolock s buf b wr True = Some (r1, b1, s1)" by (auto simp: bind_eq_Some_conv)
  show ?case
  proof (cases "r1 = 0")
    case True
    then obtain r2 b2 where "sfs_rwblock s1 (drop 4096 b1) (Suc b) n wr = Some (r2, b2, s')" using Suc.prems s1 by (auto simp: bind_eq_Some_conv)
    from Suc.IH[OF this] show ?thesis using rwblock_keeps[OF s1] keeps_trans by blast
  next
    case False
    then show ?thesis using Suc.prems s1 rwblock_keeps[OF s1] by simp
  qed
qed (simp add: keeps_def)

lemma sfs_wblock_keeps: "sfs_wblock s buf b n = Some (r, s') \<Longrightarrow> keeps s s'"
  by (auto simp: sfs_wblock_def bind_eq_Some_conv dest: sfs_rwblock_keeps)

lemma step_touches:
  assumes "fs_step s (free s) m s'" "keeps s s'"
    "\<And>x. x div 4096 \<notin> B \<Longrightarrow> m x = bytes s x"
  shows "touches B s s' \<and> inodes s' = inodes s \<and> super_dirty s' = super_dirty s \<and> bytes s' = m"
  using assms by (simp add: touches_def fs_step_def frame_def keeps_def)

lemma block_bytes: "(b :: nat) * 4096 \<le> x \<Longrightarrow> x < b * 4096 + n \<Longrightarrow> n \<le> 4096 \<Longrightarrow> x div 4096 = b"
  by (intro div_nat_eqI) auto

lemma touches_block: "touches B s s' \<Longrightarrow> b \<notin> B \<Longrightarrow> n \<le> 4096 \<Longrightarrow> span (bytes s') (b * 4096) n = span (bytes s) (b * 4096) n"
  using block_bytes[of b _ n] by (intro touches_span) auto

lemma touches_sframe: "touches B s s' \<Longrightarrow> sframe s s'"
  by (simp add: touches_def sframe_def)

subsection \<open>An inode written back\<close>

definition node_ok :: "sfs_fs \<Rightarrow> nat \<Rightarrow> bool" where
  "node_ok s node \<longleftrightarrow> (let sin = inodes s node in blk_ok s (sin_ino sin) \<and> sin_ino sin \<notin> free s \<and> sin_ino sin \<notin> meta_blocks s \<and>
     length (din_direct (sin_din sin)) = 12 \<and> 0 \<le> sin_open sin \<and> sin_open sin \<le> sin_ref sin \<and> sin_ref sin < 65536)"

lemma node_ok_check: "node_ok s node \<Longrightarrow> inode_check s node = Some ()"
  by (auto simp: node_ok_def inode_check_def Let_def)

lemma vop_fsync_ok:
  assumes "fs_ok s" "node_ok s node"
  shows "\<exists>s'. vop_fsync s node = Some (0, s') \<and> touches {sin_ino (inodes s node)} s s' \<and> super_dirty s' = super_dirty s \<and>
    inodes s' = (inodes s)(node := (inodes s node)\<lparr>sin_dirty := False\<rparr>) \<and>
    (if sin_dirty (inodes s node) then span (bytes s') (sin_ino (inodes s node) * 4096) 64 = din_bytes (sin_din (inodes s node))
     else bytes s' = bytes s)"
proof (cases "sin_dirty (inodes s node)")
  case True
  let ?i = "inodes s node"
  let ?d = "din_bytes (sin_din ?i)"
  have b: "blk_ok s (sin_ino ?i)" and l: "length ?d = 64" using assms(2) length_din_bytes by (auto simp: node_ok_def Let_def)
  obtain s1 where s1: "sfs_wbuf s ?d 64 (sin_ino ?i) 0 = Some (0, s1)" "fs_step s (free s) (overlay (bytes s) (sin_ino ?i * 4096 + 0) (take 64 ?d)) s1"
    using sfs_wbuf_ok[OF assms(1) b, of 0 64 ?d] l by auto
  have t: "touches {sin_ino ?i} s s1 \<and> inodes s1 = inodes s \<and> super_dirty s1 = super_dirty s \<and> bytes s1 = overlay (bytes s) (sin_ino ?i * 4096 + 0) (take 64 ?d)"
    using l by (intro step_touches[OF s1(2) sfs_wbuf_keeps[OF s1(1)]] overlay_inside) auto
  then have "span (bytes s1) (sin_ino ?i * 4096) 64 = ?d" using l by simp
  with t have "touches {sin_ino ?i} s s1" "inodes s1 = inodes s" "super_dirty s1 = super_dirty s" "span (bytes s1) (sin_ino ?i * 4096) 64 = ?d"
    by blast+
  then show ?thesis using True s1(1) node_ok_check[OF assms(2)]
    by (intro exI[of _ "put s1 node (?i\<lparr>sin_dirty := False\<rparr>)"]) (simp add: vop_fsync_def sfs_fsync_def Let_def)
next
  case False
  then have "inodes s = (inodes s)(node := (inodes s node)\<lparr>sin_dirty := False\<rparr>)" by (cases "inodes s node") (simp add: fun_upd_idem)
  then show ?thesis using False node_ok_check[OF assms(2)] assms(1)
    by (intro exI[of _ s]) (simp add: vop_fsync_def sfs_fsync_def touches_def)
qed

subsection \<open>The super block and the free map written back\<close>

lemma length_super_block: "length (sb_info sb) = 32 \<Longrightarrow> length (super_block sb) = 4096"
  by (simp add: super_block_def super_bytes_def)

lemma length_words [simp]: "length (words_bytes ws) = 4 * length ws"
  by (induction ws) (simp_all add: words_bytes_def)

lemma sync_super_ok:
  assumes "vol_ok s"
  shows "\<exists>s'. sfs_sync_super s = Some (0, s') \<and> touches {0} s s' \<and> inodes s' = inodes s \<and> super_dirty s' = super_dirty s \<and>
    span (bytes s') 0 4096 = super_block (super s)"
proof -
  let ?b = "super_block (super s)"
  have ok: "fs_ok s" "0 < sb_blocks (super s)" and l: "length ?b = 4096" using assms length_super_block by (auto simp: vol_ok_def)
  let ?s = "s\<lparr>sfs_buffer := ?b\<rparr>"
  obtain s1 where s1: "sfs_rwblock_nolock ?s ?b 0 True False = Some (0, ?b, s1)" "fs_step ?s (free ?s) (overlay (bytes ?s) (0 * 4096) (take 4096 ?b)) s1"
    using rwblock_write[OF fs_ok_buffer[OF ok(1) l], of 0 ?b False] ok(2) l by auto
  have t: "touches {0} ?s s1 \<and> inodes s1 = inodes ?s \<and> super_dirty s1 = super_dirty ?s \<and> bytes s1 = overlay (bytes ?s) (0 * 4096) (take 4096 ?b)"
    using l by (intro step_touches[OF s1(2) rwblock_keeps[OF s1(1)]]) (auto simp: overlay_apply)
  then have "span (bytes s1) 0 4096 = ?b" using l by simp
  moreover have "touches {0} s (s1\<lparr>sfs_buffer := ?b\<rparr>)" using t touches_buffer l by blast
  moreover have "inodes s1 = inodes s" "super_dirty s1 = super_dirty s" using t by simp_all
  ultimately have "touches {0} s (s1\<lparr>sfs_buffer := ?b\<rparr>) \<and> inodes s1 = inodes s \<and> super_dirty s1 = super_dirty s \<and> span (bytes s1) 0 4096 = ?b" by blast
  then show ?thesis using s1(1) by (simp add: sfs_sync_super_def Let_def super_block_def)
qed

lemma overlay_blocks_other:
  assumes "length bs = n * 4096" "x div 4096 \<notin> {b..<b + n}"
  shows "overlay m (b * 4096) bs x = m x"
proof -
  have "\<not> (b * 4096 \<le> x \<and> x < b * 4096 + n * 4096)"
  proof
    assume "b * 4096 \<le> x \<and> x < b * 4096 + n * 4096"
    then have "b \<le> x div 4096 \<and> x div 4096 < b + n" by (auto simp: less_mult_imp_div_less less_eq_div_iff_mult_less_eq algebra_simps)
    with assms(2) show False by simp
  qed
  then show ?thesis using assms(1) by (auto simp: overlay_apply)
qed

lemma sync_freemap_ok:
  assumes "vol_ok s"
  shows "\<exists>s'. sfs_sync_freemap s = Some (0, s') \<and> touches {2..<2 + sfs_freemap_blocks (super s)} s s' \<and> inodes s' = inodes s \<and>
    super_dirty s' = super_dirty s \<and> span (bytes s') 8192 (sfs_freemap_blocks (super s) * 4096) = words_bytes (bwords (freemap s))"
proof -
  let ?n = "sfs_freemap_blocks (super s)" and ?w = "words_bytes (bwords (freemap s))"
  have ok: "fs_ok s" "2 + ?n \<le> sb_blocks (super s)" and l: "length ?w = ?n * 4096"
    using assms by (auto simp: vol_ok_def fs_ok_def bitmap_inv_def)
  obtain s1 where s1: "sfs_rwblock s ?w 2 ?n True = Some (0, ?w, s1)" "fs_step s (free s) (overlay (bytes s) (2 * 4096) (take (?n * 4096) ?w)) s1"
    using sfs_rwblock_write[OF ok(1) _ ok(2), of ?w] l by auto
  have t: "touches {2..<2 + ?n} s s1 \<and> inodes s1 = inodes s \<and> super_dirty s1 = super_dirty s \<and> bytes s1 = overlay (bytes s) (2 * 4096) (take (?n * 4096) ?w)"
    using l by (intro step_touches[OF s1(2) sfs_rwblock_keeps[OF s1(1)]] overlay_blocks_other) auto
  then have "span (bytes s1) 8192 (?n * 4096) = ?w" using l by simp
  moreover have "sfs_sync_freemap s = Some (0, s1)" using s1(1) by (simp add: sfs_sync_freemap_def sfs_wblock_def bitmap_getdata_def)
  ultimately show ?thesis using t by blast
qed

lemma sync_meta_ok:
  assumes "vol_ok s"
  shows "\<exists>s1 s2. sfs_sync_super s = Some (0, s1) \<and> sfs_sync_freemap s1 = Some (0, s2) \<and> touches (meta_blocks s) s s2 \<and>
    inodes s2 = inodes s \<and> super_dirty s2 = super_dirty s \<and> meta_on_disk s2"
proof -
  let ?n = "sfs_freemap_blocks (super s)"
  obtain s1 where s1: "sfs_sync_super s = Some (0, s1)" "touches {0} s s1" "inodes s1 = inodes s" "super_dirty s1 = super_dirty s"
      "span (bytes s1) 0 4096 = super_block (super s)"
    using sync_super_ok[OF assms] by blast
  have e: "super s1 = super s" "freemap s1 = freemap s" using s1(2) by (simp_all add: touches_def)
  obtain s2 where s2: "sfs_sync_freemap s1 = Some (0, s2)" "touches {2..<2 + ?n} s1 s2" "inodes s2 = inodes s1" "super_dirty s2 = super_dirty s1"
      "span (bytes s2) 8192 (?n * 4096) = words_bytes (bwords (freemap s))"
    using sync_freemap_ok[OF touches_vol_ok[OF s1(2) assms]] e by auto
  have "span (bytes s2) 0 4096 = span (bytes s1) 0 4096" using s2(2) by (rule touches_span) auto
  then have "meta_on_disk s2" using s1(5) s2(2,5) e by (simp add: meta_on_disk_def touches_def)
  moreover have "touches (meta_blocks s) s s2" using touches_trans[OF s1(2) s2(2)] by (simp add: meta_blocks_def)
  ultimately show ?thesis using s1 s2 by auto
qed

subsection \<open>Files while other blocks change\<close>

lemma file_ok_transfer:
  assumes "file_ok s din" "sb_blocks (super s') = sb_blocks (super s)" "free s' \<inter> owned (bytes s) din = {}"
    and "\<forall>x. din_indirect din \<noteq> 0 \<and> x div 4096 = din_indirect din \<longrightarrow> bytes s' x = bytes s x"
  shows "file_ok s' din" "i < 1036 \<Longrightarrow> bmap (bytes s') din i = bmap (bytes s) din i" "owned (bytes s') din = owned (bytes s) din"
proof -
  have b: "bmap (bytes s') din i = bmap (bytes s) din i" if "i < 1036" for i using that assms(4) by (intro bmap_cong) auto
  then show "i < 1036 \<Longrightarrow> bmap (bytes s') din i = bmap (bytes s) din i" .
  have n: "din_blocks din \<le> 1036" using file_okD(2)[OF assms(1)] .
  then have d: "data_blocks (bytes s') din = data_blocks (bytes s) din" unfolding data_blocks_def using b by (intro image_cong) auto
  then show o: "owned (bytes s') din = owned (bytes s) din" by (simp add: owned_def)
  have "inj_on (bmap (bytes s') din) {..<din_blocks din} = inj_on (bmap (bytes s) din) {..<din_blocks din}"
    using b n by (intro inj_on_cong) auto
  then show "file_ok s' din" using assms(1-3) b d o by (auto simp: file_ok_def blk_ok_def)
qed

lemma dirent_transfer:
  assumes "file_ok s din" "i < din_blocks din" "bmap (bytes s') din i = bmap (bytes s) din i"
    and "\<And>x. x div 4096 = bmap (bytes s) din i \<Longrightarrow> bytes s' x = bytes s x"
  shows "dirent (bytes s') din i = dirent (bytes s) din i"
proof -
  have "span (bytes s') (bmap (bytes s) din i * 4096) 260 = span (bytes s) (bmap (bytes s) din i * 4096) 260"
    by (intro span_cong assms(4) div_nat_eqI) auto
  then show ?thesis using assms(3) by (simp add: dirent_def)
qed

subsection \<open>Loading an inode\<close>

definition fresh_sin :: "sfs_disk_inode \<Rightarrow> nat \<Rightarrow> sfs_inode" where
  "fresh_sin din ino = \<lparr>sin_din = din, sin_ino = ino, sin_dirty = False, sin_reclaim = 1, sin_ref = 1, sin_open = 0\<rparr>"

lemma load_inode_fresh:
  assumes "fs_ok s" "blk_ok s ino" "ino \<notin> free s" and nl: "\<forall>n \<in> set (hash_list s (sin_hashfn ino)). sin_ino (inodes s n) \<noteq> ino"
    and d: "span (bytes s) (ino * 4096) 64 = din_bytes din" "din_wf din" "din_nlinks din \<noteq> 0" "din_type din \<in> {SFS_TYPE_DIR, SFS_TYPE_FILE}"
  shows "\<exists>s'. sfs_load_inode s ino True (Some sub) = Some (0, sub, s') \<and> fs_ok s' \<and> bytes s' = bytes s \<and> super s' = super s \<and>
    freemap s' = freemap s \<and> super_dirty s' = super_dirty s \<and> inodes s' = (inodes s)(sub := fresh_sin din ino) \<and>
    inode_list s' = sub # inode_list s \<and> hash_list s' = (hash_list s)(sin_hashfn ino := sub # hash_list s (sin_hashfn ino))"
proof -
  have lk: "lookup_sfs_nolock s ino = (None, s)" using nl by (simp add: lookup_sfs_nolock_def find_None_iff split: option.splits)
      (auto simp: find_Some_iff)
  obtain s1 where s1: "sfs_rbuf s (replicate 64 0) 64 ino 0 = Some (0, patch (replicate 64 0) 0 (span (bytes s) (ino * 4096 + 0) 64), s1)"
      "fs_step s (free s) (bytes s) s1"
    using sfs_rbuf_ok[OF assms(1,2), of 0 64 "replicate 64 0"] by auto
  have p: "patch (replicate 64 0) 0 (span (bytes s) (ino * 4096 + 0) 64) = din_bytes din"
    using d(1) length_span[of "bytes s" "ino * 4096" 64] by (simp add: patch_0_all)
  have dr: "din_of (din_bytes din) = din" using din_roundtrip[OF d(2), of "[]"] by simp
  have k: "keeps s s1" using sfs_rbuf_keeps[OF s1(1)] .
  let ?s2 = "put s1 sub (fresh_sin din ino)"
  have c: "sfs_create_inode s1 din ino (Some sub) = Some (0, sub, ?s2)" using d(4) by (auto simp: sfs_create_inode_def fresh_sin_def)
  have "sfs_load_inode s ino True (Some sub) = Some (0, sub, sfs_set_links ?s2 sub)"
    using lk sfs_block_inuse_ok[OF assms(1,2)] assms(3) s1(1)[unfolded p] d(3) dr c by (simp add: sfs_load_inode_def)
  moreover have "fs_ok (sfs_set_links ?s2 sub)" using fs_step_ok[OF s1(2)] by (simp add: sfs_set_links_def Let_def fs_ok_def free_def)
  moreover have "bytes (sfs_set_links ?s2 sub) = bytes s" using s1(2) by (simp add: sfs_set_links_def Let_def bytes_def fs_step_def)
  ultimately show ?thesis using s1(2) k by (auto simp: sfs_set_links_def Let_def keeps_def fs_step_def frame_def fresh_sin_def)
qed

end
