(* ===== verification/Sfs_Dir.thy ===== *)
theory Sfs_Dir
  imports Sfs_Vol
begin

text \<open>
  The operations on directories (\<^verbatim>\<open>kern/fs/sfs/sfs_inode.c\<close>): looking up a name, creating files and
  directories, deleting, renaming, and the path of a directory. Values the code reads before setting
  them, and the memory \<^verbatim>\<open>kmalloc\<close> hands out, are arguments. Memory that is written to disk as a whole
  block is the content of the 4096 bytes from its address on, outside the structure as it is when it is
  written; \<open>None\<close> for memory that is written through unchecked is a fault in the kernel.
\<close>

subsection \<open>Looking up a name\<close>

record lookup_mem =
  search_mem :: "sfs_disk_entry option"
  din_mem :: bool
  node_mem :: "nat option"

text \<open>The inode and the slot of the name, when it is there and its inode can be loaded.\<close>

definition sfs_lookup_once :: "sfs_fs \<Rightarrow> nat \<Rightarrow> u8 list \<Rightarrow> lookup_mem \<Rightarrow> (int \<times> (nat \<times> nat) option \<times> sfs_fs) option" where
  "sfs_lookup_once s node name lm = do {
     (r, found, _, s1, sin1) \<leftarrow> sfs_dirent_search_nolock s (inodes s node) name (search_mem lm);
     let s2 = put s1 node sin1;
     (case found of
        None \<Rightarrow> Some (r, None, s2)
      | Some (ino, slot) \<Rightarrow> do {
          (r2, sub, s3) \<leftarrow> sfs_load_inode s2 ino (din_mem lm) (node_mem lm);
          Some (r2, if r2 = 0 then Some (sub, slot) else None, s3) }) }"

definition sfs_lookup :: "sfs_fs \<Rightarrow> nat \<Rightarrow> u8 list \<Rightarrow> lookup_mem \<Rightarrow> (int \<times> nat option \<times> sfs_fs) option" where
  "sfs_lookup s node path lm = do {
     kassert (path \<noteq> [] \<and> hd path \<noteq> 47);
     let s1 = snd (inode_ref_inc s node);
     if din_type (sin_din (inodes s1 node)) \<noteq> SFS_TYPE_DIR then do {
       (_, s2) \<leftarrow> inode_ref_dec s1 node;
       Some (- E_NOTDIR, None, s2) }
     else do {
       (r, found, s2) \<leftarrow> sfs_lookup_once s1 node path lm;
       (_, s3) \<leftarrow> inode_ref_dec s2 node;
       Some (r, map_option fst found, s3) } }"

subsection \<open>Writing back\<close>

text \<open>
  The end of creating and deleting: the inode of the directory is written back, and the super block
  and free map if they have changed; \<open>r\<close> is the value of \<^verbatim>\<open>ret\<close> so far.
\<close>

definition sfs_flush :: "sfs_fs \<Rightarrow> nat \<Rightarrow> int \<Rightarrow> (int \<times> sfs_fs) option" where
  "sfs_flush s node r = do {
     (_, s1) \<leftarrow> vop_fsync s node;
     if super_dirty s1 then do {
       (_, s2) \<leftarrow> sfs_sync_super (s1\<lparr>super_dirty := False\<rparr>);
       sfs_sync_freemap s2 }
     else Some (r, s1) }"

definition recount :: "sfs_fs \<Rightarrow> nat \<Rightarrow> nat \<Rightarrow> sfs_fs" where
  "recount s node k = (let sin = inodes s node in
     put s node ((set_blocks sin ((din_blocks (sin_din sin) + k) mod 2 ^ 32))\<lparr>sin_dirty := True\<rparr>))"

subsection \<open>Creating\<close>

record create_mem =
  entry_mem :: "u8 list option"
  inode_mem :: "u8 list option"
  load_mem :: lookup_mem
  stray_index :: nat
  stray_node :: nat
  stray_indirect :: nat

text \<open>The number \<^verbatim>\<open>sfs_block_alloc\<close> stores, unless the free map is exhausted.\<close>

definition stored :: "int \<Rightarrow> nat \<Rightarrow> nat \<Rightarrow> nat" where
  "stored r ino stray = (if r = - E_NO_MEM then stray else ino)"

definition entry_bytes :: "nat \<Rightarrow> u8 list \<Rightarrow> u8 list" where
  "entry_bytes ino name = le_bytes 4 ino @ name @ [0]"

definition new_file :: sfs_disk_inode where
  "new_file = \<lparr>din_size = 0, din_type = SFS_TYPE_FILE, din_nlinks = 1, din_blocks = 0, din_direct = replicate 12 0, din_indirect = 0\<rparr>"

definition new_dir :: "nat \<Rightarrow> sfs_disk_inode" where
  "new_dir ent = \<lparr>din_size = 4096, din_type = SFS_TYPE_DIR, din_nlinks = 1, din_blocks = 0, din_direct = replicate 12 0, din_indirect = ent\<rparr>"

definition sfs_create :: "sfs_fs \<Rightarrow> nat \<Rightarrow> u8 list \<Rightarrow> bool \<Rightarrow> create_mem \<Rightarrow> (int \<times> nat option \<times> sfs_fs) option" where
  "sfs_create s node name excl cm = do {
     let s1 = snd (inode_ref_inc s node);
     let sin = inodes s1 node;
     if din_type (sin_din sin) \<noteq> SFS_TYPE_DIR then do {
       (_, s2) \<leftarrow> inode_ref_dec s1 node;
       Some (- E_NOTDIR, None, s2) }
     else do {
       (r, b, s2, sin1) \<leftarrow> sfs_bmap_get_nolock s1 sin (din_blocks (sin_din sin)) True;
       let indexAddr = (if r = 0 then b else stray_index cm);
       (r2, f, s3) \<leftarrow> sfs_block_alloc (put s2 node sin1);
       let fileNodeAddr = stored r2 f (stray_node cm);
       em \<leftarrow> entry_mem cm;
       im \<leftarrow> inode_mem cm;
       (r3, s4) \<leftarrow> sfs_wblock s3 (patch em 0 (entry_bytes fileNodeAddr (take 256 name))) indexAddr 1;
       kassert (r3 = 0);
       (r4, s5) \<leftarrow> sfs_wblock s4 (patch im 0 (din_bytes new_file)) fileNodeAddr 1;
       kassert (r4 = 0);
       (r5, sub, s6) \<leftarrow> sfs_load_inode s5 fileNodeAddr (din_mem (load_mem cm)) (node_mem (load_mem cm));
       (r6, s7) \<leftarrow> sfs_flush (recount s6 node 1) node r4;
       (_, s8) \<leftarrow> inode_ref_dec s7 node;
       Some (r6, if r5 = 0 then Some sub else None, s8) } }"

definition sfs_mkdir :: "sfs_fs \<Rightarrow> nat \<Rightarrow> u8 list \<Rightarrow> create_mem \<Rightarrow> (int \<times> sfs_fs) option" where
  "sfs_mkdir s node name cm = do {
     let s1 = snd (inode_ref_inc s node);
     let sin = inodes s1 node;
     if din_type (sin_din sin) \<noteq> SFS_TYPE_DIR then do {
       (_, s2) \<leftarrow> inode_ref_dec s1 node;
       Some (- E_NOTDIR, s2) }
     else do {
       (r, b, s2, sin1) \<leftarrow> sfs_bmap_get_nolock s1 sin (din_blocks (sin_din sin)) True;
       let indexAddr = (if r = 0 then b else stray_index cm);
       (r2, f, s3) \<leftarrow> sfs_block_alloc (put s2 node sin1);
       let newDirNodeAddr = stored r2 f (stray_node cm);
       (r3, g, s4) \<leftarrow> sfs_block_alloc s3;
       let newDirIndirectAddr = stored r3 g (stray_indirect cm);
       im \<leftarrow> inode_mem cm;
       em \<leftarrow> entry_mem cm;
       (_, s5) \<leftarrow> sfs_wblock (recount s4 node 1) (patch em 0 (entry_bytes newDirNodeAddr (take 256 name))) indexAddr 1;
       (r5, s6) \<leftarrow> sfs_wblock s5 (patch im 0 (din_bytes (new_dir newDirIndirectAddr))) newDirNodeAddr 1;
       (r6, s7) \<leftarrow> sfs_flush s6 node r5;
       (_, s8) \<leftarrow> inode_ref_dec s7 node;
       Some (r6, s8) } }"

subsection \<open>Deleting and renaming\<close>

definition slot_off :: "nat \<Rightarrow> nat" where
  "slot_off slot = ((slot - 12) * 4) mod 2 ^ 32"

text \<open>
  \<^verbatim>\<open>sfs_dir_entry_replace\<close> ends early when a transfer fails, and returns the error; the inode it has
  changed so far is returned as well.
\<close>

definition replace_src :: "sfs_fs \<Rightarrow> sfs_inode \<Rightarrow> nat \<Rightarrow> (int \<times> nat \<times> sfs_fs \<times> sfs_inode) option" where
  "replace_src s sin src_slot = (let din = sin_din sin in
     if src_slot < 12 then Some (0, din_direct din ! src_slot, s, sin\<lparr>sin_din := din\<lparr>din_direct := (din_direct din)[src_slot := 0]\<rparr>\<rparr>)
     else do {
       (r, b, s1) \<leftarrow> sfs_rbuf s (le_bytes 4 0) 4 (din_indirect din) (slot_off src_slot);
       if r \<noteq> 0 then Some (r, 0, s1, sin)
       else do {
         (r2, s2) \<leftarrow> sfs_wbuf s1 (le_bytes 4 0) 4 (din_indirect din) (slot_off src_slot);
         Some (r2, le_nat b, s2, sin) } })"

definition sfs_dir_entry_replace :: "sfs_fs \<Rightarrow> sfs_inode \<Rightarrow> nat \<Rightarrow> nat \<Rightarrow> (int \<times> sfs_fs \<times> sfs_inode) option" where
  "sfs_dir_entry_replace s sin src_slot des_slot = do {
     (r, src, s1, sin1) \<leftarrow> replace_src s sin src_slot;
     let din = sin_din sin1;
     if r \<noteq> 0 then Some (r, s1, sin1)
     else if des_slot < 12 then Some (0, s1, sin1\<lparr>sin_din := din\<lparr>din_direct := (din_direct din)[des_slot := src]\<rparr>\<rparr>)
     else do {
       (r2, s2) \<leftarrow> sfs_wbuf s1 (le_bytes 4 src) 4 (din_indirect din) (slot_off des_slot);
       Some (r2, s2, sin1) } }"

text \<open>The loop over the blocks of the file, which shortens the directory \<open>node\<close>.\<close>

fun delete_blocks :: "sfs_fs \<Rightarrow> nat \<Rightarrow> nat \<Rightarrow> sfs_fs option" where
  "delete_blocks s node 0 = Some s"
| "delete_blocks s node (Suc n) = do {
     (_, s1, sin1) \<leftarrow> sfs_bmap_truncate_nolock s (inodes s node);
     delete_blocks (put s1 node sin1) node n }"

text \<open>What both branches of \<^verbatim>\<open>sfs_delete\<close> do once the blocks of the file or directory are freed.\<close>

definition delete_entry :: "sfs_fs \<Rightarrow> nat \<Rightarrow> u8 list \<Rightarrow> nat \<Rightarrow> sfs_disk_entry option \<Rightarrow> nat \<Rightarrow> int \<Rightarrow> (int \<times> sfs_fs) option" where
  "delete_entry s node name slot mem stray r = do {
     (_, found, _, s1, sin1) \<leftarrow> sfs_dirent_search_nolock s (inodes s node) name mem;
     s2 \<leftarrow> sfs_block_free (put s1 node sin1) (case found of None \<Rightarrow> stray | Some (ino, _) \<Rightarrow> ino);
     (_, s3, sin3) \<leftarrow> sfs_bmap_free_nolock s2 (inodes s2 node) slot;
     (_, s4, sin4) \<leftarrow> sfs_dir_entry_replace s3 sin3 ((din_blocks (sin_din sin3) + (2 ^ 32 - 1)) mod 2 ^ 32) slot;
     sfs_flush (recount (put s4 node sin4) node (2 ^ 32 - 1)) node r }"

definition sfs_delete :: "sfs_fs \<Rightarrow> nat \<Rightarrow> u8 list \<Rightarrow> nat \<Rightarrow> lookup_mem \<Rightarrow> sfs_disk_entry option \<Rightarrow> nat \<Rightarrow> int \<Rightarrow> (int \<times> sfs_fs) option" where
  "sfs_delete s node name type lm mem stray stray_ret = do {
     let s1 = snd (inode_ref_inc s node);
     if type = 1 then
       (if din_type (sin_din (inodes s1 node)) \<noteq> SFS_TYPE_DIR then do {
          (_, s2) \<leftarrow> inode_ref_dec s1 node;
          Some (- E_NOTDIR, s2) }
        else do {
          (r, found, s2) \<leftarrow> sfs_lookup_once s1 node name lm;
          (case found of
             None \<Rightarrow> Some (r, s2)
           | Some (sub, slot) \<Rightarrow> do {
               s3 \<leftarrow> delete_blocks s2 node (din_blocks (sin_din (inodes s2 sub)));
               (r2, s4) \<leftarrow> delete_entry s3 node name slot mem stray r;
               (_, s5) \<leftarrow> inode_ref_dec s4 node;
               Some (r2, s5) }) })
     else if type = 2 then do {
       (r, found, s2) \<leftarrow> sfs_lookup_once s1 node name lm;
       (case found of
          None \<Rightarrow> Some (r, s2)
        | Some (sub, slot) \<Rightarrow> do {
            s3 \<leftarrow> sfs_block_free s2 (din_indirect (sin_din (inodes s2 sub)));
            (r2, s4) \<leftarrow> delete_entry s3 node name slot mem stray r;
            (_, s5) \<leftarrow> inode_ref_dec s4 node;
            Some (r2, s5) }) }
     else do {
       (_, s2) \<leftarrow> inode_ref_dec s1 node;
       Some (stray_ret, s2) } }"

definition sfs_rename :: "sfs_fs \<Rightarrow> nat \<Rightarrow> u8 list \<Rightarrow> u8 list \<Rightarrow> lookup_mem \<Rightarrow> u8 list option \<Rightarrow> nat \<Rightarrow> (int \<times> sfs_fs) option" where
  "sfs_rename s node old_name new_name lm mem stray = do {
     let s1 = snd (inode_ref_inc s node);
     if din_type (sin_din (inodes s1 node)) \<noteq> SFS_TYPE_DIR then do {
       (_, s2) \<leftarrow> inode_ref_dec s1 node;
       Some (- E_NOTDIR, s2) }
     else do {
       (r, found, s2) \<leftarrow> sfs_lookup_once s1 node old_name lm;
       (case found of
          None \<Rightarrow> Some (r, s2)
        | Some (sub, slot) \<Rightarrow> do {
            (r2, b, s3, sin3) \<leftarrow> sfs_bmap_load_nolock s2 (inodes s2 node) slot;
            let s4 = put s3 node sin3;
            let index = (if r2 = 0 then b else stray);
            em \<leftarrow> mem;
            (_, s5) \<leftarrow> sfs_clear_block s4 index 1;
            (r3, s6) \<leftarrow> sfs_wblock s5 (patch em 0 (entry_bytes (sin_ino (inodes s5 sub)) (take 255 new_name))) index 1;
            (_, s7) \<leftarrow> vop_fsync (put s6 node ((inodes s6 node)\<lparr>sin_dirty := True\<rparr>)) node;
            (_, s8) \<leftarrow> inode_ref_dec s7 node;
            Some (r3, s8) }) } }"

subsection \<open>The path of a directory\<close>

text \<open>
  The state of the loop of \<^verbatim>\<open>sfs_namefile\<close>: the directory it is at, the place in the buffer the path has
  grown down to, the room that is left, and the buffer. Each round asks for memory of its own.
\<close>

record name_walk =
  walk_fs :: sfs_fs
  walk_node :: nat
  walk_ptr :: nat
  walk_resid :: nat
  walk_mem :: "u8 list"
  walk_round :: nat

definition namefile_failed :: "int \<Rightarrow> nat \<Rightarrow> name_walk \<Rightarrow> (int \<times> name_walk + name_walk) option" where
  "namefile_failed r node w = do {
     (_, s) \<leftarrow> inode_ref_dec (walk_fs w) node;
     Some (Inl (r, w\<lparr>walk_fs := s\<rparr>)) }"

definition namefile_step :: "(nat \<Rightarrow> lookup_mem) \<Rightarrow> sfs_disk_entry \<Rightarrow> name_walk \<Rightarrow> (int \<times> name_walk + name_walk) option" where
  "namefile_step lms entry w = do {
     let node = walk_node w;
     (r, found, s1) \<leftarrow> sfs_lookup_once (walk_fs w) node [46, 46] (lms (walk_round w));
     (case found of
        None \<Rightarrow> namefile_failed r node (w\<lparr>walk_fs := s1\<rparr>)
      | Some (parent, _) \<Rightarrow> do {
          let ino = sin_ino (inodes s1 node);
          (_, s2) \<leftarrow> inode_ref_dec s1 node;
          if node = parent then do {
            (_, s3) \<leftarrow> inode_ref_dec s2 node;
            Some (Inl (0, w\<lparr>walk_fs := s3\<rparr>)) }
          else do {
            let sin = inodes s2 parent;
            kassert (ino \<noteq> sin_ino sin \<and> din_type (sin_din sin) = SFS_TYPE_DIR);
            (r2, e, s3, sin3) \<leftarrow> sfs_dirent_findino_nolock s2 sin ino 0 (din_blocks (sin_din sin)) entry;
            let w3 = w\<lparr>walk_fs := put s3 parent sin3, walk_node := parent, walk_round := Suc (walk_round w)\<rparr>;
            if r2 \<noteq> 0 then namefile_failed r2 parent w3
            else do {
              n \<leftarrow> strlen (ent_name e);
              let alen = n + 1;
              if alen > walk_resid w then namefile_failed (- E_NO_MEM) parent w3
              else Some (Inr (w3\<lparr>walk_resid := walk_resid w - alen, walk_ptr := walk_ptr w - alen,
                walk_mem := patch (walk_mem w) (walk_ptr w - alen) (take n (ent_name e) @ [47])\<rparr>)) } } }) }"

partial_function (option) namefile_loop :: "(nat \<Rightarrow> lookup_mem) \<Rightarrow> sfs_disk_entry \<Rightarrow> name_walk \<Rightarrow> (int \<times> name_walk) option" where
  "namefile_loop lms entry w =
     namefile_step lms entry w \<bind> (\<lambda>x. if isl x then Some (projl x) else namefile_loop lms entry (projr x))"

definition sfs_namefile :: "sfs_fs \<Rightarrow> nat \<Rightarrow> iobuf \<Rightarrow> sfs_disk_entry option \<Rightarrow> (nat \<Rightarrow> lookup_mem) \<Rightarrow> (int \<times> iobuf \<times> sfs_fs) option" where
  "sfs_namefile s node iob mem lms =
     (if io_resid iob \<le> 2 then Some (- E_NO_MEM, iob, s)
      else (case mem of
        None \<Rightarrow> Some (- E_NO_MEM, iob, s)
      | Some entry \<Rightarrow> do {
          let s1 = snd (inode_ref_inc s node);
          (r, w) \<leftarrow> namefile_loop lms entry
            \<lparr>walk_fs = s1, walk_node = node, walk_ptr = io_base iob + io_resid iob, walk_resid = io_resid iob - 2,
             walk_mem = io_mem iob, walk_round = 0\<rparr>;
          if r \<noteq> 0 then Some (r, iob\<lparr>io_mem := walk_mem w\<rparr>, walk_fs w)
          else do {
            let alen = io_resid iob - walk_resid w - 2;
            let text = take alen (drop (walk_ptr w) (walk_mem w));
            iob1 \<leftarrow> iobuf_skip (iob\<lparr>io_mem := patch (walk_mem w) (io_base iob) (47 # text @ [0])\<rparr>) alen;
            Some (0, iob1, walk_fs w) } }))"

subsection \<open>Creating a file\<close>

lemma sfs_flush_ok:
  assumes "vol_ok s" "node_ok s node" and i: "ino = sin_ino (inodes s node)"
  shows "\<exists>s'. sfs_flush s node 0 = Some (0, s') \<and> touches (insert ino (meta_blocks s)) s s' \<and>
    inodes s' = (inodes s)(node := (inodes s node)\<lparr>sin_dirty := False\<rparr>) \<and> (super_dirty s \<longrightarrow> meta_on_disk s') \<and>
    (sin_dirty (inodes s node) \<longrightarrow> span (bytes s') (ino * 4096) 64 = din_bytes (sin_din (inodes s node)))"
proof -
  have ok: "fs_ok s" using assms(1) by (simp add: vol_ok_def)
  obtain s1 where s1: "vop_fsync s node = Some (0, s1)" "touches {ino} s s1" "super_dirty s1 = super_dirty s"
      "inodes s1 = (inodes s)(node := (inodes s node)\<lparr>sin_dirty := False\<rparr>)"
      "sin_dirty (inodes s node) \<longrightarrow> span (bytes s1) (ino * 4096) 64 = din_bytes (sin_din (inodes s node))"
    using vop_fsync_ok[OF ok assms(2)] unfolding i by (metis (no_types, lifting))
  have m: "meta_blocks s1 = meta_blocks s" using sframe_meta[OF touches_sframe[OF s1(2)]] .
  show ?thesis
  proof (cases "super_dirty s")
    case True
    let ?s = "s1\<lparr>super_dirty := False\<rparr>"
    have v: "vol_ok ?s" using touches_vol_ok[OF s1(2) assms(1)] by (simp add: vol_ok_def meta_blocks_def)
    obtain s2 s3 where s3: "sfs_sync_super ?s = Some (0, s2)" "sfs_sync_freemap s2 = Some (0, s3)" "touches (meta_blocks ?s) ?s s3"
        "inodes s3 = inodes ?s" "meta_on_disk s3"
      using sync_meta_ok[OF v] by blast
    have t: "touches (meta_blocks s) s1 s3" using s3(3) m by simp
    have "ino \<notin> meta_blocks s" using assms(2) i by (simp add: node_ok_def Let_def)
    then have "span (bytes s3) (ino * 4096) 64 = span (bytes s1) (ino * 4096) 64"
      by (intro touches_block[OF t]) auto
    then show ?thesis using True s1 s3 touches_trans[OF s1(2) t] by (intro exI[of _ s3]) (simp add: sfs_flush_def)
  next
    case False
    have "touches (insert ino (meta_blocks s)) s s1" using s1(2) by (auto simp: touches_def)
    then show ?thesis using False s1 by (intro exI[of _ s1]) (simp add: sfs_flush_def)
  qed
qed

lemma entry_of_bytes:
  assumes "0 \<notin> set name" "length name \<le> 255" "ino < 2 ^ 32" "260 \<le> length em"
  shows "ent_ino (entry_of (take 260 (patch em 0 (entry_bytes ino name)))) = ino"
    "cstr (ent_name (entry_of (take 260 (patch em 0 (entry_bytes ino name))))) = name"
proof -
  let ?t = "drop (5 + length name) em"
  have p: "patch em 0 (entry_bytes ino name) = le_bytes 4 ino @ name @ 0 # ?t" by (simp add: patch_def entry_bytes_def)
  show "ent_ino (entry_of (take 260 (patch em 0 (entry_bytes ino name)))) = ino"
    unfolding p using assms(3) by (simp add: entry_of_def)
  have "ent_name (entry_of (take 260 (patch em 0 (entry_bytes ino name)))) = take 255 (name @ 0 # ?t) @ [0]"
    unfolding p using assms(2) by (simp add: entry_of_def)
  moreover have "cstr (take 255 (name @ 0 # ?t) @ [0]) = name"
    using assms(1,2) by (cases "length name = 255") (auto simp: cstr_def takeWhile_append take_Cons')
  ultimately show "cstr (ent_name (entry_of (take 260 (patch em 0 (entry_bytes ino name))))) = name" by simp
qed

lemma block_alloc_dirty: "sfs_block_alloc s = Some (0, b, s') \<Longrightarrow> super_dirty s'"
  by (auto simp: sfs_block_alloc_def sfs_clear_block_def Let_def bind_eq_Some_conv keeps_def split: if_splits dest!: rwblock_keeps)

lemma create_blocks:
  assumes ok: "fs_ok s" "file_ok s (sin_din sin)" and n: "n = din_blocks (sin_din sin)" "n < 1036"
    and fr: "need (sin_din sin) (Suc n) < card (free s)" and l: "\<And>f. 4096 \<le> length (eb f)" "4096 \<le> length ib"
  shows "\<exists>b s2 sin1 f s3 s4 s5. sfs_bmap_get_nolock s sin n True = Some (0, b, s2, sin1) \<and> added s sin b s2 sin1 \<and>
    sfs_block_alloc (put s2 node sin1) = Some (0, f, s3) \<and> f \<in> free s2 \<and> sfs_wblock s3 (eb f) b 1 = Some (0, s4) \<and>
    sfs_wblock s4 ib f 1 = Some (0, s5) \<and> super_dirty s5 \<and> fs_step (put s2 node sin1) (free s2 - {f}) (bytes s5) s5 \<and>
    span (bytes s5) (b * 4096) 260 = take 260 (eb f) \<and> span (bytes s5) (f * 4096) 64 = take 64 ib \<and>
    (\<forall>x. x div 4096 \<notin> {b, f} \<longrightarrow> bytes s5 x = bytes s2 x)"
proof -
  obtain b s2 sin1 where g: "sfs_bmap_get_nolock s sin n True = Some (0, b, s2, sin1)" "added s sin b s2 sin1"
    using bmap_get_append[OF ok n] fr by auto
  let ?s2 = "put s2 node sin1"
  have a: "fs_ok s2" "b \<in> free s" "free s2 = free s - {b, din_indirect (sin_din sin1)}" using g(2) by (simp_all add: added_def)
  have "free ?s2 \<noteq> {}" using added_card[OF g(2) ok] fr n(1) by auto
  then obtain f s3 where f: "sfs_block_alloc ?s2 = Some (0, f, s3)" "f \<in> free s2"
      "fs_step ?s2 (free s2 - {f}) (overlay (bytes s2) (f * 4096) (replicate 4096 0)) s3"
    using sfs_block_alloc_ok[of ?s2] a(1) by auto
  have bf: "b \<noteq> f" using f(2) a(3) by auto
  have "blk_ok s2 c = blk_ok s c" for c using g(2) blk_ok_sframe[OF frame_sframe, of s s2] by (simp add: added_def)
  then have bk: "blk_ok s3 b" "blk_ok s3 f"
    using free_blk_ok[OF ok(1) a(2)] free_blk_ok[OF a(1) f(2)] blk_ok_step[OF f(3)] by simp_all
  obtain s4 where s4: "sfs_wblock s3 (eb f) b 1 = Some (0, s4)" "fs_step s3 (free s3) (overlay (bytes s3) (b * 4096) (take 4096 (eb f))) s4"
    using sfs_wblock_ok[OF fs_step_ok[OF f(3)] bk(1) l(1)] by blast
  obtain s5 where s5: "sfs_wblock s4 ib f 1 = Some (0, s5)" "fs_step s4 (free s4) (overlay (bytes s4) (f * 4096) (take 4096 ib)) s5"
    using sfs_wblock_ok[OF fs_step_ok[OF s4(2)] _ l(2), of f] blk_ok_step[OF s4(2)] bk(2) by blast
  have m: "bytes s5 = overlay (overlay (overlay (bytes s2) (f * 4096) (replicate 4096 0)) (b * 4096) (take 4096 (eb f))) (f * 4096) (take 4096 ib)"
    using f(3) s4(2) s5(2) by (simp add: fs_step_def)
  have fr5: "free s5 = free s2 - {f}" using f(3) s4(2) s5(2) by (simp add: fs_step_def)
  have st: "fs_step ?s2 (free s2 - {f}) (bytes s5) s5" using fs_step_trans[OF fs_step_trans[OF f(3) s4(2)] s5(2)] fr5 by (simp add: fs_step_def)
  have ov: "overlay q (c * 4096) (take 4096 bs) x = q x" if "x div 4096 \<noteq> c" "4096 \<le> length bs" for q c bs x
    using overlay_inside[of 0 "take 4096 bs" x c q] that by simp
  have "bytes s5 x = bytes s2 x" if "x div 4096 \<notin> {b, f}" for x
    unfolding m using that l ov[of x f ib] ov[of x b "eb f"] ov[of x f "replicate 4096 0" "bytes s2"] by simp
  moreover have "span (bytes s5) (f * 4096) 64 = take 64 ib"
  proof -
    have "span (bytes s5) (f * 4096) 64 = take 64 (span (bytes s5) (f * 4096) 4096)" by (simp add: take_span)
    then show ?thesis unfolding m using l(2) by simp
  qed
  moreover have "span (bytes s5) (b * 4096) 260 = take 260 (eb f)"
  proof -
    let ?m = "overlay (overlay (bytes s2) (f * 4096) (replicate 4096 0)) (b * 4096) (take 4096 (eb f))"
    have "span (bytes s5) (b * 4096) 260 = span ?m (b * 4096) 260"
      unfolding m using bf l(2) block_bytes[of b _ 260] by (intro span_cong ov) auto
    also have "\<dots> = take 260 (span ?m (b * 4096) 4096)" by (simp add: take_span)
    finally show ?thesis using l(1)[of f] by simp
  qed
  moreover have "super_dirty s5" using block_alloc_dirty[OF f(1)] sfs_wblock_keeps[OF s4(1)] sfs_wblock_keeps[OF s5(1)] by (simp add: keeps_def)
  ultimately show ?thesis using g f(1,2) s4(1) s5(1) st by blast
qed

text \<open>
  The inode of a directory in memory, with someone holding it, its own block apart from the blocks of
  the directory, and these apart from super block and free map.
\<close>

definition dir_node_ok :: "sfs_fs \<Rightarrow> nat \<Rightarrow> bool" where
  "dir_node_ok s node \<longleftrightarrow> (let sin = inodes s node in node_ok s node \<and> dir_ok s (sin_din sin) \<and> 0 < sin_ref sin \<and> sin_ref sin < 65535 \<and>
     sin_ino sin \<notin> owned (bytes s) (sin_din sin) \<and> owned (bytes s) (sin_din sin) \<inter> meta_blocks s = {})"

text \<open>No inode in memory has the number of a free block.\<close>

definition inodes_used :: "sfs_fs \<Rightarrow> bool" where
  "inodes_used s \<longleftrightarrow> (\<forall>f \<in> free s. \<forall>n \<in> set (hash_list s (sin_hashfn f)). sin_ino (inodes s n) \<noteq> f)"

lemma added_other:
  "added s sin b s2 sin1 \<Longrightarrow> x div 4096 \<noteq> b \<Longrightarrow> din_indirect (sin_din sin1) = 0 \<or> x div 4096 \<noteq> din_indirect (sin_din sin1) \<Longrightarrow>
   bytes s2 x = bytes s x"
  by (simp add: added_def)

text \<open>What remains of a directory when an entry has been added and only blocks of \<open>B\<close> are written after that.\<close>

lemma added_entries:
  assumes a: "added s sin b s2 sin1" and ok: "fs_ok s" "file_ok s (sin_din sin)" "din_blocks (sin_din sin) < 1036"
    and t: "sb_blocks (super s') = sb_blocks (super s2)" "free s' \<subseteq> free s2" "\<And>x. x div 4096 \<notin> insert b B \<Longrightarrow> bytes s' x = bytes s2 x"
    and B: "B \<inter> owned (bytes s) (sin_din sin) = {}" "din_indirect (sin_din sin1) \<noteq> 0 \<longrightarrow> din_indirect (sin_din sin1) \<notin> B"
  shows "file_ok s' (counted sin sin1)"
    "entries (bytes s') (counted sin sin1) = entries (bytes s) (sin_din sin) @ [entry_of (span (bytes s') (b * 4096) 260)]"
    "owned (bytes s') (counted sin sin1) = owned (bytes s2) (counted sin sin1)"
proof -
  let ?d = "counted sin sin1" and ?n = "din_blocks (sin_din sin)"
  have f2: "file_ok s2 ?d" using added_file_ok[OF a ok] .
  have e: "din_indirect ?d = din_indirect (sin_din sin1)" "din_blocks ?d = Suc ?n" by (simp_all add: counted_def)
  have i: "\<forall>x. din_indirect ?d \<noteq> 0 \<and> x div 4096 = din_indirect ?d \<longrightarrow> bytes s' x = bytes s2 x"
    using t(3) e(1) B(2) added_indirect(1)[OF a ok(2,1) refl] by auto
  have "free s' \<inter> owned (bytes s2) ?d = {}" using t(2) f2 by (auto simp: file_ok_def)
  note tr = file_ok_transfer[OF f2 t(1) this i]
  show "file_ok s' ?d" "owned (bytes s') ?d = owned (bytes s2) ?d" using tr by blast+
  have bm: "bmap (bytes s') ?d i = (if i = ?n then b else bmap (bytes s) (sin_din sin) i)" if "i < 1036" for i
    using tr(2)[OF that] added_bmap[OF a that] by simp
  have "dirent (bytes s') ?d i = dirent (bytes s) (sin_din sin) i" if "i < ?n" for i
  proof -
    let ?c = "bmap (bytes s) (sin_din sin) i"
    have c: "?c \<in> data_blocks (bytes s) (sin_din sin)" using that by (simp add: data_blocks_def)
    then have "?c \<in> owned (bytes s) (sin_din sin)" by (simp add: owned_def)
    then have cb: "?c \<notin> B" "?c \<noteq> b" using B(1) free_not_owned[OF ok(2)] a by (auto simp: added_def)
    have ce: "din_indirect (sin_din sin1) = 0 \<or> ?c \<noteq> din_indirect (sin_din sin1)" using added_indirect(2)[OF a ok(2,1) refl] c by auto
    have "bytes s' x = bytes s x" if "x div 4096 = ?c" for x
    proof -
      have "bytes s' x = bytes s2 x" using t(3)[of x] that cb by simp
      also have "\<dots> = bytes s x" using that cb(2) ce by (intro added_other[OF a]) auto
      finally show ?thesis .
    qed
    then have "span (bytes s') (?c * 4096) 260 = span (bytes s) (?c * 4096) 260" using block_bytes[of ?c _ 260] by (intro span_cong) auto
    then show ?thesis using bm[of i] that ok(3) by (simp add: dirent_def)
  qed
  then show "entries (bytes s') ?d = entries (bytes s) (sin_din sin) @ [entry_of (span (bytes s') (b * 4096) 260)]"
    using bm[of ?n] ok(3) e(2) by (simp add: entries_def dirent_def)
qed

lemma new_file_wf: "din_wf new_file" "din_nlinks new_file \<noteq> 0" "din_type new_file \<in> {SFS_TYPE_DIR, SFS_TYPE_FILE}"
  by (simp_all add: new_file_def din_wf_def sfs_types)

lemma take_patch_din: "64 \<le> length im \<Longrightarrow> length (din_direct d) = 12 \<Longrightarrow> take 64 (patch im 0 (din_bytes d)) = din_bytes d"
  using length_din_bytes[of d] by (simp add: patch_def)

text \<open>The state after the new file has been loaded: what the blocks hold and which inodes are in memory.\<close>

definition made :: "sfs_fs \<Rightarrow> nat \<Rightarrow> sfs_inode \<Rightarrow> u8 list \<Rightarrow> nat \<Rightarrow> nat \<Rightarrow> nat \<Rightarrow> sfs_fs \<Rightarrow> sfs_inode \<Rightarrow> sfs_fs \<Rightarrow> bool" where
  "made s node sin name sub b f s2 sin1 s6 \<longleftrightarrow> added s sin b s2 sin1 \<and> f \<in> free s2 \<and> fs_ok s6 \<and> sframe s s6 \<and> free s6 = free s2 - {f} \<and>
     super_dirty s6 \<and> inodes s6 = (inodes s)(node := sin1, sub := fresh_sin new_file f) \<and>
     hash_list s6 = (hash_list s)(sin_hashfn f := sub # hash_list s (sin_hashfn f)) \<and>
     ent_ino (entry_of (span (bytes s6) (b * 4096) 260)) = f \<and> cstr (ent_name (entry_of (span (bytes s6) (b * 4096) 260))) = name \<and>
     span (bytes s6) (f * 4096) 64 = din_bytes new_file \<and> (\<forall>x. x div 4096 \<notin> {b, f} \<longrightarrow> bytes s6 x = bytes s2 x)"

lemma create_made:
  assumes ok: "fs_ok s" "file_ok s (sin_din sin)" and n: "n = din_blocks (sin_din sin)" "n < 1036"
    and fr: "need (sin_din sin) (Suc n) < card (free s)" and nm: "0 \<notin> set name" "length name \<le> 255"
    and l: "4096 \<le> length em" "4096 \<le> length im" and u: "inodes_used s" "sin_ino sin = sin_ino (inodes s node)"
  shows "\<exists>b s2 sin1 f s3 s4 s5 s6. sfs_bmap_get_nolock s sin n True = Some (0, b, s2, sin1) \<and>
    sfs_block_alloc (put s2 node sin1) = Some (0, f, s3) \<and> sfs_wblock s3 (patch em 0 (entry_bytes f name)) b 1 = Some (0, s4) \<and>
    sfs_wblock s4 (patch im 0 (din_bytes new_file)) f 1 = Some (0, s5) \<and> sfs_load_inode s5 f True (Some sub) = Some (0, sub, s6) \<and>
    made s node sin name sub b f s2 sin1 s6"
proof -
  have le: "4096 \<le> length (patch em 0 (entry_bytes f name))" for f using l(1) nm(2) by (simp add: entry_bytes_def)
  have li: "4096 \<le> length (patch im 0 (din_bytes new_file))" using l(2) length_din_bytes[of new_file] by (simp add: new_file_def)
  obtain b s2 sin1 f s3 s4 s5 where c: "sfs_bmap_get_nolock s sin n True = Some (0, b, s2, sin1)" "added s sin b s2 sin1"
      "sfs_block_alloc (put s2 node sin1) = Some (0, f, s3)" "f \<in> free s2" "sfs_wblock s3 (patch em 0 (entry_bytes f name)) b 1 = Some (0, s4)"
      "sfs_wblock s4 (patch im 0 (din_bytes new_file)) f 1 = Some (0, s5)" "super_dirty s5" "fs_step (put s2 node sin1) (free s2 - {f}) (bytes s5) s5"
      "span (bytes s5) (b * 4096) 260 = take 260 (patch em 0 (entry_bytes f name))"
      "span (bytes s5) (f * 4096) 64 = take 64 (patch im 0 (din_bytes new_file))" "\<forall>x. x div 4096 \<notin> {b, f} \<longrightarrow> bytes s5 x = bytes s2 x"
    using create_blocks[where eb = "\<lambda>f. patch em 0 (entry_bytes f name)", OF ok n fr le li, of node] by blast
  have a: "fs_ok s2" "frame s s2" "free s2 \<subseteq> free s" "same_meta sin sin1" using c(2) by (auto simp: added_def)
  have fs: "f \<in> free s" using c(4) a(3) by blast
  have fb: "blk_ok s f" "f < 2 ^ 32" using free_blk_ok[OF ok(1) fs] blk_ok_32[OF ok(1)] by blast+
  have s5: "fs_ok s5" "sframe s s5" "free s5 = free s2 - {f}" "inodes s5 = (inodes s)(node := sin1)" "hash_list s5 = hash_list s"
    using c(8) a(2) frame_sframe by (auto simp: fs_step_def frame_def sframe_def)
  have "\<forall>q \<in> set (hash_list s5 (sin_hashfn f)). sin_ino (inodes s5 q) \<noteq> f"
    using u fs s5(4,5) a(4) by (auto simp: inodes_used_def same_meta_def)
  moreover have "span (bytes s5) (f * 4096) 64 = din_bytes new_file" using c(10) take_patch_din[of im new_file] l(2) by (simp add: new_file_def)
  ultimately obtain s6 where s6: "sfs_load_inode s5 f True (Some sub) = Some (0, sub, s6)" "fs_ok s6" "bytes s6 = bytes s5" "super s6 = super s5"
      "freemap s6 = freemap s5" "super_dirty s6 = super_dirty s5" "inodes s6 = (inodes s5)(sub := fresh_sin new_file f)"
      "hash_list s6 = (hash_list s5)(sin_hashfn f := sub # hash_list s5 (sin_hashfn f))"
    using load_inode_fresh[OF s5(1) _ _ _ _ new_file_wf, of f sub] s5(3) blk_ok_sframe[OF s5(2)] fb(1) by blast
  have "made s node sin name sub b f s2 sin1 s6"
    unfolding made_def using c(2,4,7,9,11) s5 s6 entry_of_bytes[OF nm fb(2), of em] l(1) \<open>span (bytes s5) (f * 4096) 64 = din_bytes new_file\<close>
    by (auto simp: sframe_def free_def)
  then show ?thesis using c(1,3,5,6) s6(1) by blast
qed

text \<open>The counts of the directory are back to what they were, and its inode has one block more.\<close>

definition grown :: "sfs_inode \<Rightarrow> sfs_inode \<Rightarrow> sfs_inode" where
  "grown sin sin1 = sin1\<lparr>sin_din := counted sin sin1, sin_dirty := False, sin_ref := sin_ref sin - 1\<rparr>"

lemma create_finish:
  assumes m: "made s node sin name sub b f s2 sin1 s6" and v: "vol_ok s" and sin: "sin = inodes s node" and sub: "sub \<noteq> node"
    and nk: "node_ok s node" "sin_ino sin \<notin> owned (bytes s) (sin_din sin)" "1 < sin_ref sin" and n: "din_blocks (sin_din sin) < 1036"
    and ok: "file_ok s (sin_din sin)"
  shows "\<exists>s7 s'. sfs_flush (recount s6 node 1) node 0 = Some (0, s7) \<and> inode_ref_dec s7 node = Some (sin_ref sin - 1, s') \<and>
    touches (insert (sin_ino sin) (meta_blocks s)) s6 s' \<and> meta_on_disk s' \<and>
    inodes s' = (inodes s)(node := grown sin sin1, sub := fresh_sin new_file f) \<and>
    span (bytes s') (sin_ino sin * 4096) 64 = din_bytes (counted sin sin1)"
proof -
  have a: "added s sin b s2 sin1" "fs_ok s6" "sframe s s6" "free s6 \<subseteq> free s" "super_dirty s6"
      "inodes s6 = (inodes s)(node := sin1, sub := fresh_sin new_file f)"
    using m by (auto simp: made_def added_def)
  have sm: "same_meta sin sin1" "din_blocks (sin_din sin1) = din_blocks (sin_din sin)" "length (din_direct (sin_din sin1)) = 12"
    using a(1) by (simp_all add: added_def)
  let ?q = "sin1\<lparr>sin_din := counted sin sin1, sin_dirty := True\<rparr>"
  define R where "R = put s6 node ?q"
  have rc: "recount s6 node 1 = R" using a(6) sub sm(2) n by (simp add: R_def recount_def counted_def)
  have vr: "vol_ok R" using vol_ok_sframe[OF v a(3,2,4)] by (simp add: R_def)
  have i: "inodes R node = ?q" "sin_ino ?q = sin_ino sin" using sm(1) by (simp_all add: R_def same_meta_def)
  have nr: "node_ok R node" using nk(1) sm(1,3) a(4) blk_ok_sframe[OF a(3)] sframe_meta[of s R] a(3)
    unfolding node_ok_def Let_def i(1) by (auto simp: sin same_meta_def counted_def R_def)
  obtain s7 where s7: "sfs_flush R node 0 = Some (0, s7)" "touches (insert (sin_ino sin) (meta_blocks R)) R s7"
      "inodes s7 = (inodes R)(node := ?q\<lparr>sin_dirty := False\<rparr>)" "meta_on_disk s7" "span (bytes s7) (sin_ino sin * 4096) 64 = din_bytes (counted sin sin1)"
    using sfs_flush_ok[OF vr nr refl] a(5) unfolding i by (auto simp: R_def)
  have rf: "sin_ref (inodes s7 node) = sin_ref sin" using s7(3) sm(1) by (simp add: same_meta_def)
  let ?s = "put s7 node (grown sin sin1)"
  have "inode_ref_dec s7 node = Some (sin_ref sin - 1, ?s)" using rf nk(3) s7(3) by (simp add: inode_ref_dec_def Let_def grown_def)
  moreover have "touches (insert (sin_ino sin) (meta_blocks s)) s6 ?s" using s7(2) sframe_meta[of s R] a(3) by (simp add: R_def)
  moreover have "inodes ?s = (inodes s)(node := grown sin sin1, sub := fresh_sin new_file f)" using s7(3) a(6) sub by (auto simp: fun_eq_iff R_def)
  moreover have "meta_on_disk ?s" using s7(4) by (simp add: meta_on_disk_def)
  ultimately show ?thesis using s7(1,5) unfolding rc by (intro exI[of _ s7] exI[of _ ?s]) simp
qed

lemma made_entries:
  assumes m: "made s node sin name sub b f s2 sin1 s6" and v: "vol_ok s" and ok: "file_ok s (sin_din sin)" "din_blocks (sin_din sin) < 1036"
    and d: "dino \<notin> free s" "dino \<notin> owned (bytes s) (sin_din sin)" "owned (bytes s) (sin_din sin) \<inter> meta_blocks s = {}"
    and t: "touches (insert dino (meta_blocks s)) s6 s'"
  shows "file_ok s' (counted sin sin1)"
    "\<exists>e. entries (bytes s') (counted sin sin1) = entries (bytes s) (sin_din sin) @ [e] \<and> ent_ino e = f \<and> cstr (ent_name e) = name"
    "owned (bytes s') (counted sin sin1) \<subseteq> owned (bytes s) (sin_din sin) \<union> free s"
    "span (bytes s') (f * 4096) 64 = din_bytes new_file"
    "x div 4096 \<notin> free s \<union> owned (bytes s) (sin_din sin) \<union> insert dino (meta_blocks s) \<Longrightarrow> bytes s' x = bytes s x"
proof -
  let ?B = "insert f (insert dino (meta_blocks s))" and ?e = "din_indirect (sin_din sin1)"
  have a: "added s sin b s2 sin1" "f \<in> free s2" "free s6 = free s2 - {f}" "sframe s s6" "\<forall>x. x div 4096 \<notin> {b, f} \<longrightarrow> bytes s6 x = bytes s2 x"
    using m by (auto simp: made_def)
  have fs: "fs_ok s" "free s \<inter> meta_blocks s = {}" using v by (auto simp: vol_ok_def)
  have f2: "free s2 = free s - {b, ?e}" "b \<in> free s" "sb_blocks (super s2) = sb_blocks (super s)" using a(1) by (simp_all add: added_def frame_def)
  have B: "?B \<inter> owned (bytes s) (sin_din sin) = {}" using d free_not_owned[OF ok(1)] a(2) f2(1) by auto
  have e: "?e \<noteq> 0 \<longrightarrow> ?e \<notin> ?B" using added_indirect(3)[OF a(1) ok(1) fs(1) refl] f2(1) a(2) d fs(2) by auto
  have bs: "bytes s' x = bytes s2 x" if "x div 4096 \<notin> insert b ?B" for x using t a(5) that by (simp add: touches_def)
  have sb: "sb_blocks (super s') = sb_blocks (super s2)" using touches_sframe[OF t] a(4) f2(3) by (simp add: sframe_def)
  have fr: "free s' \<subseteq> free s2" using touches_free[OF t] a(3) by auto
  note E = added_entries[OF a(1) fs(1) ok sb fr bs B e]
  show "file_ok s' (counted sin sin1)" using E(1) .
  have nb: "b \<notin> insert dino (meta_blocks s)" "f \<notin> insert dino (meta_blocks s)" using d(1) fs(2) a(2) f2 by auto
  have sp: "span (bytes s') (b * 4096) 260 = span (bytes s6) (b * 4096) 260" using touches_block[OF t nb(1)] by simp
  show "\<exists>e. entries (bytes s') (counted sin sin1) = entries (bytes s) (sin_din sin) @ [e] \<and> ent_ino e = f \<and> cstr (ent_name e) = name"
    using E(2) m unfolding sp by (auto simp: made_def)
  show "owned (bytes s') (counted sin sin1) \<subseteq> owned (bytes s) (sin_din sin) \<union> free s"
    using E(3) added_owned[OF a(1) fs(1) ok] by blast
  show "span (bytes s') (f * 4096) 64 = din_bytes new_file" using touches_block[OF t nb(2), of 64] m by (simp add: made_def)
  show "bytes s' x = bytes s x" if x: "x div 4096 \<notin> free s \<union> owned (bytes s) (sin_din sin) \<union> insert dino (meta_blocks s)"
    using bs[of x] added_bytes[OF a(1) fs(1) ok(1), of x] x a(2) f2 by auto
qed

text \<open>The conditions under which a file can be created: memory, room in the block map, and blocks.\<close>

definition can_create :: "sfs_fs \<Rightarrow> nat \<Rightarrow> create_mem \<Rightarrow> nat \<Rightarrow> bool" where
  "can_create s node cm sub \<longleftrightarrow> (let din = sin_din (inodes s node) in din_blocks din < 1036 \<and> need din (Suc (din_blocks din)) < card (free s) \<and>
     (\<exists>em im. entry_mem cm = Some em \<and> inode_mem cm = Some im \<and> 4096 \<le> length em \<and> 4096 \<le> length im) \<and>
     din_mem (load_mem cm) \<and> node_mem (load_mem cm) = Some sub \<and> sub \<noteq> node)"

text \<open>The directory with the reference the operation takes.\<close>

definition held :: "sfs_fs \<Rightarrow> nat \<Rightarrow> sfs_fs" where
  "held s node = snd (inode_ref_inc s node)"

lemma held_views [simp]:
  "fs_ok (held s node) = fs_ok s" "vol_ok (held s node) = vol_ok s" "bytes (held s node) = bytes s" "free (held s node) = free s"
  "meta_blocks (held s node) = meta_blocks s" "file_ok (held s node) din = file_ok s din" "hash_list (held s node) = hash_list s"
  "inodes (held s node) = (inodes s)(node := (inodes s node)\<lparr>sin_ref := sin_ref (inodes s node) + 1\<rparr>)"
  by (simp_all add: held_def inode_ref_inc_def Let_def meta_blocks_def)

lemma held_ok:
  "dir_node_ok s node \<Longrightarrow> node_ok (held s node) node" "inodes_used s \<Longrightarrow> inodes_used (held s node)"
proof -
  show "inodes_used s \<Longrightarrow> inodes_used (held s node)" by (auto simp: inodes_used_def)
  have "blk_ok (held s node) b = blk_ok s b" for b by (simp add: held_def inode_ref_inc_def Let_def)
  then show "dir_node_ok s node \<Longrightarrow> node_ok (held s node) node" by (auto simp: dir_node_ok_def node_ok_def Let_def)
qed

lemma create_run:
  assumes v: "vol_ok s" and d: "dir_node_ok s node" and u: "inodes_used s" and c: "can_create s node cm sub"
    and nm: "0 \<notin> set name" "length name \<le> 255" and sin: "sin = inodes (held s node) node"
  shows "\<exists>b f s2 sin1 s6 s'. sfs_create s node name excl cm = Some (0, Some sub, s') \<and> made (held s node) node sin name sub b f s2 sin1 s6 \<and>
    touches (insert (sin_ino sin) (meta_blocks s)) s6 s' \<and> meta_on_disk s' \<and>
    inodes s' = (inodes s)(node := grown sin sin1, sub := fresh_sin new_file f) \<and>
    span (bytes s') (sin_ino sin * 4096) 64 = din_bytes (counted sin sin1)"
proof -
  let ?s = "held s node"
  have fs: "fs_ok s" using v by (simp add: vol_ok_def)
  have ok: "fs_ok ?s" "vol_ok ?s" "file_ok ?s (sin_din sin)" and t: "din_type (sin_din sin) = SFS_TYPE_DIR"
    and o: "sin_ino sin \<notin> owned (bytes ?s) (sin_din sin)" "1 < sin_ref sin"
    using v fs d by (auto simp: dir_node_ok_def dir_ok_def Let_def sin)
  obtain em im where cm: "entry_mem cm = Some em" "inode_mem cm = Some im" "4096 \<le> length em" "4096 \<le> length im" "din_mem (load_mem cm)"
      "node_mem (load_mem cm) = Some sub" "sub \<noteq> node" and n: "din_blocks (sin_din sin) < 1036"
      "need (sin_din sin) (Suc (din_blocks (sin_din sin))) < card (free ?s)"
    using c by (auto simp: can_create_def Let_def sin)
  obtain b s2 sin1 f s3 s4 s5 s6 where g: "sfs_bmap_get_nolock ?s sin (din_blocks (sin_din sin)) True = Some (0, b, s2, sin1)"
      "sfs_block_alloc (put s2 node sin1) = Some (0, f, s3)" "sfs_wblock s3 (patch em 0 (entry_bytes f name)) b 1 = Some (0, s4)"
      "sfs_wblock s4 (patch im 0 (din_bytes new_file)) f 1 = Some (0, s5)" "sfs_load_inode s5 f True (Some sub) = Some (0, sub, s6)"
      and m: "made ?s node sin name sub b f s2 sin1 s6"
    using create_made[OF ok(1,3) refl n nm cm(3,4) held_ok(2)[OF u] arg_cong[OF sin, of sin_ino]] by blast
  obtain s7 s' where fin: "sfs_flush (recount s6 node 1) node 0 = Some (0, s7)" "inode_ref_dec s7 node = Some (sin_ref sin - 1, s')"
      "touches (insert (sin_ino sin) (meta_blocks s)) s6 s'" "meta_on_disk s'"
      "inodes s' = (inodes ?s)(node := grown sin sin1, sub := fresh_sin new_file f)" "span (bytes s') (sin_ino sin * 4096) 64 = din_bytes (counted sin sin1)"
    using create_finish[OF m ok(2) sin cm(7) held_ok(1)[OF d] o n(1) ok(3)] by auto
  have st: "stored 0 f (stray_node cm) = f" by (simp add: stored_def E_NO_MEM_def)
  have "sfs_create s node name excl cm = Some (0, Some sub, s')"
    unfolding sfs_create_def held_def[symmetric] Let_def sin[symmetric]
    using t g cm nm(2) fin(1,2) st by (simp del: held_views)
  moreover have "inodes s' = (inodes s)(node := grown sin sin1, sub := fresh_sin new_file f)" using fin(5) by simp
  ultimately show ?thesis using m fin(3,4,6) by blast
qed

lemma inodes_used_add:
  assumes u: "inodes_used s" and f: "free s' \<subseteq> free s - {f}" and h: "hash_list s' = (hash_list s)(sin_hashfn f := sub # hash_list s (sin_hashfn f))"
    and i: "sin_ino (inodes s' sub) = f" "\<And>q. q \<noteq> sub \<Longrightarrow> sin_ino (inodes s' q) = sin_ino (inodes s q)"
  shows "inodes_used s'"
  unfolding inodes_used_def
proof (intro ballI notI)
  fix g q assume g: "g \<in> free s'" "q \<in> set (hash_list s' (sin_hashfn g))" "sin_ino (inodes s' q) = g"
  then have "g \<noteq> f" "g \<in> free s" using f by auto
  then have "q \<noteq> sub" using g(3) i(1) by auto
  then have "q \<in> set (hash_list s (sin_hashfn g))" using g(2) h by (auto split: if_splits)
  then have "sin_ino (inodes s q) \<noteq> g" using u \<open>g \<in> free s\<close> by (simp add: inodes_used_def)
  with i(2)[OF \<open>q \<noteq> sub\<close>] g(3) show False by simp
qed

lemma sfs_create_ok:
  assumes v: "vol_ok s" and d: "dir_node_ok s node" and u: "inodes_used s" and c: "can_create s node cm sub"
    and nm: "0 \<notin> set name" "length name \<le> 255" and sin: "sin = inodes s node"
  shows "\<exists>f e s'. sfs_create s node name excl cm = Some (0, Some sub, s') \<and> f \<in> free s \<and> vol_ok s' \<and> dir_node_ok s' node \<and> inodes_used s' \<and>
    entries (bytes s') (sin_din (inodes s' node)) = entries (bytes s) (sin_din sin) @ [e] \<and> ent_ino e = f \<and> cstr (ent_name e) = name \<and>
    inodes s' sub = fresh_sin new_file f \<and> span (bytes s') (f * 4096) 64 = din_bytes new_file \<and>
    span (bytes s') (sin_ino sin * 4096) 64 = din_bytes (sin_din (inodes s' node)) \<and> meta_on_disk s' \<and>
    (\<forall>x. x div 4096 \<notin> free s \<union> owned (bytes s) (sin_din sin) \<union> insert (sin_ino sin) (meta_blocks s) \<longrightarrow> bytes s' x = bytes s x)"
proof -
  let ?h = "held s node" and ?sin = "inodes (held s node) node"
  have vs: "sin_din ?sin = sin_din sin" "sin_ino ?sin = sin_ino sin" "sin_ref ?sin = sin_ref sin + 1" "sin_open ?sin = sin_open sin" by (simp_all add: sin)
  have sub: "sub \<noteq> node" using c by (auto simp: can_create_def Let_def)
  obtain b f s2 sin1 s6 s' where r: "sfs_create s node name excl cm = Some (0, Some sub, s')" "made ?h node ?sin name sub b f s2 sin1 s6"
      "touches (insert (sin_ino sin) (meta_blocks s)) s6 s'" "meta_on_disk s'"
      "inodes s' = (inodes s)(node := grown ?sin sin1, sub := fresh_sin new_file f)" "span (bytes s') (sin_ino sin * 4096) 64 = din_bytes (counted ?sin sin1)"
    using create_run[OF v d u c nm refl, of excl] unfolding vs by blast
  have dn: "node_ok s node" "dir_ok s (sin_din sin)" "0 < sin_ref sin" "sin_ref sin < 65535" "sin_ino sin \<notin> owned (bytes s) (sin_din sin)"
      "owned (bytes s) (sin_din sin) \<inter> meta_blocks s = {}"
    using d by (auto simp: dir_node_ok_def Let_def sin)
  have nk: "blk_ok s (sin_ino sin)" "sin_ino sin \<notin> free s" "sin_ino sin \<notin> meta_blocks s" "0 \<le> sin_open sin" "sin_open sin \<le> sin_ref sin"
    using dn(1) by (auto simp: node_ok_def Let_def sin)
  have n: "din_blocks (sin_din sin) < 1036" using c by (auto simp: can_create_def Let_def sin)
  have fo: "file_ok s (sin_din sin)" "free s \<inter> meta_blocks s = {}" using dn(2) v by (simp_all add: dir_ok_def vol_ok_def)
  note E = made_entries[OF r(2), of "sin_ino sin" s', unfolded vs held_views(1-7), OF v fo(1) n nk(2) dn(5,6) r(3)]
  have a: "added ?h ?sin b s2 sin1" "free s6 = free s2 - {f}" "f \<in> free s2" "sframe ?h s6"
    "hash_list s6 = (hash_list ?h)(sin_hashfn f := sub # hash_list ?h (sin_hashfn f))" using r(2) by (simp_all add: made_def)
  have sf: "sframe s s'" using sframe_trans[OF a(4) touches_sframe[OF r(3)]] by (simp add: held_def inode_ref_inc_def Let_def)
  have fr: "free s' = free s2 - {f}" "free s2 \<subseteq> free s" using touches_free[OF r(3)] a by (auto simp: added_def)
  have sm: "same_meta ?sin sin1" "length (din_direct (sin_din sin1)) = 12" using a(1) by (simp_all add: added_def)
  have i: "inodes s' node = grown ?sin sin1" "sin_din (inodes s' node) = counted ?sin sin1" using r(5) sub by (simp_all add: grown_def)
  have g: "sin_ino (grown ?sin sin1) = sin_ino sin" "sin_ref (grown ?sin sin1) = sin_ref sin" "sin_open (grown ?sin sin1) = sin_open sin"
    using sm(1) vs by (simp_all add: grown_def same_meta_def)
  have "node_ok s' node" unfolding node_ok_def Let_def i(1) g
    using nk fr dn(4) sm(2) blk_ok_sframe[OF sf] sframe_meta[OF sf] by (auto simp: grown_def counted_def)
  moreover have "dir_ok s' (counted ?sin sin1)" using E(1) dn(2) sm(1) by (simp add: dir_ok_def counted_def same_meta_def sin)
  ultimately have "dir_node_ok s' node" unfolding dir_node_ok_def Let_def i g
    using i g dn(3-6) E(3) nk(2) fo(2) sframe_meta[OF sf] by auto
  moreover have "vol_ok s'" using vol_ok_sframe[OF v sf] r(3) fr by (auto simp: touches_def)
  moreover have "hash_list s' = (hash_list s)(sin_hashfn f := sub # hash_list s (sin_hashfn f))" using r(3) a(5) by (simp add: touches_def)
  then have "inodes_used s'" using fr r(5) g(1) sin by (intro inodes_used_add[OF u, of s' f sub]) (auto simp: fresh_sin_def)
  moreover have "f \<in> free s" using a(3) fr(2) by blast
  moreover obtain e where "entries (bytes s') (counted ?sin sin1) = entries (bytes s) (sin_din sin) @ [e]" "ent_ino e = f" "cstr (ent_name e) = name"
    using E(2) by blast
  moreover have "inodes s' sub = fresh_sin new_file f" using r(5) by simp
  ultimately show ?thesis using r(1,4,6) E(4,5) unfolding i(2)[symmetric] by blast
qed


text \<open>A volume of 64 blocks with an empty root directory in memory at address 100.\<close>

definition root_sfs :: sfs_fs where
  "root_sfs = small_sfs\<lparr>freemap := \<lparr>nbits = 32768, nwords = 1024, bwords = NOT 7 # NOT 0 # replicate 1022 0\<rparr>,
     inodes := (inodes small_sfs)(100 := \<lparr>sin_din = new_dir 0, sin_ino = 1, sin_dirty = False, sin_reclaim = 1, sin_ref = 1, sin_open = 0\<rparr>)\<rparr>"

definition root_mem :: create_mem where
  "root_mem = \<lparr>entry_mem = Some (replicate 4096 1), inode_mem = Some (replicate 4096 2),
     load_mem = \<lparr>search_mem = None, din_mem = True, node_mem = Some 200\<rparr>, stray_index = 0, stray_node = 0, stray_indirect = 0\<rparr>"

lemma root_sfs_free: "free root_sfs = {3..<64}"
proof -
  have "i \<in> free root_sfs \<longleftrightarrow> i \<in> free small_sfs" for i
  proof (cases "i < 64")
    case True
    then have "i div 32 < 2" by simp
    then have "(NOT 7 # NOT 0 # replicate 1022 0 :: u32 list) ! (i div 32) = [NOT 7, NOT 0] ! (i div 32)" by (auto simp: less_2_cases_iff)
    then show ?thesis using True by (simp add: free_def free_bits_def root_sfs_def small_sfs_def)
  next
    case False
    then have k: "i div 32 \<ge> 2" by simp
    then have "(NOT 7 # NOT 0 # replicate 1022 0 :: u32 list) ! (i div 32) = replicate 1022 0 ! (i div 32 - 2)" by (simp add: nth_Cons' numeral_2_eq_2)
    then show ?thesis using False k by (auto simp: free_def free_bits_def root_sfs_def small_sfs_def)
  qed
  then show ?thesis using small_sfs_free by blast
qed

lemma root_sfs_super [simp]: "super root_sfs = super small_sfs" "sfs_freemap_blocks (super small_sfs) = 1" "sfs_freemap_bits (super small_sfs) = 32768"
  by (simp_all add: root_sfs_def small_sfs_def sfs_freemap_blocks_def sfs_freemap_bits_def)

lemma root_sfs_ok: "vol_ok root_sfs"
proof -
  have "bitmap_inv (freemap root_sfs)" using root_sfs_free by (simp add: bitmap_inv_def free_def) (auto simp: root_sfs_def)
  moreover have "disk0_ok (sdev root_sfs)" "length (sfs_buffer root_sfs) = 4096" "d_blocks (sdev root_sfs) = 64" "nbits (freemap root_sfs) = 32768"
    using blank_disk0_ok[of 64] by (simp_all add: root_sfs_def small_sfs_def blank_disk0_def)
  moreover have "sb_blocks (super small_sfs) = 64" "sb_unused (super small_sfs) = 61" by (simp_all add: small_sfs_def)
  ultimately have "fs_ok root_sfs" using root_sfs_free by (auto simp: fs_ok_def)
  then show ?thesis using root_sfs_free by (auto simp: vol_ok_def meta_blocks_def) (simp_all add: root_sfs_def small_sfs_def)
qed

lemma root_dir_ok: "dir_node_ok root_sfs 100"
proof -
  have i: "inodes root_sfs 100 = \<lparr>sin_din = new_dir 0, sin_ino = 1, sin_dirty = False, sin_reclaim = 1, sin_ref = 1, sin_open = 0\<rparr>" by (simp add: root_sfs_def)
  have o: "owned m (new_dir 0) = {}" for m by (simp add: owned_def data_blocks_def new_dir_def)
  then have "file_ok root_sfs (new_dir 0)" by (simp add: file_ok_def) (simp add: new_dir_def bmap_def)
  moreover have "sb_blocks (super small_sfs) = 64" by (simp add: small_sfs_def)
  ultimately show ?thesis using root_sfs_free o by (simp add: dir_node_ok_def node_ok_def dir_ok_def Let_def i meta_blocks_def blk_ok_def) (simp add: new_dir_def)
qed


end
