(* ===== verification/Sfs_Mount.thy ===== *)
theory Sfs_Mount
  imports Sfs_Dir
begin

text \<open>
  The file system as a whole (\<^verbatim>\<open>kern/fs/sfs/sfs_fs.c\<close>): writing everything back, mounting a volume and
  unmounting it. Mounting what \<^verbatim>\<open>sfs_sync\<close> has written gives back the super block, the free map and
  every inode.
\<close>

subsection \<open>Writing back\<close>

fun sync_inodes :: "sfs_fs \<Rightarrow> nat list \<Rightarrow> sfs_fs option" where
  "sync_inodes s [] = Some s"
| "sync_inodes s (n # ns) = do {
     (_, s1) \<leftarrow> vop_fsync s n;
     sync_inodes s1 ns }"

definition sfs_sync :: "sfs_fs \<Rightarrow> (int \<times> sfs_fs) option" where
  "sfs_sync s = do {
     s1 \<leftarrow> sync_inodes s (inode_list s);
     if super_dirty s1 then do {
       (r, s2) \<leftarrow> sfs_sync_super (s1\<lparr>super_dirty := False\<rparr>);
       if r \<noteq> 0 then Some (r, s2\<lparr>super_dirty := True\<rparr>)
       else do {
         (r2, s3) \<leftarrow> sfs_sync_freemap s2;
         Some (if r2 \<noteq> 0 then (r2, s3\<lparr>super_dirty := True\<rparr>) else (0, s3)) } }
     else Some (0, s1) }"

fun sync_tries :: "nat \<Rightarrow> int \<Rightarrow> sfs_fs \<Rightarrow> (int \<times> sfs_fs) option" where
  "sync_tries 0 r s = Some (r, s)"
| "sync_tries (Suc n) r s = do {
     (r1, s1) \<leftarrow> sfs_sync s;
     if r1 = 0 then Some (0, s1) else sync_tries n r1 s1 }"

definition sfs_cleanup :: "sfs_fs \<Rightarrow> (int \<times> sfs_fs) option" where
  "sfs_cleanup s = sync_tries 32 0 s"

definition sfs_get_root :: "sfs_fs \<Rightarrow> bool \<Rightarrow> nat option \<Rightarrow> (nat \<times> sfs_fs) option" where
  "sfs_get_root s dm nm = do {
     (r, node, s1) \<leftarrow> sfs_load_inode s 1 dm nm;
     kassert (r = 0);
     Some (node, s1) }"

definition sfs_unmount :: "sfs_fs \<Rightarrow> int option" where
  "sfs_unmount s =
     (if inode_list s \<noteq> [] then Some (- E_BUSY)
      else do { kassert (\<not> super_dirty s); Some 0 })"

subsection \<open>Mounting\<close>

definition sfs_init_read :: "disk0 \<Rightarrow> nat \<Rightarrow> u8 list \<Rightarrow> (int \<times> u8 list \<times> disk0) option" where
  "sfs_init_read dv blkno buf = do {
     (r, dv1, iob) \<leftarrow> disk0_io dv (iobuf_init buf SFS_BLKSIZE (to_off (blkno * SFS_BLKSIZE))) False;
     Some (r, io_mem iob, dv1) }"

fun init_freemap_loop :: "disk0 \<Rightarrow> nat \<Rightarrow> nat \<Rightarrow> u8 list \<Rightarrow> (int \<times> u8 list \<times> disk0) option" where
  "init_freemap_loop dv blkno 0 data = Some (0, data, dv)"
| "init_freemap_loop dv blkno (Suc n) data = do {
     (r, b, dv1) \<leftarrow> sfs_init_read dv blkno data;
     if r \<noteq> 0 then Some (r, b, dv1)
     else do {
       (r2, rest, dv2) \<leftarrow> init_freemap_loop dv1 (Suc blkno) n (drop SFS_BLKSIZE b);
       Some (r2, take SFS_BLKSIZE b @ rest, dv2) } }"

definition sfs_init_freemap :: "disk0 \<Rightarrow> bitmap \<Rightarrow> nat \<Rightarrow> nat \<Rightarrow> (int \<times> bitmap \<times> disk0) option" where
  "sfs_init_freemap dv fm blkno nblks = do {
     let (data, len) = bitmap_getdata fm;
     kassert (len = nblks * SFS_BLKSIZE);
     (r, b, dv1) \<leftarrow> init_freemap_loop dv blkno nblks (words_bytes data);
     Some (r, fm\<lparr>bwords := map word_of_nat (le_words (length data) b)\<rparr>, dv1) }"

fun count_free :: "bitmap \<Rightarrow> nat \<Rightarrow> nat option" where
  "count_free fm 0 = Some 0"
| "count_free fm (Suc i) = do {
     n \<leftarrow> count_free fm i;
     t \<leftarrow> bitmap_test fm i;
     Some (if t then n + 1 else n) }"

definition super_of :: "u8 list \<Rightarrow> sfs_super" where
  "super_of b = \<lparr>sb_magic = le_nat (take 4 b), sb_blocks = le_nat (take 4 (drop 4 b)), sb_unused = le_nat (take 4 (drop 8 b)),
     sb_info = take 31 (drop 12 b) @ [0]\<rparr>"

text \<open>The allocations of \<^verbatim>\<open>sfs_do_mount\<close>: the file system, its buffer, the hash lists, and the two of the bitmap.\<close>

record mount_mem =
  mnt_fs :: bool
  mnt_buffer :: "u8 list option"
  mnt_hash :: bool
  mnt_map1 :: bool
  mnt_map2 :: bool

text \<open>What \<^verbatim>\<open>sfs_do_mount\<close> does with the super block \<open>sb\<close> in the buffer \<open>buf\<close>.\<close>

definition mount_super :: "sfs_super \<Rightarrow> u8 list \<Rightarrow> disk0 \<Rightarrow> mount_mem \<Rightarrow> (nat \<Rightarrow> sfs_inode) \<Rightarrow> (int \<times> sfs_fs option \<times> disk0) option" where
  "mount_super sb buf dv mm store =
     (if sb_magic sb \<noteq> SFS_MAGIC then Some (- E_INVAL, None, dv)
      else if sb_blocks sb > d_blocks dv then Some (- E_INVAL, None, dv)
      else if \<not> mnt_hash mm then Some (- E_NO_MEM, None, dv)
      else do {
        fm \<leftarrow> bitmap_create (mnt_map1 mm) (mnt_map2 mm) (sfs_freemap_bits sb);
        (case fm of
           None \<Rightarrow> Some (- E_NO_MEM, None, dv)
         | Some b \<Rightarrow> do {
             (r, fm1, dv1) \<leftarrow> sfs_init_freemap dv b 2 (sfs_freemap_blocks sb);
             if r \<noteq> 0 then Some (r, None, dv1)
             else do {
               n \<leftarrow> count_free fm1 (sfs_freemap_bits sb);
               kassert (n = sb_unused sb);
               Some (0, Some \<lparr>super = sb, sdev = dv1, freemap = fm1, super_dirty = False, sfs_buffer = buf,
                 inodes = store, inode_list = [], hash_list = (\<lambda>_. [])\<rparr>, dv1) } }) })"

definition sfs_do_mount :: "disk0 \<Rightarrow> nat \<Rightarrow> mount_mem \<Rightarrow> (nat \<Rightarrow> sfs_inode) \<Rightarrow> (int \<times> sfs_fs option \<times> disk0) option" where
  "sfs_do_mount dv blocksize mm store =
     (if blocksize \<noteq> SFS_BLKSIZE then Some (- E_NA_DEV, None, dv)
      else if \<not> mnt_fs mm then Some (- E_NO_MEM, None, dv)
      else (case mnt_buffer mm of
        None \<Rightarrow> Some (- E_NO_MEM, None, dv)
      | Some raw \<Rightarrow> do {
          (r, buf, dv1) \<leftarrow> sfs_init_read dv 0 raw;
          if r \<noteq> 0 then Some (r, None, dv1) else mount_super (super_of buf) (buf[43 := 0]) dv1 mm store }))"

subsection \<open>Everything written back\<close>

text \<open>The inodes in memory and their copies on disk: no two have the same number, and a clean one is on disk.\<close>

definition inodes_ok :: "sfs_fs \<Rightarrow> nat list \<Rightarrow> bool" where
  "inodes_ok s ns \<longleftrightarrow> distinct ns \<and> inj_on (\<lambda>n. sin_ino (inodes s n)) (set ns) \<and>
     (\<forall>n \<in> set ns. node_ok s n \<and> (\<not> sin_dirty (inodes s n) \<longrightarrow> span (bytes s) (sin_ino (inodes s n) * 4096) 64 = din_bytes (sin_din (inodes s n))))"

definition on_disk :: "sfs_fs \<Rightarrow> sfs_fs \<Rightarrow> nat \<Rightarrow> bool" where
  "on_disk s s' n \<longleftrightarrow> span (bytes s') (sin_ino (inodes s n) * 4096) 64 = din_bytes (sin_din (inodes s n))"

lemma sync_inodes_ok:
  assumes "fs_ok s" "inodes_ok s ns"
  shows "\<exists>s'. sync_inodes s ns = Some s' \<and> touches ((\<lambda>n. sin_ino (inodes s n)) ` set ns) s s' \<and> super_dirty s' = super_dirty s \<and>
    (\<forall>n \<in> set ns. on_disk s s' n)"
  using assms
proof (induction ns arbitrary: s)
  case Nil
  then show ?case by (simp add: touches_def)
next
  case (Cons n ns)
  have nk: "node_ok s n" using Cons.prems(2) by (simp add: inodes_ok_def)
  obtain s1 where s1: "vop_fsync s n = Some (0, s1)" "touches {sin_ino (inodes s n)} s s1" "super_dirty s1 = super_dirty s"
      "inodes s1 = (inodes s)(n := (inodes s n)\<lparr>sin_dirty := False\<rparr>)"
      "if sin_dirty (inodes s n) then span (bytes s1) (sin_ino (inodes s n) * 4096) 64 = din_bytes (sin_din (inodes s n)) else bytes s1 = bytes s"
    using vop_fsync_ok[OF Cons.prems(1) nk] by blast
  have d: "n \<notin> set ns" "sin_ino (inodes s n) \<notin> (\<lambda>q. sin_ino (inodes s q)) ` set ns" using Cons.prems(2) by (auto simp: inodes_ok_def)
  have dq: "sin_ino (inodes s q) \<noteq> sin_ino (inodes s n)" if "q \<in> set ns" for q
    using d(2) that by (metis (mono_tags, lifting) image_eqI)
  have eq: "inodes s1 q = inodes s q" if "q \<in> set ns" for q using s1(4) that d(1) by auto
  have sp: "span (bytes s1) (sin_ino (inodes s q) * 4096) 64 = span (bytes s) (sin_ino (inodes s q) * 4096) 64" if "q \<in> set ns" for q
    using touches_block[OF s1(2), of "sin_ino (inodes s q)" 64] dq[OF that] by simp
  have nk1: "node_ok s1 q" if "q \<in> set ns" for q
    using Cons.prems(2) that blk_ok_sframe[OF touches_sframe[OF s1(2)]] sframe_meta[OF touches_sframe[OF s1(2)]] touches_free[OF s1(2)]
    by (auto simp: inodes_ok_def node_ok_def Let_def eq)
  have "inj_on (\<lambda>q. sin_ino (inodes s1 q)) (set ns)" using Cons.prems(2) eq by (auto simp: inodes_ok_def inj_on_def)
  then have "inodes_ok s1 ns" using Cons.prems(2) nk1 sp eq by (auto simp: inodes_ok_def)
  from Cons.IH[OF _ this] obtain s2 where s2: "sync_inodes s1 ns = Some s2" "touches ((\<lambda>q. sin_ino (inodes s1 q)) ` set ns) s1 s2"
      "super_dirty s2 = super_dirty s1" "\<forall>q \<in> set ns. on_disk s1 s2 q"
    using s1(2) by (auto simp: touches_def)
  have im: "(\<lambda>q. sin_ino (inodes s1 q)) ` set ns = (\<lambda>q. sin_ino (inodes s q)) ` set ns" using eq by (intro image_cong) auto
  have "span (bytes s2) (sin_ino (inodes s n) * 4096) 64 = span (bytes s1) (sin_ino (inodes s n) * 4096) 64"
    using touches_block[OF s2(2)[unfolded im], of "sin_ino (inodes s n)" 64] d(2) by simp
  then have "on_disk s s2 n" using s1(5) Cons.prems(2) by (auto simp: on_disk_def inodes_ok_def split: if_splits)
  moreover have "\<forall>q \<in> set ns. on_disk s s2 q" using s2(4) eq by (auto simp: on_disk_def)
  moreover have "touches ((\<lambda>q. sin_ino (inodes s q)) ` set (n # ns)) s s2" using touches_trans[OF s1(2) s2(2)[unfolded im]] by simp
  ultimately show ?case using s1(1,3) s2(1,3) by auto
qed

lemma sfs_sync_ok:
  assumes v: "vol_ok s" and i: "inodes_ok s (inode_list s)" and m: "super_dirty s \<or> meta_on_disk s"
  shows "\<exists>s'. sfs_sync s = Some (0, s') \<and> touches ((\<lambda>n. sin_ino (inodes s n)) ` set (inode_list s) \<union> meta_blocks s) s s' \<and> meta_on_disk s' \<and>
    (\<forall>n \<in> set (inode_list s). on_disk s s' n)"
proof -
  let ?I = "(\<lambda>n. sin_ino (inodes s n)) ` set (inode_list s)"
  obtain s1 where s1: "sync_inodes s (inode_list s) = Some s1" "touches ?I s s1" "super_dirty s1 = super_dirty s" "\<forall>n \<in> set (inode_list s). on_disk s s1 n"
    using sync_inodes_ok[OF _ i] v by (auto simp: vol_ok_def)
  have dj: "?I \<inter> meta_blocks s = {}" using i by (auto simp: inodes_ok_def node_ok_def Let_def)
  have mb: "meta_blocks s1 = meta_blocks s" using sframe_meta[OF touches_sframe[OF s1(2)]] .
  show ?thesis
  proof (cases "super_dirty s")
    case True
    let ?s = "s1\<lparr>super_dirty := False\<rparr>"
    have "vol_ok ?s" using touches_vol_ok[OF s1(2) v] by (simp add: vol_ok_def)
    from sync_meta_ok[OF this] obtain s2 s3 where s3: "sfs_sync_super ?s = Some (0, s2)" "sfs_sync_freemap s2 = Some (0, s3)"
        "touches (meta_blocks s) s1 s3" "meta_on_disk s3"
      using mb by auto
    have "on_disk s s3 n" if "n \<in> set (inode_list s)" for n
      using touches_block[OF s3(3), of "sin_ino (inodes s n)" 64] s1(4) dj that by (auto simp: on_disk_def)
    then show ?thesis using True s1 s3 touches_trans[OF s1(2) s3(3)] by (intro exI[of _ s3]) (simp add: sfs_sync_def)
  next
    case False
    have e: "super s1 = super s" "freemap s1 = freemap s" using s1(2) by (simp_all add: touches_def)
    have "span (bytes s1) 0 4096 = span (bytes s) 0 4096" using dj touches_block[OF s1(2), of 0 4096] by (auto simp: meta_blocks_def)
    moreover have "span (bytes s1) 8192 (sfs_freemap_blocks (super s) * 4096) = span (bytes s) 8192 (sfs_freemap_blocks (super s) * 4096)"
    proof (rule touches_span[OF s1(2)])
      fix x assume "8192 \<le> x" "x < 8192 + sfs_freemap_blocks (super s) * 4096"
      then have "x div 4096 \<in> meta_blocks s" by (auto simp: meta_blocks_def)
      then show "x div 4096 \<notin> ?I" using dj by blast
    qed
    ultimately have "meta_on_disk s1" using False m e by (simp add: meta_on_disk_def)
    moreover have "touches (?I \<union> meta_blocks s) s s1" using s1(2) by (auto simp: touches_def)
    ultimately show ?thesis using False s1 by (intro exI[of _ s1]) (simp add: sfs_sync_def)
  qed
qed

subsection \<open>Mounting what was written\<close>

text \<open>A device in order with the drive of the volume: what reading it changes is only its buffer.\<close>

definition same_drive :: "sfs_fs \<Rightarrow> disk0 \<Rightarrow> bool" where
  "same_drive s dv \<longleftrightarrow> drive dv = drive (sdev s) \<and> d_blocks dv = d_blocks (sdev s) \<and> disk0_ok dv"

lemma init_read_ok:
  assumes "fs_ok s" "same_drive s dv" "b < sb_blocks (super s)" "4096 \<le> length buf"
  shows "\<exists>dv'. sfs_init_read dv b buf = Some (0, patch buf 0 (span (bytes s) (b * 4096) 4096), dv') \<and> same_drive s dv'"
proof -
  have "fs_ok (s\<lparr>sdev := dv\<rparr>)" using assms(1,2) by (intro fs_ok_dev) (simp_all add: same_drive_def)
  moreover have "bytes (s\<lparr>sdev := dv\<rparr>) = bytes s" using assms(2) by (simp add: bytes_def same_drive_def)
  ultimately show ?thesis using rwblock_io[of "s\<lparr>sdev := dv\<rparr>" b buf False] assms(2-4) by (auto simp: sfs_init_read_def same_drive_def)
qed

lemma init_freemap_loop_ok:
  assumes "fs_ok s" "same_drive s dv" "b + n \<le> sb_blocks (super s)" "length data = n * 4096"
  shows "\<exists>dv'. init_freemap_loop dv b n data = Some (0, span (bytes s) (b * 4096) (n * 4096), dv') \<and> same_drive s dv'"
  using assms(2-)
proof (induction n arbitrary: dv b data)
  case (Suc n)
  let ?b = "patch data 0 (span (bytes s) (b * 4096) 4096)"
  obtain dv1 where d1: "sfs_init_read dv b data = Some (0, ?b, dv1)" "same_drive s dv1"
    using init_read_ok[OF assms(1) Suc.prems(1), of b data] Suc.prems(2,3) by auto
  have p: "take 4096 ?b = span (bytes s) (b * 4096) 4096" "length (drop 4096 ?b) = n * 4096" using Suc.prems(3) by (simp_all add: patch_def)
  obtain dv2 where d2: "init_freemap_loop dv1 (Suc b) n (drop 4096 ?b) = Some (0, span (bytes s) (Suc b * 4096) (n * 4096), dv2)" "same_drive s dv2"
    using Suc.IH[OF d1(2) _ p(2), of "Suc b"] Suc.prems(2) by auto
  have "span (bytes s) (b * 4096) 4096 @ span (bytes s) (Suc b * 4096) (n * 4096) = span (bytes s) (b * 4096) (Suc n * 4096)"
    using span_append[of "bytes s" "b * 4096" 4096 "n * 4096"] by (simp add: add.commute)
  then show ?case using d1(1) d2 p(1) by simp
qed simp

lemma le_words_words: "map word_of_nat (le_words (length ws) (words_bytes ws)) = ws"
proof -
  have w: "words_bytes ws = concat (map (le_bytes 4) (map unat ws)) @ []" by (simp add: words_bytes_def comp_def)
  have "le_words (length ws) (words_bytes ws) = map unat ws"
    unfolding w by (rule le_words_bytes) (auto simp: unsigned_less[where ?'a = nat, simplified] intro: order_less_le_trans[OF unsigned_less])
  then show ?thesis by (simp add: comp_def)
qed

lemma count_free_ok: "bitmap_inv fm \<Longrightarrow> n \<le> nbits fm \<Longrightarrow> count_free fm n = Some (card (free_bits fm \<inter> {..<n}))"
proof (induction n)
  case (Suc n)
  then have "free_bits fm \<inter> {..<Suc n} = (if n \<in> free_bits fm then insert n (free_bits fm \<inter> {..<n}) else free_bits fm \<inter> {..<n})"
    by (auto simp: lessThan_Suc)
  then show ?case using Suc bitmap_test_ok[of fm n] by simp
qed simp

lemma super_roundtrip:
  assumes "length (sb_info sb) = 32" "sb_info sb ! 31 = 0" "sb_magic sb < 2 ^ 32" "sb_blocks sb < 2 ^ 32" "sb_unused sb < 2 ^ 32"
  shows "super_of (super_block sb) = sb"
proof -
  have p: "super_block sb = le_bytes 4 (sb_magic sb) @ le_bytes 4 (sb_blocks sb) @ le_bytes 4 (sb_unused sb) @ sb_info sb @ replicate 4052 0"
    using assms(1) by (simp add: super_block_def super_bytes_def patch_def)
  have "take 31 (sb_info sb) @ [0] = sb_info sb" using assms(1,2) take_Suc_conv_app_nth[of 31 "sb_info sb"] by simp
  moreover have "take 31 (sb_info sb @ replicate 4052 0) = take 31 (sb_info sb)" using assms(1) by simp
  ultimately show ?thesis unfolding super_of_def p using assms(3-5) by simp
qed

lemma freemap_sizes:
  assumes "sb_blocks sb \<le> 2 ^ 19"
  shows "sfs_freemap_bits sb = sfs_freemap_blocks sb * 32768" "sfs_freemap_bits sb \<le> 2 ^ 20" "0 < sb_blocks sb \<Longrightarrow> 0 < sfs_freemap_blocks sb"
proof -
  have a: "(sb_blocks sb + 32767) mod 2 ^ 32 = sb_blocks sb + 32767" using assms by simp
  show "sfs_freemap_bits sb = sfs_freemap_blocks sb * 32768"
    unfolding sfs_freemap_bits_def sfs_freemap_blocks_def a Let_def by (simp add: minus_mod_eq_div_mult)
  show "sfs_freemap_bits sb \<le> 2 ^ 20" unfolding sfs_freemap_bits_def a Let_def using assms by simp
  show "0 < sb_blocks sb \<Longrightarrow> 0 < sfs_freemap_blocks sb" unfolding sfs_freemap_blocks_def a by simp
qed

definition mount_granted :: "mount_mem \<Rightarrow> bool" where
  "mount_granted mm \<longleftrightarrow> mnt_fs mm \<and> (\<exists>raw. mnt_buffer mm = Some raw \<and> length raw = 4096) \<and> mnt_hash mm \<and> mnt_map1 mm \<and> mnt_map2 mm"

lemma mount_freemap:
  assumes v: "vol_ok s" and m: "meta_on_disk s" and d: "same_drive s dv"
  shows "\<exists>b0 dv'. bitmap_create True True (sfs_freemap_bits (super s)) = Some (Some b0) \<and>
    sfs_init_freemap dv b0 2 (sfs_freemap_blocks (super s)) = Some (0, freemap s, dv') \<and> same_drive s dv' \<and>
    count_free (freemap s) (sfs_freemap_bits (super s)) = Some (sb_unused (super s))"
proof -
  let ?sb = "super s" and ?n = "sfs_freemap_blocks (super s)" and ?ws = "bwords (freemap s)"
  have fs: "fs_ok s" "2 + ?n \<le> sb_blocks ?sb" "4 * nwords (freemap s) = ?n * 4096" "nbits (freemap s) = sfs_freemap_bits ?sb"
    "sb_blocks ?sb \<le> 2 ^ 19" "bitmap_inv (freemap s)" "sb_unused ?sb = card (free s)" using v by (auto simp: vol_ok_def fs_ok_def)
  define b0 where "b0 = \<lparr>nbits = sfs_freemap_bits ?sb, nwords = ?n * 1024, bwords = replicate (?n * 1024) (NOT 0 :: u32)\<rparr>"
  have sz: "sfs_freemap_bits ?sb = ?n * 32768" "sfs_freemap_bits ?sb \<le> 2 ^ 20" "0 < ?n" using freemap_sizes[OF fs(5)] fs(2) by auto
  have "(?n * 32768 + 31) div 32 = ?n * 1024" by simp
  then have c: "bitmap_create True True (sfs_freemap_bits ?sb) = Some (Some b0)" using sz by (simp add: bitmap_create_def b0_def Let_def)
  have l: "length (words_bytes (bwords b0)) = ?n * 4096" "length ?ws = ?n * 1024" using fs(3,6) by (simp_all add: b0_def bitmap_inv_def)
  obtain dv' where d': "init_freemap_loop dv 2 ?n (words_bytes (bwords b0)) = Some (0, span (bytes s) (2 * 4096) (?n * 4096), dv')" "same_drive s dv'"
    using init_freemap_loop_ok[OF fs(1) d fs(2) l(1)] by blast
  have sp: "span (bytes s) (2 * 4096) (?n * 4096) = words_bytes ?ws" using m by (simp add: meta_on_disk_def)
  have "length (bwords b0) = length ?ws" using l(2) by (simp add: b0_def)
  then have "map word_of_nat (le_words (length (bwords b0)) (words_bytes ?ws)) = ?ws" using le_words_words by simp
  moreover have "b0\<lparr>bwords := ?ws\<rparr> = freemap s" using fs(3,4) by (simp add: b0_def)
  ultimately have f: "sfs_init_freemap dv b0 2 ?n = Some (0, freemap s, dv')"
    using d'(1) sp by (simp add: sfs_init_freemap_def bitmap_getdata_def) (simp add: b0_def)
  have "free_bits (freemap s) \<inter> {..<sfs_freemap_bits ?sb} = free s" using fs(4,6) by (auto simp: bitmap_inv_def free_def)
  then have "count_free (freemap s) (sfs_freemap_bits ?sb) = Some (sb_unused ?sb)" using count_free_ok[OF fs(6)] fs(4,7) by simp
  then show ?thesis using c f d'(2) by blast
qed

lemma sfs_do_mount_ok:
  assumes v: "vol_ok s" and m: "meta_on_disk s" and g: "mount_granted mm"
  shows "\<exists>t dv. sfs_do_mount (sdev s) 4096 mm store = Some (0, Some t, dv) \<and> vol_ok t \<and> super t = super s \<and> freemap t = freemap s \<and>
    bytes t = bytes s \<and> inode_list t = [] \<and> hash_list t = (\<lambda>_. [])"
proof -
  let ?sb = "super s"
  obtain raw where raw: "mnt_buffer mm = Some raw" "length raw = 4096" using g by (auto simp: mount_granted_def)
  have fs: "fs_ok s" "0 < sb_blocks ?sb" "sb_magic ?sb = SFS_MAGIC" "length (sb_info ?sb) = 32" "sb_info ?sb ! 31 = 0" using v by (auto simp: vol_ok_def)
  have dv: "same_drive s (sdev s)" "sb_blocks ?sb \<le> 2 ^ 19" "sb_blocks ?sb \<le> d_blocks (sdev s)"
      "sb_unused ?sb = card (free s)" "free s \<subseteq> {0<..<sb_blocks ?sb}"
    using fs(1) by (auto simp: fs_ok_def same_drive_def)
  have un: "sb_unused ?sb < 2 ^ 32" using card_mono[OF _ dv(5)] dv(2,4) by simp
  have sr: "super_of (super_block ?sb) = ?sb" using super_roundtrip[of ?sb] fs(3-5) dv(2) un by simp
  obtain dv1 where d1: "sfs_init_read (sdev s) 0 raw = Some (0, super_block ?sb, dv1)" "same_drive s dv1"
    using init_read_ok[OF fs(1) dv(1), of 0 raw] fs(2) raw(2) m by (auto simp: meta_on_disk_def patch_0_all length_super_block fs(4))
  obtain b0 dv2 where f: "bitmap_create True True (sfs_freemap_bits ?sb) = Some (Some b0)"
      "sfs_init_freemap dv1 b0 2 (sfs_freemap_blocks ?sb) = Some (0, freemap s, dv2)" "same_drive s dv2"
      "count_free (freemap s) (sfs_freemap_bits ?sb) = Some (sb_unused ?sb)"
    using mount_freemap[OF v m d1(2)] by blast
  let ?t = "\<lparr>super = ?sb, sdev = dv2, freemap = freemap s, super_dirty = False, sfs_buffer = (super_block ?sb)[43 := 0],
                 inodes = store, inode_list = [], hash_list = (\<lambda>_. [])\<rparr>"
  have "d_blocks dv1 = d_blocks (sdev s)" using d1(2) by (simp add: same_drive_def)
  then have "mount_super ?sb ((super_block ?sb)[43 := 0]) dv1 mm store = Some (0, Some ?t, dv2)"
    using fs(3) dv(3) g f by (simp add: mount_super_def mount_granted_def)
  then have e: "sfs_do_mount (sdev s) 4096 mm store = Some (0, Some ?t, dv2)" using raw(1) d1(1) sr g by (simp add: sfs_do_mount_def mount_granted_def)
  have "fs_ok ?t" using fs(1) f(3) length_super_block[OF fs(4)] by (simp add: fs_ok_def same_drive_def free_def)
  then have "vol_ok ?t" using v by (simp add: vol_ok_def meta_blocks_def free_def)
  moreover have "bytes ?t = bytes s" using f(3) by (simp add: bytes_def same_drive_def)
  ultimately show ?thesis using e by (intro exI[of _ ?t] exI[of _ dv2]) simp
qed

text \<open>
  C39. A volume survives being written back and mounted again: \<^verbatim>\<open>sfs_sync\<close> succeeds, mounting the device after
  it succeeds with the super block and the free map there were in memory, every inode that was in memory
  is loaded from disk as it was, and no block but those of the inodes, the super block and the free map
  has changed.
\<close>
theorem sync_mount_roundtrip:
  assumes "vol_ok s" "inodes_ok s (inode_list s)" "super_dirty s \<or> meta_on_disk s" "mount_granted mm"
  shows "\<exists>s' t dv. sfs_sync s = Some (0, s') \<and> sfs_do_mount (sdev s') 4096 mm store = Some (0, Some t, dv) \<and>
    vol_ok t \<and> super t = super s \<and> freemap t = freemap s \<and>
    (\<forall>n \<in> set (inode_list s). din_wf (sin_din (inodes s n)) \<and> din_nlinks (sin_din (inodes s n)) \<noteq> 0 \<and>
       din_type (sin_din (inodes s n)) \<in> {SFS_TYPE_DIR, SFS_TYPE_FILE} \<longrightarrow>
       (\<forall>a. \<exists>t'. sfs_load_inode t (sin_ino (inodes s n)) True (Some a) = Some (0, a, t') \<and> sin_din (inodes t' a) = sin_din (inodes s n))) \<and>
    (\<forall>x. x div 4096 \<notin> (\<lambda>n. sin_ino (inodes s n)) ` set (inode_list s) \<union> meta_blocks s \<longrightarrow> bytes t x = bytes s x)"
proof -
  obtain s' where s': "sfs_sync s = Some (0, s')" "touches ((\<lambda>n. sin_ino (inodes s n)) ` set (inode_list s) \<union> meta_blocks s) s s'"
      "meta_on_disk s'" "\<forall>n \<in> set (inode_list s). on_disk s s' n"
    using sfs_sync_ok[OF assms(1-3)] by blast
  obtain t dv where t: "sfs_do_mount (sdev s') 4096 mm store = Some (0, Some t, dv)" "vol_ok t" "super t = super s'" "freemap t = freemap s'"
      "bytes t = bytes s'" "hash_list t = (\<lambda>_. [])"
    using sfs_do_mount_ok[OF touches_vol_ok[OF s'(2) assms(1)] s'(3) assms(4), of store] by blast
  have e: "super t = super s" "freemap t = freemap s" "fs_ok t" using t(2-4) s'(2) by (auto simp: touches_def vol_ok_def)
  have "\<exists>t'. sfs_load_inode t (sin_ino (inodes s n)) True (Some a) = Some (0, a, t') \<and> sin_din (inodes t' a) = sin_din (inodes s n)"
    if n: "n \<in> set (inode_list s)" and d: "din_wf (sin_din (inodes s n))" "din_nlinks (sin_din (inodes s n)) \<noteq> 0"
      "din_type (sin_din (inodes s n)) \<in> {SFS_TYPE_DIR, SFS_TYPE_FILE}" for n a
  proof -
    have "blk_ok t (sin_ino (inodes s n))" "sin_ino (inodes s n) \<notin> free t"
      using assms(2) n e by (auto simp: inodes_ok_def node_ok_def Let_def blk_ok_def free_def)
    moreover have "span (bytes t) (sin_ino (inodes s n) * 4096) 64 = din_bytes (sin_din (inodes s n))" using s'(4) n t(5) by (simp add: on_disk_def)
    ultimately show ?thesis using load_inode_fresh[OF e(3) _ _ _ _ d, of "sin_ino (inodes s n)" a] t(6) by (auto simp: fresh_sin_def)
  qed
  then show ?thesis using s'(1,2) t(1,2,5) e by (intro exI[of _ s'] exI[of _ t] exI[of _ dv]) (simp add: touches_def)
qed

text \<open>The volume with its root directory in memory, changed and not yet written back.\<close>

definition live_sfs :: sfs_fs where
  "live_sfs = (put root_sfs 100 ((inodes root_sfs 100)\<lparr>sin_dirty := True\<rparr>))\<lparr>super_dirty := True, inode_list := [100]\<rparr>"

definition mount_all :: mount_mem where
  "mount_all = \<lparr>mnt_fs = True, mnt_buffer = Some (replicate 4096 0), mnt_hash = True, mnt_map1 = True, mnt_map2 = True\<rparr>"

theorem sync_mount_roundtrip_witness:
  "\<exists>s' t dv. sfs_sync live_sfs = Some (0, s') \<and> sfs_do_mount (sdev s') 4096 mount_all (\<lambda>_. empty_file) = Some (0, Some t, dv) \<and>
     freemap t = freemap live_sfs \<and> (\<exists>t'. sfs_load_inode t 1 True (Some 5) = Some (0, 5, t') \<and> sin_din (inodes t' 5) = new_dir 0)"
proof -
  have f: "free live_sfs = free root_sfs" "super live_sfs = super root_sfs" "meta_blocks live_sfs = meta_blocks root_sfs"
    by (simp_all add: live_sfs_def free_def meta_blocks_def)
  have "fs_ok live_sfs" using root_sfs_ok by (simp add: live_sfs_def vol_ok_def fs_ok_def free_def)
  then have "vol_ok live_sfs" using root_sfs_ok f by (simp add: vol_ok_def) (simp add: live_sfs_def)
  moreover have i: "inode_list live_sfs = [100]" "sin_din (inodes live_sfs 100) = new_dir 0" "sin_ino (inodes live_sfs 100) = 1"
    by (simp_all add: live_sfs_def root_sfs_def)
  have "node_ok root_sfs 100" using root_dir_ok by (simp add: dir_node_ok_def Let_def)
  then have "node_ok live_sfs 100" by (simp add: node_ok_def Let_def f blk_ok_def) (simp add: live_sfs_def)
  then have "inodes_ok live_sfs (inode_list live_sfs)" by (simp add: inodes_ok_def i) (simp add: live_sfs_def)
  moreover have "super_dirty live_sfs" by (simp add: live_sfs_def)
  moreover have "mount_granted mount_all" by (simp add: mount_granted_def mount_all_def)
  moreover have "din_wf (new_dir 0)" "din_nlinks (new_dir 0) \<noteq> 0" "din_type (new_dir 0) \<in> {SFS_TYPE_DIR, SFS_TYPE_FILE}"
    by (simp_all add: new_dir_def din_wf_def sfs_types)
  ultimately show ?thesis using sync_mount_roundtrip[of live_sfs mount_all "\<lambda>_. empty_file"] unfolding i by (auto simp: i)
qed

end
