(* ===== verification/Printfmt.thy ===== *)
theory Printfmt
  imports Kstring
begin

text \<open>
  Formatted output (\<^verbatim>\<open>libs/printfmt.c\<close>), the two-step 64-bit division it uses (\<^verbatim>\<open>do_div\<close> of
  \<^verbatim>\<open>libs/x86.h\<close>), pseudo-random numbers (\<^verbatim>\<open>libs/rand.c\<close>) and line input (\<^verbatim>\<open>kern/libs/readline.c\<close>).

  What a formatting routine prints is the list of the characters it passes to \<^verbatim>\<open>putch\<close>, in order. The
  variable arguments are a list of tagged values; taking one that is missing or of another size is \<open>None\<close>.
\<close>

subsection \<open>Division of a 64-bit by a 32-bit number\<close>

text \<open>\<^verbatim>\<open>divl\<close> divides the number in \<^verbatim>\<open>edx:eax\<close> and traps when the quotient does not fit a register.\<close>

definition divl :: "nat \<Rightarrow> nat \<Rightarrow> nat \<Rightarrow> (nat \<times> nat) option" where
  "divl upper low base =
     (let n = upper * 2 ^ 32 + low in
      if base = 0 \<or> n div base \<ge> 2 ^ 32 then None else Some (n div base, n mod base))"

definition do_div :: "nat \<Rightarrow> nat \<Rightarrow> (nat \<times> nat) option" where
  "do_div n base = do {
     let low = n mod 2 ^ 32;
     let high = n div 2 ^ 32;
     (if high \<noteq> 0 \<and> base = 0 then None else Some ());
     let upper = (if high \<noteq> 0 then high mod base else high);
     let high' = (if high \<noteq> 0 then high div base else high);
     (low', md) \<leftarrow> divl upper low base;
     Some (high' * 2 ^ 32 + low', md) }"

subsection \<open>Numbers\<close>

definition hex_digits :: "u8 list" where
  "hex_digits = [48, 49, 50, 51, 52, 53, 54, 55, 56, 57, 97, 98, 99, 100, 101, 102, 0]"

definition digit_char :: "nat \<Rightarrow> u8 option" where
  "digit_char d = (if d < 17 then Some (hex_digits ! d) else None)"

partial_function (option) printnum :: "nat \<Rightarrow> nat \<Rightarrow> int \<Rightarrow> u8 \<Rightarrow> u8 list option" where
  "printnum num base width padc = do {
     (result, md) \<leftarrow> do_div num base;
     pre \<leftarrow> (if num \<ge> base then printnum result base (width - 1) padc
             else Some (replicate (nat (width - 1)) padc));
     c \<leftarrow> digit_char md;
     Some (pre @ [c]) }"

subsection \<open>Arguments\<close>

datatype va = VInt u32 | VLLong "64 word" | VStr "u8 list option"

definition getuint :: "va list \<Rightarrow> nat \<Rightarrow> (nat \<times> va list) option" where
  "getuint ap lflag = (case ap of
     VLLong w # r \<Rightarrow> if lflag \<ge> 2 then Some (unat w, r) else None
   | VInt w # r \<Rightarrow> if lflag < 2 then Some (unat w, r) else None
   | _ \<Rightarrow> None)"

definition getint :: "va list \<Rightarrow> nat \<Rightarrow> (int \<times> va list) option" where
  "getint ap lflag = (case ap of
     VLLong w # r \<Rightarrow> if lflag \<ge> 2 then Some (sint w, r) else None
   | VInt w # r \<Rightarrow> if lflag < 2 then Some (sint w, r) else None
   | _ \<Rightarrow> None)"

definition va_int :: "va list \<Rightarrow> (u32 \<times> va list) option" where
  "va_int ap = (case ap of VInt w # r \<Rightarrow> Some (w, r) | _ \<Rightarrow> None)"

definition va_str :: "va list \<Rightarrow> (u8 list option \<times> va list) option" where
  "va_str ap = (case ap of VStr p # r \<Rightarrow> Some (p, r) | _ \<Rightarrow> None)"

subsection \<open>Error messages\<close>

definition ascii :: "string \<Rightarrow> u8 list" where
  "ascii = map (\<lambda>c. word_of_nat (of_char c))"

definition error_string :: "nat \<Rightarrow> u8 list option" where
  "error_string e = map_of
    [(1, ascii ''unspecified error''), (2, ascii ''bad process''), (3, ascii ''invalid parameter''),
     (4, ascii ''out of memory''), (5, ascii ''out of processes''), (6, ascii ''segmentation fault''),
     (8, ascii ''invalid elf file''), (9, ascii ''process is killed''), (10, ascii ''panic failure''),
     (13, ascii ''no such device''), (14, ascii ''device not available''), (15, ascii ''device/file is busy''),
     (16, ascii ''no such file or directory''), (17, ascii ''is a directory''), (18, ascii ''not a directory''),
     (19, ascii ''cross device link''), (20, ascii ''unimplemented feature''), (21, ascii ''illegal seek''),
     (22, ascii ''too many files are open''), (23, ascii ''file or directory already exists''),
     (24, ascii ''directory is not empty'')] e"

subsection \<open>The conversions\<close>

record fmt_state =
  padc :: u8
  width :: int
  precision :: int
  lflag :: nat
  altflag :: bool

definition fmt_init :: fmt_state where
  "fmt_init = \<lparr>padc = 32, width = -1, precision = -1, lflag = 0, altflag = False\<rparr>"

definition process_precision :: "fmt_state \<Rightarrow> fmt_state" where
  "process_precision st = (if width st < 0 then st\<lparr>width := precision st, precision := -1\<rparr> else st)"

fun width_digits :: "int \<Rightarrow> u8 list \<Rightarrow> (int \<times> u8 list) option" where
  "width_digits v [] = None"
| "width_digits v (c # r) = (if 48 \<le> c \<and> c \<le> 57 then width_digits (v * 10 + (uint c - 48)) r else Some (v, c # r))"

text \<open>The loop that prints the characters of a string argument; \<open>w\<close> is the width left.\<close>

fun put_string :: "u8 list \<Rightarrow> int \<Rightarrow> int \<Rightarrow> bool \<Rightarrow> u8 list option" where
  "put_string [] prec w alt = None"
| "put_string (c # p) prec w alt =
     (if c \<noteq> 0 \<and> (prec < 0 \<or> prec - 1 \<ge> 0)
      then map_option (\<lambda>out. (if alt \<and> (sint c < 32 \<or> sint c > 126) then 63 else c) # out)
             (put_string p (if prec < 0 then prec else prec - 1) (w - 1) alt)
      else Some (replicate (nat w) 32))"

definition fmt_string :: "fmt_state \<Rightarrow> u8 list option \<Rightarrow> u8 list option" where
  "fmt_string st arg = do {
     let p = (case arg of None \<Rightarrow> ascii ''(null)'' @ [0] | Some s \<Rightarrow> s);
     (pad, w) \<leftarrow> (if width st > 0 \<and> padc st \<noteq> 45 then do {
         n \<leftarrow> (if precision st < 0 then strlen p else strnlen p (nat (precision st)));
         let w = width st - int n;
         Some (replicate (nat w) (padc st), if w > 0 then 0 else w) }
       else Some ([], width st));
     out \<leftarrow> put_string p (precision st) w (altflag st);
     Some (pad @ out) }"

definition fmt_signed :: "fmt_state \<Rightarrow> int \<Rightarrow> u8 list option" where
  "fmt_signed st num = (if num < 0
     then map_option ((#) 45) (printnum (nat (- num)) 10 (width st) (padc st))
     else printnum (nat num) 10 (width st) (padc st))"

definition fmt_error :: "u32 \<Rightarrow> u8 list option" where
  "fmt_error arg = (let err = nat \<bar>sint arg\<bar> in
     if err > 24 then map_option ((@) (ascii ''error '')) (fmt_signed fmt_init (int err))
     else (case error_string err of
       None \<Rightarrow> map_option ((@) (ascii ''error '')) (fmt_signed fmt_init (int err))
     | Some p \<Rightarrow> fmt_string fmt_init (Some (p @ [0]))))"

definition conv :: "u8 \<Rightarrow> fmt_state \<Rightarrow> va list \<Rightarrow> (u8 list \<times> va list) option option" where
  "conv ch st ap =
     (if ch = 99 then Some (do { (w, r) \<leftarrow> va_int ap; Some ([ucast w], r) })
      else if ch = 101 then Some (do { (w, r) \<leftarrow> va_int ap; out \<leftarrow> fmt_error w; Some (out, r) })
      else if ch = 115 then Some (do { (p, r) \<leftarrow> va_str ap; out \<leftarrow> fmt_string st p; Some (out, r) })
      else if ch = 100 then Some (do { (n, r) \<leftarrow> getint ap (lflag st); out \<leftarrow> fmt_signed st n; Some (out, r) })
      else if ch = 117 then Some (do { (n, r) \<leftarrow> getuint ap (lflag st); out \<leftarrow> printnum n 10 (width st) (padc st); Some (out, r) })
      else if ch = 111 then Some (do { (n, r) \<leftarrow> getuint ap (lflag st); out \<leftarrow> printnum n 8 (width st) (padc st); Some (out, r) })
      else if ch = 112 then Some (do { (w, r) \<leftarrow> va_int ap; out \<leftarrow> printnum (unat w) 16 (width st) (padc st); Some (48 # 120 # out, r) })
      else if ch = 120 then Some (do { (n, r) \<leftarrow> getuint ap (lflag st); out \<leftarrow> printnum n 16 (width st) (padc st); Some (out, r) })
      else if ch = 37 then Some (Some ([ch], ap))
      else None)"

lemma width_digits_length: "width_digits v r = Some (v', r') \<Longrightarrow> length r' \<le> length r"
  by (induction v r rule: width_digits.induct) (auto split: if_splits)

text \<open>
  From \<^verbatim>\<open>reswitch\<close> to the end of one escape sequence: what it prints, the format from where the main loop
  goes on, and the arguments left. \<open>start\<close> is the format behind the percent sign, where printing
  resumes after an unrecognised sequence.
\<close>

function escape :: "u8 list \<Rightarrow> u8 list \<Rightarrow> fmt_state \<Rightarrow> va list \<Rightarrow> (u8 list \<times> u8 list \<times> va list) option" where
  "escape start [] st ap = None"
| "escape start (ch # r) st ap =
     (if ch = 45 then escape start r (st\<lparr>padc := 45\<rparr>) ap
      else if ch = 48 then escape start r (st\<lparr>padc := 48\<rparr>) ap
      else if 49 \<le> ch \<and> ch \<le> 57 then
        (case width_digits (uint ch - 48) r of
           None \<Rightarrow> None
         | Some (v, r1) \<Rightarrow> escape start r1 (process_precision (st\<lparr>precision := v\<rparr>)) ap)
      else if ch = 42 then
        (case va_int ap of
           None \<Rightarrow> None
         | Some (w, ap1) \<Rightarrow> escape start r (process_precision (st\<lparr>precision := sint w\<rparr>)) ap1)
      else if ch = 46 then escape start r (if width st < 0 then st\<lparr>width := 0\<rparr> else st) ap
      else if ch = 35 then escape start r (st\<lparr>altflag := True\<rparr>) ap
      else if ch = 108 then escape start r (st\<lparr>lflag := lflag st + 1\<rparr>) ap
      else (case conv ch st ap of
        Some res \<Rightarrow> (case res of None \<Rightarrow> None | Some (out, ap1) \<Rightarrow> Some (out, r, ap1))
      | None \<Rightarrow> Some ([37], start, ap)))"
  by pat_completeness auto
termination
  by (relation "measure (\<lambda>(start, fmt, st, ap). length fmt)") (auto dest: width_digits_length)

lemma escape_rest: "escape start fmt st ap = Some (out, rest, ap') \<Longrightarrow> rest = start \<or> length rest \<le> length fmt"
proof (induction fmt arbitrary: st ap rule: length_induct)
  case (1 fmt)
  show ?case
  proof (cases fmt)
    case (Cons ch r)
    have IH: "rest = start \<or> length rest \<le> length r" if "escape start r1 st1 ap1 = Some (out, rest, ap')" "length r1 \<le> length r" for r1 st1 ap1
    proof -
      have "length r1 < length fmt" using that(2) Cons by simp
      then have "rest = start \<or> length rest \<le> length r1" using 1(1) that(1) by blast
      with that(2) show ?thesis by auto
    qed
    from 1(2) show ?thesis unfolding Cons
      by (simp split: if_splits option.splits prod.splits) (fastforce dest: IH width_digits_length)+
  qed (use 1 in simp)
qed

lemma escape_length: "escape r r st ap = Some (out, rest, ap') \<Longrightarrow> length rest \<le> length r"
  using escape_rest by fastforce

function vprintfmt :: "u8 list \<Rightarrow> va list \<Rightarrow> u8 list option" where
  "vprintfmt [] ap = None"
| "vprintfmt (ch # r) ap =
     (if ch = 37 then
        (case escape r r fmt_init ap of
           None \<Rightarrow> None
         | Some (out, r1, ap1) \<Rightarrow> map_option ((@) out) (vprintfmt r1 ap1))
      else if ch = 0 then Some []
      else map_option ((#) ch) (vprintfmt r ap))"
  by pat_completeness auto
termination
  by (relation "measure (\<lambda>(fmt, ap). length fmt)") (auto dest!: escape_length)

subsection \<open>Printing into a buffer\<close>

text \<open>\<open>sb_buf\<close> is what has been stored, \<open>sb_room\<close> the bytes left before \<^verbatim>\<open>ebuf\<close>.\<close>

record sprintbuf =
  sb_buf :: "u8 list"
  sb_room :: nat
  sb_cnt :: nat

definition sprintputch :: "u8 \<Rightarrow> sprintbuf \<Rightarrow> sprintbuf" where
  "sprintputch ch b = (let b1 = b\<lparr>sb_cnt := sb_cnt b + 1\<rparr> in
     if sb_room b1 > 0 then b1\<lparr>sb_buf := sb_buf b1 @ [ch], sb_room := sb_room b1 - 1\<rparr> else b1)"

definition vsnprintf :: "bool \<Rightarrow> nat \<Rightarrow> u8 list \<Rightarrow> va list \<Rightarrow> (int \<times> u8 list) option" where
  "vsnprintf null sz fmt ap =
     (if null \<or> sz = 0 then Some (- E_INVAL, [])
      else do {
        out \<leftarrow> vprintfmt fmt ap;
        let b = fold sprintputch out \<lparr>sb_buf = [], sb_room = sz - 1, sb_cnt = 0\<rparr>;
        Some (int (sb_cnt b), sb_buf b @ [0]) })"

subsection \<open>Pseudo-random numbers\<close>

unbundle bit_operations_syntax

definition RAND_MAX :: nat where "RAND_MAX = 2147483647"

definition rand :: "64 word \<Rightarrow> (int \<times> 64 word) option" where
  "rand next = do {
     let next' = (next * 0x5DEECE66D + 0xB) AND (push_bit 48 1 - 1);
     (_, md) \<leftarrow> do_div (unat (drop_bit 12 next')) (RAND_MAX + 1);
     Some (sint (word_of_nat md :: u32), next') }"

definition srand :: "u32 \<Rightarrow> 64 word" where
  "srand seed = ucast seed"

subsection \<open>Line input\<close>

text \<open>
  The loop of \<^verbatim>\<open>readline\<close> over the characters the console delivers: the buffer of 1024 bytes, the position
  in it, and the result, the line or \<open>None\<close> for a failed read; the input left is returned. Running
  out of input is \<open>None\<close>.
\<close>

fun readline_loop :: "int list \<Rightarrow> u8 list \<Rightarrow> nat \<Rightarrow> (u8 list option \<times> u8 list \<times> int list) option" where
  "readline_loop [] buf i = None"
| "readline_loop (c # cs) buf i =
     (if c < 0 then Some (None, buf, cs)
      else if c \<ge> 32 \<and> i < 1024 - 1 then readline_loop cs (buf[i := word_of_int c]) (i + 1)
      else if c = 8 \<and> i > 0 then readline_loop cs buf (i - 1)
      else if c = 10 \<or> c = 13 then Some (Some (take i buf), buf[i := 0], cs)
      else readline_loop cs buf i)"

definition readline :: "int list \<Rightarrow> u8 list \<Rightarrow> (u8 list option \<times> u8 list \<times> int list) option" where
  "readline input buf = readline_loop (filter (\<lambda>c. c \<noteq> 0) input) buf 0"

subsection \<open>What the routines compute\<close>

lemma do_div_ok:
  assumes "0 < base" "base < 2 ^ 32" "n < 2 ^ 64"
  shows "do_div n base = Some (n div base, n mod base)"
proof -
  define low where "low = n mod 2 ^ 32"
  define high where "high = n div 2 ^ 32"
  have n: "n = high * 2 ^ 32 + low" "low < 2 ^ 32" by (simp_all add: low_def high_def)
  have hb: "(if high \<noteq> 0 then high mod base else high) = high mod base" "(if high \<noteq> 0 then high div base else high) = high div base"
    by simp_all
  let ?d = "high mod base * 2 ^ 32 + low"
  have "high mod base + 1 \<le> base" using assms(1) by (metis Suc_eq_plus1 Suc_leI mod_less_divisor)
  then have "(high mod base + 1) * 2 ^ 32 \<le> base * 2 ^ 32" by (rule mult_le_mono1)
  then have "?d < base * 2 ^ 32" using n(2) by simp
  then have q: "?d div base < 2 ^ 32" by (simp add: less_mult_imp_div_less mult.commute)
  have "high * 2 ^ 32 = (base * (high div base) + high mod base) * 2 ^ 32" by simp
  then have "n = base * (high div base * 2 ^ 32) + ?d" unfolding n(1) by (simp only: distrib_right mult.assoc add.assoc)
  then have "n div base = high div base * 2 ^ 32 + ?d div base" "n mod base = ?d mod base" using assms(1) by simp_all
  then show ?thesis using assms(1) q unfolding do_div_def Let_def low_def[symmetric] high_def[symmetric] hb
    by (simp add: divl_def Let_def)
qed

text \<open>The digits of a number, the most significant first.\<close>

fun nat_digits :: "nat \<Rightarrow> nat \<Rightarrow> nat list" where
  "nat_digits base n = (if base < 2 \<or> n < base then [n] else nat_digits base (n div base) @ [n mod base])"

declare nat_digits.simps [simp del]

lemma nat_digits_less: "2 \<le> base \<Longrightarrow> d \<in> set (nat_digits base n) \<Longrightarrow> d < base"
proof (induction base n rule: nat_digits.induct)
  case (1 base n)
  then show ?case by (cases "n < base") (auto simp: nat_digits.simps[of base n])
qed

lemma nat_digits_value: "2 \<le> base \<Longrightarrow> foldl (\<lambda>v d. v * base + d) 0 (nat_digits base n) = n"
proof (induction base n rule: nat_digits.induct)
  case (1 base n)
  then show ?case by (cases "n < base") (simp_all add: nat_digits.simps[of base n] mult.commute)
qed

lemma printnum_ok:
  "2 \<le> base \<Longrightarrow> base \<le> 16 \<Longrightarrow> n < 2 ^ 64 \<Longrightarrow>
   printnum n base w pad = Some (replicate (nat (w - int (length (nat_digits base n)))) pad @ map (\<lambda>d. hex_digits ! d) (nat_digits base n))"
proof (induction base n arbitrary: w rule: nat_digits.induct)
  case (1 base n)
  have d: "do_div n base = Some (n div base, n mod base)" using 1(2-4) by (intro do_div_ok) simp_all
  have "0 < base" using 1(2) by simp
  then have "n mod base < 17" using mod_less_divisor[of base n] 1(3) by linarith
  then have c: "digit_char (n mod base) = Some (hex_digits ! (n mod base))" by (simp add: digit_char_def)
  show ?case
  proof (cases "n < base")
    case True
    then show ?thesis using d c by (simp add: printnum.simps[of n base] nat_digits.simps[of base n])
  next
    case False
    have "n div base < 2 ^ 64" using 1(4) div_le_dividend[of n base] by linarith
    then have "printnum (n div base) base (w - 1) pad = Some (replicate (nat (w - 1 - int (length (nat_digits base (n div base))))) pad @
        map (\<lambda>d. hex_digits ! d) (nat_digits base (n div base)))"
      using 1(1)[of "w - 1"] 1(2,3) False by simp
    then show ?thesis using d c False 1(2) by (simp add: printnum.simps[of n base] nat_digits.simps[of base n] algebra_simps)
  qed
qed

lemma hex_digit_back: "d < 16 \<Longrightarrow> digit_of (hex_digits ! d) = Some d"
proof -
  assume "d < 16"
  then have "d \<in> set [0..<16]" by simp
  moreover have "\<forall>d \<in> set [0..<16]. digit_of (hex_digits ! d) = Some d" by (simp add: digit_of_def hex_digits_def upt_conv_Cons)
  ultimately show ?thesis by blast
qed

lemma strtol_digits_ok:
  assumes "base \<le> 16" "\<forall>d \<in> set ds. d < base"
  shows "strtol_digits (map (\<lambda>d. hex_digits ! d) ds @ [0]) base (word_of_nat v) = Some (word_of_nat (foldl (\<lambda>v d. v * base + d) v ds), [0])"
  using assms
proof (induction ds arbitrary: v)
  case Nil
  then show ?case by (simp add: digit_of_def)
next
  case (Cons d ds)
  then have "digit_of (hex_digits ! d) = Some d" by (intro hex_digit_back) auto
  then show ?case using Cons.prems Cons.IH[of "v * base + d"] by simp
qed

lemma hex_digit_plain: "d < 16 \<Longrightarrow> hex_digits ! d \<notin> {32, 9, 43, 45, 120}"
proof -
  assume "d < 16"
  then have "d \<in> set [0..<16]" by simp
  moreover have "\<forall>d \<in> set [0..<16]. hex_digits ! d \<notin> {32, 9, 43, 45, 120}" by (simp add: hex_digits_def upt_conv_Cons)
  ultimately show ?thesis by blast
qed

definition num_text :: "nat \<Rightarrow> nat \<Rightarrow> u8 list" where
  "num_text base n = map (\<lambda>d. hex_digits ! d) (nat_digits base n)"

lemma num_text_shape:
  assumes "2 \<le> base" "base \<le> 16"
  obtains c t where "num_text base n @ [0] = c # t" "c \<notin> {32, 9, 43, 45}" "t \<noteq> []" "hd t \<noteq> 120"
proof -
  have lt: "\<forall>d \<in> set (nat_digits base n). d < 16" using nat_digits_less[OF assms(1)] assms(2) by fastforce
  obtain d ds where ds: "nat_digits base n = d # ds"
    by (cases "nat_digits base n") (auto simp: nat_digits.simps[of base n] split: if_splits)
  show ?thesis
  proof (rule that)
    show "num_text base n @ [0] = (hex_digits ! d) # (map (\<lambda>d. hex_digits ! d) ds @ [0])" by (simp add: num_text_def ds)
    show "hex_digits ! d \<notin> {32, 9, 43, 45}" using hex_digit_plain[of d] lt ds by auto
    show "hd (map (\<lambda>d. hex_digits ! d) ds @ [0]) \<noteq> 120" using hex_digit_plain[of "hd ds"] lt ds by (cases ds) auto
  qed simp
qed

lemma strtol_body:
  assumes "2 \<le> base" "base \<le> 16"
  shows "strtol_prefix (num_text base n @ [0]) base = (base, num_text base n @ [0])"
    and "strtol_digits (num_text base n @ [0]) base 0 = Some (word_of_nat n, [0])"
proof -
  obtain c t where t: "num_text base n @ [0] = c # t" "t \<noteq> []" "hd t \<noteq> 120" using num_text_shape[OF assms] by metis
  then obtain d u where "t = d # u" "d \<noteq> 120" by (cases t) auto
  then show "strtol_prefix (num_text base n @ [0]) base = (base, num_text base n @ [0])"
    using t(1) assms by (auto simp: strtol_prefix_def)
  show "strtol_digits (num_text base n @ [0]) base 0 = Some (word_of_nat n, [0])"
    using strtol_digits_ok[of base "nat_digits base n" 0] nat_digits_less[OF assms(1)] nat_digits_value[OF assms(1)] assms(2)
    by (simp add: num_text_def)
qed

lemma strtol_num:
  assumes "2 \<le> base" "base \<le> 16"
  shows "strtol (num_text base n @ [0]) base = Some (sint (word_of_nat n :: u32), [0])"
    and "strtol (45 # num_text base n @ [0]) base = Some (sint (- word_of_nat n :: u32), [0])"
proof -
  obtain c t where t: "num_text base n @ [0] = c # t" "c \<notin> {32, 9, 43, 45}" using num_text_shape[OF assms] by metis
  have "skip_blanks (num_text base n @ [0]) = Some (num_text base n @ [0])" "strtol_sign (num_text base n @ [0]) = (False, num_text base n @ [0])"
    unfolding t(1) using t(2) by (auto simp: strtol_sign_def)
  then show "strtol (num_text base n @ [0]) base = Some (sint (word_of_nat n :: u32), [0])"
    using strtol_body[OF assms] by (simp add: strtol_def)
  show "strtol (45 # num_text base n @ [0]) base = Some (sint (- word_of_nat n :: u32), [0])"
    using strtol_body[OF assms] by (simp add: strtol_def strtol_sign_def)
qed

lemma printnum_text: "2 \<le> base \<Longrightarrow> base \<le> 16 \<Longrightarrow> n < 2 ^ 64 \<Longrightarrow> printnum n base (-1) pad = Some (num_text base n)"
  by (simp add: printnum_ok num_text_def)

lemma fmt_signed_parse:
  "\<exists>out. fmt_signed fmt_init (sint (w :: u32)) = Some out \<and> strtol (out @ [0]) 10 = Some (sint w, [0])"
proof (cases "sint w < 0")
  case True
  have "sint w \<ge> - (2 ^ 31)" using sint_greater_eq[of w] by simp
  then have "nat (- sint w) < 2 ^ 64" by simp
  then have "fmt_signed fmt_init (sint w) = Some (45 # num_text 10 (nat (- sint w)))"
    using True by (simp add: fmt_signed_def fmt_init_def printnum_text)
  moreover have "- word_of_nat (nat (- sint w)) = w" using True by (simp add: word_of_int_nat[symmetric] del: of_nat_nat)
  ultimately show ?thesis using strtol_num(2)[of 10 "nat (- sint w)"] by simp
next
  case False
  have "sint w < 2 ^ 31" using sint_less[of w] by simp
  then have "nat (sint w) < 2 ^ 64" by simp
  then have "fmt_signed fmt_init (sint w) = Some (num_text 10 (nat (sint w)))"
    using False by (simp add: fmt_signed_def fmt_init_def printnum_text)
  moreover have "word_of_nat (nat (sint w)) = w" using False by simp
  ultimately show ?thesis using strtol_num(1)[of 10 "nat (sint w)"] by simp
qed

text \<open>
  C37. Numbers printed by the formatter are read back by \<^verbatim>\<open>strtol\<close>: for every 32-bit value, what
  \<^verbatim>\<open>%d\<close> and \<^verbatim>\<open>%x\<close> print parses in base 10 and 16 to the value again, the least integer included.
\<close>

theorem print_strtol_roundtrip:
  "(\<exists>out. vprintfmt (ascii ''%d'' @ [0]) [VInt w] = Some out \<and> strtol (out @ [0]) 10 = Some (sint w, [0])) \<and>
   (\<exists>out. vprintfmt (ascii ''%x'' @ [0]) [VInt w] = Some out \<and> strtol (out @ [0]) 16 = Some (sint w, [0]))"
proof
  obtain out where out: "fmt_signed fmt_init (sint w) = Some out" "strtol (out @ [0]) 10 = Some (sint w, [0])"
    using fmt_signed_parse by blast
  have "vprintfmt (ascii ''%d'' @ [0]) [VInt w] = Some out"
    using out(1) by (simp add: ascii_def conv_def getint_def fmt_init_def)
  with out(2) show "\<exists>out. vprintfmt (ascii ''%d'' @ [0]) [VInt w] = Some out \<and> strtol (out @ [0]) 10 = Some (sint w, [0])" by blast
  have "unat w < 2 ^ 64" using unsigned_less[of w, where ?'a = nat] by simp
  then have "printnum (unat w) 16 (-1) 32 = Some (num_text 16 (unat w))" by (intro printnum_text) simp_all
  then have "vprintfmt (ascii ''%x'' @ [0]) [VInt w] = Some (num_text 16 (unat w))"
    by (simp add: ascii_def conv_def getuint_def fmt_init_def)
  moreover have "strtol (num_text 16 (unat w) @ [0]) 16 = Some (sint w, [0])" using strtol_num(1)[of 16 "unat w"] by simp
  ultimately show "\<exists>out. vprintfmt (ascii ''%x'' @ [0]) [VInt w] = Some out \<and> strtol (out @ [0]) 16 = Some (sint w, [0])" by blast
qed

text \<open>Printing into a buffer stores as much as fits and counts everything.\<close>

lemma fold_sprintputch:
  "fold sprintputch out b = b\<lparr>sb_buf := sb_buf b @ take (sb_room b) out, sb_room := sb_room b - length out, sb_cnt := sb_cnt b + length out\<rparr>"
proof (induction out arbitrary: b)
  case (Cons c out)
  then show ?case by (cases "sb_room b") (simp_all add: sprintputch_def Let_def)
qed simp

lemma vsnprintf_ok:
  assumes "0 < sz" "vprintfmt fmt ap = Some out"
  shows "vsnprintf False sz fmt ap = Some (int (length out), take (sz - 1) out @ [0])"
  using assms by (simp add: vsnprintf_def fold_sprintputch)

lemma vsnprintf_bounded:
  assumes "vsnprintf null sz fmt ap = Some (r, st)" "0 \<le> r"
  shows "length st \<le> sz \<and> st \<noteq> [] \<and> last st = 0"
  using assms by (auto simp: vsnprintf_def fold_sprintputch bind_eq_Some_conv E_INVAL_def split: if_splits)

text \<open>The generator never leaves the range its documentation gives.\<close>

lemma rand_range: "\<exists>r next'. rand next = Some (r, next') \<and> 0 \<le> r \<and> r \<le> int RAND_MAX \<and> unat next' < 2 ^ 48"
proof -
  let ?m = "(push_bit 48 1 - 1) :: 64 word"
  let ?n = "(next * 0x5DEECE66D + 0xB) AND ?m"
  have m: "?m = mask 48" by (simp add: mask_eq_exp_minus_1)
  have "unat ?n < 2 ^ 48" unfolding m by (metis take_bit_eq_mask take_bit_nat_less_exp unsigned_take_bit_eq)
  moreover define k where "k = unat (drop_bit 12 ?n)"
  have k: "k < 2 ^ 64" unfolding k_def using unsigned_less[of "drop_bit 12 ?n", where ?'a = nat] by simp
  have "do_div k (RAND_MAX + 1) = Some (k div (RAND_MAX + 1), k mod (RAND_MAX + 1))"
    using k by (intro do_div_ok) (simp_all add: RAND_MAX_def)
  moreover have "k mod (RAND_MAX + 1) < 2 ^ 31" by (simp add: RAND_MAX_def)
  then have "sint (word_of_nat (k mod (RAND_MAX + 1)) :: u32) = int (k mod (RAND_MAX + 1))"
    by (simp add: signed_of_nat signed_take_bit_int_eq_self)
  moreover have "k mod (RAND_MAX + 1) \<le> RAND_MAX" by (simp add: RAND_MAX_def less_Suc_eq_le[symmetric])
  ultimately show ?thesis by (simp add: rand_def Let_def k_def)
qed

text \<open>The line returned fits its buffer, with the terminating zero.\<close>

lemma readline_loop_ok:
  "readline_loop cs buf i = Some (Some line, buf', rest) \<Longrightarrow> i < 1024 \<Longrightarrow> length buf = 1024 \<Longrightarrow>
   length line < 1024 \<and> length buf' = 1024 \<and> take (length line) buf' = line \<and> buf' ! length line = 0"
  by (induction cs buf i rule: readline_loop.induct) (auto split: if_splits)

end
