(* ===== verification/Spec2Isabelle.thy ===== *)
theory Spec2Isabelle
  imports Sched_Fair Sync Proc Vmm Sfs_Mount Printfmt
begin

text \<open>
  LiNos is a teaching operating system for 32-bit x86 in C. This library models its kernel and proves
  what makes each part correct.
\<close>

end
